(* ===== verification/Prelude.thy ===== *)
theory Prelude
  imports Main "HOL-Library.AList"
begin

section \<open>Prelude: results, early returns, shared list lemmas\<close>

text \<open>
  A Go call that returns \<open>(value, error)\<close> is modelled by a value of the sum type
  \<open>error + 'a\<close> together with the state after the call. \<open>try_do\<close> is the idiom
  \<^verbatim>\<open>if err != nil { return err }\<close>: an error ends the caller with that error in the
  state the callee left, a value goes on. The two split rules let case analysis
  go through it, and the collection \<open>handler\<close> gathers the equations by which a
  composed operation is computed.
\<close>

named_theorems handler \<open>unfolding rules of composed operations\<close>

definition try_do ::
  "('e + 'a) \<times> 'w \<Rightarrow> ('a \<Rightarrow> 'w \<Rightarrow> ('e + 'b) \<times> 'w) \<Rightarrow> ('e + 'b) \<times> 'w" where
  "try_do p k = (case p of (Inl e, w) \<Rightarrow> (Inl e, w) | (Inr x, w) \<Rightarrow> k x w)"

lemma try_do_Inl [simp]: "try_do (Inl e, w) k = (Inl e, w)"
  and try_do_Inr [simp]: "try_do (Inr x, w) k = k x w"
  by (simp_all add: try_do_def)

lemma try_do_split:
  "P (try_do p k) \<longleftrightarrow>
     (\<forall>e w. p = (Inl e, w) \<longrightarrow> P (Inl e, w)) \<and> (\<forall>x w. p = (Inr x, w) \<longrightarrow> P (k x w))"
  by (cases p; cases "fst p") (auto simp: try_do_def split: sum.splits)

lemma try_do_split_asm:
  "P (try_do p k) \<longleftrightarrow>
     \<not> ((\<exists>e w. p = (Inl e, w) \<and> \<not> P (Inl e, w)) \<or> (\<exists>x w. p = (Inr x, w) \<and> \<not> P (k x w)))"
  by (subst try_do_split) blast

lemmas try_do_splits = try_do_split try_do_split_asm

lemma try_do_InrE:
  assumes "try_do p k = (Inr y, w')"
  obtains x w where "p = (Inr x, w)" and "k x w = (Inr y, w')"
  using assms by (auto split: try_do_splits)

definition is_err :: "'e + 'a \<Rightarrow> bool" where
  "is_err r \<longleftrightarrow> (case r of Inl _ \<Rightarrow> True | Inr _ \<Rightarrow> False)"

lemma is_err_simps [simp]: "is_err (Inl e)" "\<not> is_err (Inr x)"
  by (simp_all add: is_err_def)

subsection \<open>Lists\<close>

definition starts_with :: "'a list \<Rightarrow> 'a list \<Rightarrow> bool" where
  "starts_with p s \<longleftrightarrow> take (length p) s = p"

lemma starts_with_iff: "starts_with p s \<longleftrightarrow> (\<exists>t. s = p @ t)"
  unfolding starts_with_def by (metis append_eq_conv_conj append_take_drop_id)

lemma starts_with_Nil [simp]: "starts_with [] s"
  and starts_with_Cons_Nil [simp]: "\<not> starts_with (x # p) []"
  and starts_with_Cons [simp]: "starts_with (x # p) (y # s) \<longleftrightarrow> x = y \<and> starts_with p s"
  by (auto simp: starts_with_def)

lemma starts_with_append [simp]: "starts_with p (p @ s)"
  by (auto simp: starts_with_iff)

lemma starts_with_take: "starts_with p (take n s) \<Longrightarrow> starts_with p s"
  unfolding starts_with_iff by (metis append.assoc append_take_drop_id)

lemma starts_with_length: "starts_with p s \<Longrightarrow> length p \<le> length s"
  by (auto simp: starts_with_iff)

lemma map_of_AList_update [simp]: "map_of (AList.update k v m) = (map_of m)(k \<mapsto> v)"
  by (simp add: update_conv')

lemma distinct_keys_update: "distinct (map fst m) \<Longrightarrow> distinct (map fst (AList.update k v m))"
  by (rule AList.distinct_update)

lemma set_update_distinct:
  assumes "distinct (map fst m)"
  shows "set (AList.update k v m) = insert (k, v) {p \<in> set m. fst p \<noteq> k}"
  using assms by (induction m) (auto simp: image_iff)

end
