(* ===== verification/GoStrings.thy ===== *)
theory GoStrings
  imports Prelude
begin

section \<open>Go strings: bytes, UTF-8 and the \<open>strings\<close> functions the program calls\<close>

text \<open>
  A Go string is a sequence of bytes, and \<^verbatim>\<open>len\<close> counts bytes. Here it is a
  \<^typ>\<open>string\<close>, a list of \<^typ>\<open>char\<close>, and a \<^typ>\<open>char\<close> is one byte. This theory holds
  what the program uses of packages \<^verbatim>\<open>strings\<close> and \<^verbatim>\<open>unicode/utf8\<close>: decoding of runes
  (an invalid byte decodes to U+FFFD of width 1), \<^verbatim>\<open>TrimSpace\<close>, \<^verbatim>\<open>ToLower\<close>,
  \<^verbatim>\<open>LastIndex\<close> of a one-byte separator, \<^verbatim>\<open>Split\<close>, \<^verbatim>\<open>HasPrefix\<close> and \<^verbatim>\<open>TrimPrefix\<close>.
  Lower-casing of runes outside ASCII is Unicode's case table, which is a parameter
  \<open>lo\<close> (\<^verbatim>\<open>unicode.ToLower\<close>); the laws it obeys are \<open>lower_laws\<close>.
\<close>

subsection \<open>Runes\<close>

definition bytes :: "string \<Rightarrow> nat list" where
  "bytes s = map of_char s"

definition unbytes :: "nat list \<Rightarrow> string" where
  "unbytes bs = map char_of bs"

abbreviation rune_error :: nat where "rune_error \<equiv> 0xFFFD"

definition cont_byte :: "nat \<Rightarrow> bool" where
  "cont_byte b \<longleftrightarrow> 0x80 \<le> b \<and> b \<le> 0xBF"

definition second_ok :: "nat \<Rightarrow> nat \<Rightarrow> bool" where
  "second_ok b0 b1 \<longleftrightarrow>
     (if b0 = 0xE0 then 0xA0 else if b0 = 0xF0 then 0x90 else 0x80) \<le> b1 \<and>
     b1 \<le> (if b0 = 0xED then 0x9F else if b0 = 0xF4 then 0x8F else 0xBF)"

fun decode_rune :: "nat list \<Rightarrow> nat \<times> nat" where
  "decode_rune [] = (rune_error, 0)"
| "decode_rune (b0 # bs) =
    (if b0 < 0x80 then (b0, 1)
     else if b0 < 0xC2 \<or> 0xF4 < b0 then (rune_error, 1)
     else case bs of
       [] \<Rightarrow> (rune_error, 1)
     | b1 # bs1 \<Rightarrow>
         if \<not> second_ok b0 b1 then (rune_error, 1)
         else if b0 < 0xE0 then ((b0 - 0xC0) * 64 + (b1 - 0x80), 2)
         else (case bs1 of
             [] \<Rightarrow> (rune_error, 1)
           | b2 # bs2 \<Rightarrow>
               if \<not> cont_byte b2 then (rune_error, 1)
               else if b0 < 0xF0
                 then ((b0 - 0xE0) * 4096 + (b1 - 0x80) * 64 + (b2 - 0x80), 3)
               else (case bs2 of
                   [] \<Rightarrow> (rune_error, 1)
                 | b3 # bs3 \<Rightarrow>
                     if \<not> cont_byte b3 then (rune_error, 1)
                     else ((b0 - 0xF0) * 262144 + (b1 - 0x80) * 4096
                             + (b2 - 0x80) * 64 + (b3 - 0x80), 4))))"

lemma decode_rune_width:
  "0 < snd (decode_rune (b # bs)) \<and> snd (decode_rune (b # bs)) \<le> length (b # bs)"
  by (auto split: list.splits)

function runes :: "nat list \<Rightarrow> nat list" where
  "runes [] = []"
| "runes (b # bs) = fst (decode_rune (b # bs)) # runes (drop (snd (decode_rune (b # bs))) (b # bs))"
  by pat_completeness auto
termination
proof (relation "measure length")
  fix b bs
  have "0 < snd (decode_rune (b # bs))" using decode_rune_width by blast
  then show "(drop (snd (decode_rune (b # bs))) (b # bs), b # bs) \<in> measure length"
    by (simp only: in_measure length_drop list.size)
qed simp

definition valid_rune :: "nat \<Rightarrow> bool" where
  "valid_rune r \<longleftrightarrow> r < 0xD800 \<or> (0xE000 \<le> r \<and> r \<le> 0x10FFFF)"

definition encode_rune :: "nat \<Rightarrow> nat list" where
  "encode_rune r =
    (if r < 0x80 then [r]
     else if r < 0x800 then [0xC0 + r div 64, 0x80 + r mod 64]
     else if \<not> valid_rune r then [0xEF, 0xBF, 0xBD]
     else if r < 0x10000
       then [0xE0 + r div 4096, 0x80 + (r div 64) mod 64, 0x80 + r mod 64]
     else [0xF0 + r div 262144, 0x80 + (r div 4096) mod 64,
           0x80 + (r div 64) mod 64, 0x80 + r mod 64])"

definition encode_runes :: "nat list \<Rightarrow> nat list" where
  "encode_runes rs = concat (map encode_rune rs)"

subsubsection \<open>Decoding inverts encoding\<close>

lemma second_ok_cont: "second_ok b0 b1 \<Longrightarrow> cont_byte b1"
  by (auto simp: second_ok_def cont_byte_def split: if_splits)

lemma decode_encode2:
  assumes "0x80 \<le> r" "r < 0x800"
  shows "decode_rune (encode_rune r @ bs) = (r, length (encode_rune r))"
proof -
  define a b where "a = r div 64" and "b = r mod 64"
  have r: "r = a * 64 + b" by (simp add: a_def b_def)
  have lt: "2 \<le> a" "a < 32" "b < 64" using assms by (auto simp: a_def b_def)
  have "encode_rune r = [0xC0 + a, 0x80 + b]" using assms by (simp add: encode_rune_def a_def b_def)
  then show ?thesis using lt r by (simp add: second_ok_def)
qed

lemma decode_encode3:
  assumes "0x800 \<le> r" "r < 0x10000" "valid_rune r"
  shows "decode_rune (encode_rune r @ bs) = (r, length (encode_rune r))"
proof -
  define a b c where "a = r div 4096" and "b = (r div 64) mod 64" and "c = r mod 64"
  have r: "r = a * 4096 + b * 64 + c"
    unfolding a_def b_def c_def using mod_mult2_eq [of r 64 64] div_mult_mod_eq [of r 4096] by simp
  have lt: "a < 16" "b < 64" "c < 64" using assms(2) by (auto simp: a_def b_def c_def)
  have "a = 0 \<Longrightarrow> 32 \<le> b" using r lt assms(1) by simp
  moreover have "a = 13 \<Longrightarrow> b < 32" using r lt assms(3) by (auto simp: valid_rune_def)
  ultimately have "second_ok (0xE0 + a) (0x80 + b)" using lt by (auto simp: second_ok_def)
  moreover have "encode_rune r = [0xE0 + a, 0x80 + b, 0x80 + c]"
    using assms by (simp add: encode_rune_def a_def b_def c_def)
  ultimately show ?thesis using lt r by (simp add: cont_byte_def)
qed

lemma decode_encode4:
  assumes "0x10000 \<le> r" "valid_rune r"
  shows "decode_rune (encode_rune r @ bs) = (r, length (encode_rune r))"
proof -
  define a b c d where "a = r div 262144" and "b = (r div 4096) mod 64"
    and "c = (r div 64) mod 64" and "d = r mod 64"
  have "r mod 262144 = b * 4096 + c * 64 + d"
    unfolding b_def c_def d_def
    using mod_mult2_eq [of r 64 64] mod_mult2_eq [of r 4096 64] by simp
  then have r: "r = a * 262144 + b * 4096 + c * 64 + d"
    unfolding a_def using div_mult_mod_eq [of r 262144] by simp
  have lt: "a < 5" "b < 64" "c < 64" "d < 64"
    using assms by (auto simp: a_def b_def c_def d_def valid_rune_def)
  have "a = 0 \<Longrightarrow> 16 \<le> b" using r lt assms(1) by simp
  moreover have "a = 4 \<Longrightarrow> b < 16" using r lt assms by (auto simp: valid_rune_def)
  ultimately have "second_ok (0xF0 + a) (0x80 + b)" using lt by (auto simp: second_ok_def)
  moreover have "encode_rune r = [0xF0 + a, 0x80 + b, 0x80 + c, 0x80 + d]"
    using assms by (simp add: encode_rune_def a_def b_def c_def d_def)
  ultimately show ?thesis using lt r by (simp add: cont_byte_def)
qed

lemma decode_encode:
  assumes "valid_rune r"
  shows "decode_rune (encode_rune r @ bs) = (r, length (encode_rune r))"
proof -
  have "r < 0x80 \<or> (0x80 \<le> r \<and> r < 0x800) \<or> (0x800 \<le> r \<and> r < 0x10000) \<or> 0x10000 \<le> r"
    by linarith
  then show ?thesis
    using assms decode_encode2 decode_encode3 decode_encode4 by (auto simp: encode_rune_def)
qed

lemma encode_rune_Cons: "\<exists>b bs. encode_rune r = b # bs"
  by (auto simp: encode_rune_def)

lemma encode_rune_nonempty [simp]: "encode_rune r \<noteq> []"
  using encode_rune_Cons [of r] by auto

lemma runes_append_encode:
  assumes "valid_rune r"
  shows "runes (encode_rune r @ bs) = r # runes bs"
proof -
  obtain b cs where e: "encode_rune r = b # cs" using encode_rune_Cons by blast
  have "decode_rune (b # cs @ bs) = (r, Suc (length cs))"
    using decode_encode [OF assms, of bs] e by simp
  then show ?thesis by (simp add: e del: decode_rune.simps)
qed

lemma runes_encode: "list_all valid_rune rs \<Longrightarrow> runes (encode_runes rs) = rs"
  by (induction rs) (simp_all add: encode_runes_def runes_append_encode del: runes.simps(2))

lemma low64: "d < 64 \<Longrightarrow> (x * 64 + d) div 64 = x" "d < 64 \<Longrightarrow> (x * 64 + d) mod 64 = d"
  for x d :: nat
  by simp_all

lemma div_4096: "r div 4096 = r div 64 div 64" and div_262144: "r div 262144 = r div 64 div 64 div 64"
  for r :: nat
  using div_mult2_eq [of r 64 64] div_mult2_eq [of r 4096 64] by simp_all

lemma decode_rune_Some:
  assumes "decode_rune bs = (r, w)" "bs \<noteq> []" "r \<noteq> rune_error"
  shows "valid_rune r \<and> bs = encode_rune r @ drop w bs"
proof -
  obtain b0 bs1 where bs: "bs = b0 # bs1" using assms(2) by (cases bs) auto
  consider "b0 < 0x80" | "0xC2 \<le> b0" "b0 < 0xE0" | "0xE0 \<le> b0" "b0 < 0xF0" | "0xF0 \<le> b0" "b0 \<le> 0xF4"
    using assms bs by (auto split: if_splits) linarith
  then show ?thesis
  proof cases
    case 1
    then show ?thesis using assms(1) bs by (auto simp: encode_rune_def valid_rune_def)
  next
    case 2
    then obtain b1 bs2 where b1: "bs1 = b1 # bs2" "second_ok b0 b1" "w = 2"
      and r: "r = (b0 - 0xC0) * 64 + (b1 - 0x80)"
      using assms bs by (auto split: list.splits if_splits)
    define a c where "a = b0 - 0xC0" and "c = b1 - 0x80"
    have "b0 = 0xC0 + a" "b1 = 0x80 + c" "2 \<le> a" "a < 32" "c < 64"
      using 2 b1(2) by (auto simp: a_def c_def second_ok_def split: if_splits)
    moreover from this have "r = a * 64 + c" using r by simp
    ultimately show ?thesis using bs b1 by (simp add: encode_rune_def valid_rune_def)
  next
    case 3
    then obtain b1 b2 bs3 where b1: "bs1 = b1 # b2 # bs3" "second_ok b0 b1" "cont_byte b2" "w = 3"
      and r: "r = (b0 - 0xE0) * 4096 + (b1 - 0x80) * 64 + (b2 - 0x80)"
      using assms bs by (auto split: list.splits if_splits)
    define a c d where "a = b0 - 0xE0" and "c = b1 - 0x80" and "d = b2 - 0x80"
    have b: "b0 = 0xE0 + a" "b1 = 0x80 + c" "b2 = 0x80 + d" and lt: "a < 16" "c < 64" "d < 64"
      and ac: "a = 0 \<Longrightarrow> 32 \<le> c" "a = 13 \<Longrightarrow> c < 32"
      using 3 b1(2,3) by (auto simp: a_def c_def d_def second_ok_def cont_byte_def split: if_splits)
    have r': "r = (a * 64 + c) * 64 + d" using r b by simp
    have "0x800 \<le> r" "r < 0x10000" and v: "valid_rune r"
      using r' lt ac by (cases "a = 0"; cases "a = 13"; auto simp: valid_rune_def)+
    then have "encode_rune r = [b0, b1, b2]"
      unfolding encode_rune_def div_4096 unfolding r' low64 [OF lt(3)] low64 [OF lt(2)]
      using b by simp
    then show ?thesis using bs b1 v by simp
  next
    case 4
    then obtain b1 b2 b3 bs4 where b1: "bs1 = b1 # b2 # b3 # bs4" "second_ok b0 b1"
        "cont_byte b2" "cont_byte b3" "w = 4"
      and r: "r = (b0 - 0xF0) * 262144 + (b1 - 0x80) * 4096 + (b2 - 0x80) * 64 + (b3 - 0x80)"
      using assms bs by (auto split: list.splits if_splits)
    define a c d e where "a = b0 - 0xF0" and "c = b1 - 0x80" and "d = b2 - 0x80" and "e = b3 - 0x80"
    have b: "b0 = 0xF0 + a" "b1 = 0x80 + c" "b2 = 0x80 + d" "b3 = 0x80 + e"
      and lt: "a < 5" "c < 64" "d < 64" "e < 64"
      and ac: "a = 0 \<Longrightarrow> 16 \<le> c" "a = 4 \<Longrightarrow> c < 16"
      using 4 b1(2-4)
      by (auto simp: a_def c_def d_def e_def second_ok_def cont_byte_def split: if_splits)
    have r': "r = ((a * 64 + c) * 64 + d) * 64 + e" using r b by simp
    have "0x10000 \<le> r" and v: "valid_rune r"
      using r' lt ac by (cases "a = 0"; cases "a = 4"; auto simp: valid_rune_def)+
    then have "encode_rune r = [b0, b1, b2, b3]"
      unfolding encode_rune_def div_262144 div_4096
      unfolding r' low64 [OF lt(4)] low64 [OF lt(3)] low64 [OF lt(2)]
      using b by simp
    then show ?thesis using bs b1 v by simp
  qed
qed

lemma decode_rune_valid: "valid_rune (fst (decode_rune bs))"
proof (cases "bs = [] \<or> fst (decode_rune bs) = rune_error")
  case True
  then show ?thesis by (auto simp: valid_rune_def)
next
  case False
  obtain r w where d: "decode_rune bs = (r, w)" by fastforce
  with False show ?thesis using decode_rune_Some [OF d] by simp
qed

lemma runes_valid: "list_all valid_rune (runes bs)"
proof (induction bs rule: runes.induct)
  case (2 b bs)
  then show ?case using decode_rune_valid [of "b # bs"] by simp
qed simp

lemma last_runes:
  assumes "bs \<noteq> []" "last (runes bs) = r" "r \<noteq> rune_error"
  shows "\<exists>y. bs = y @ encode_rune r"
  using assms
proof (induction bs rule: runes.induct)
  case (2 b bs)
  let ?w = "snd (decode_rune (b # bs))"
  let ?rest = "drop ?w (b # bs)"
  show ?case
  proof (cases "?rest = []")
    case True
    then have "fst (decode_rune (b # bs)) = r" using "2.prems" by simp
    then show ?thesis
      using decode_rune_Some [of "b # bs" r ?w] "2.prems" True by (metis append_Nil append_Nil2 list.discI prod.collapse)
  next
    case False
    then have "runes ?rest \<noteq> []" by (cases ?rest) auto
    then have "last (runes ?rest) = r" using "2.prems"(2) by simp
    then obtain y where "?rest = y @ encode_rune r" using "2.IH" False "2.prems"(3) by blast
    then show ?thesis by (metis append.assoc append_take_drop_id)
  qed
qed simp

lemma encode_rune_bytes: "b \<in> set (encode_rune r) \<Longrightarrow> b < 256"
  by (auto simp: encode_rune_def valid_rune_def split: if_splits)

lemma bytes_unbytes: "(\<And>b. b \<in> set bs \<Longrightarrow> b < 256) \<Longrightarrow> bytes (unbytes bs) = bs"
  by (auto simp: bytes_def unbytes_def intro!: map_idI)

lemma unbytes_bytes [simp]: "unbytes (bytes s) = s"
  by (simp add: bytes_def unbytes_def comp_def)

lemma bytes_inject: "bytes s = bytes t \<longleftrightarrow> s = t"
  by (metis unbytes_bytes)

lemma length_bytes [simp]: "length (bytes s) = length s"
  by (simp add: bytes_def)

subsection \<open>TrimSpace\<close>

text \<open>
  \<^verbatim>\<open>strings.TrimSpace\<close> removes leading, then trailing runes of \<^verbatim>\<open>unicode.IsSpace\<close>. The first
  rune of a string is a given space exactly when the string starts with that rune's
  encoding (\<open>decode_rune_space\<close>), and the last one when it ends with it.
\<close>

definition space_runes :: "nat list" where
  "space_runes = [9, 10, 11, 12, 13, 32, 0x85, 0xA0, 0x1680,
     0x2000, 0x2001, 0x2002, 0x2003, 0x2004, 0x2005, 0x2006, 0x2007, 0x2008, 0x2009, 0x200A,
     0x2028, 0x2029, 0x202F, 0x205F, 0x3000]"

definition lead_match :: "nat list list \<Rightarrow> nat list \<Rightarrow> nat list option" where
  "lead_match es bs = find (\<lambda>e. e \<noteq> [] \<and> starts_with e bs) es"

lemma lead_match_Some: "lead_match es bs = Some e \<Longrightarrow> e \<noteq> [] \<and> starts_with e bs \<and> e \<in> set es"
  by (auto simp: lead_match_def find_Some_iff)

lemma lead_match_None:
  "lead_match es bs = None \<longleftrightarrow> (\<forall>e \<in> set es. e \<noteq> [] \<longrightarrow> \<not> starts_with e bs)"
  by (auto simp: lead_match_def find_None_iff)

function strip_front :: "nat list list \<Rightarrow> nat list \<Rightarrow> nat list" where
  "strip_front es bs =
    (case lead_match es bs of None \<Rightarrow> bs | Some e \<Rightarrow> strip_front es (drop (length e) bs))"
  by pat_completeness auto
termination
proof (relation "measure (\<lambda>(es, bs). length bs)")
  fix es bs e
  assume "lead_match es bs = Some e"
  then have "e \<noteq> []" "starts_with e bs" by (auto dest: lead_match_Some)
  then have "0 < length e" "length e \<le> length bs" by (auto dest: starts_with_length)
  then show "((es, drop (length e) bs), (es, bs)) \<in> measure (\<lambda>(es, bs). length bs)" by (cases bs) auto
qed simp

declare strip_front.simps [simp del]

definition space_encodings :: "nat list list" where
  "space_encodings = map encode_rune space_runes"

definition trim_left :: "nat list \<Rightarrow> nat list" where
  "trim_left bs = strip_front space_encodings bs"

definition trim_right :: "nat list \<Rightarrow> nat list" where
  "trim_right bs = rev (strip_front (map rev space_encodings) (rev bs))"

definition trim_space :: "string \<Rightarrow> string" where
  "trim_space s = unbytes (trim_right (trim_left (bytes s)))"

lemma strip_front_stop: "lead_match es (strip_front es bs) = None"
proof (induction es bs rule: strip_front.induct)
  case (1 es bs)
  then show ?case by (subst strip_front.simps) (auto split: option.splits)
qed

lemma strip_front_suffix: "\<exists>x. bs = x @ strip_front es bs"
proof (induction es bs rule: strip_front.induct)
  case (1 es bs)
  show ?case
  proof (cases "lead_match es bs")
    case None
    then show ?thesis by (simp add: strip_front.simps)
  next
    case (Some e)
    then obtain x where "drop (length e) bs = x @ strip_front es (drop (length e) bs)"
      using "1.IH" by blast
    then have "bs = take (length e) bs @ x @ strip_front es (drop (length e) bs)"
      by (metis append_take_drop_id)
    moreover have "strip_front es bs = strip_front es (drop (length e) bs)"
      using Some by (subst strip_front.simps) simp
    ultimately show ?thesis by (metis append.assoc)
  qed
qed

lemma strip_front_id: "lead_match es bs = None \<Longrightarrow> strip_front es bs = bs"
  by (simp add: strip_front.simps)

definition trimmed :: "nat list \<Rightarrow> bool" where
  "trimmed bs \<longleftrightarrow> (\<forall>r \<in> set space_runes.
     \<not> starts_with (encode_rune r) bs \<and> \<not> starts_with (rev (encode_rune r)) (rev bs))"

lemma lead_match_spaces:
  "lead_match space_encodings bs = None \<longleftrightarrow> (\<forall>r \<in> set space_runes. \<not> starts_with (encode_rune r) bs)"
  "lead_match (map rev space_encodings) bs = None \<longleftrightarrow>
     (\<forall>r \<in> set space_runes. \<not> starts_with (rev (encode_rune r)) bs)"
  by (auto simp: lead_match_None space_encodings_def)

lemma trimmed_trim: "trimmed (trim_right (trim_left bs))"
proof -
  obtain x where x: "rev (trim_left bs) = x @ strip_front (map rev space_encodings) (rev (trim_left bs))"
    using strip_front_suffix by blast
  then have "trim_left bs = trim_right (trim_left bs) @ rev x"
    unfolding trim_right_def by (metis rev_append rev_rev_ident)
  then have "starts_with e (trim_right (trim_left bs)) \<Longrightarrow> starts_with e (trim_left bs)" for e
    by (metis append.assoc starts_with_iff)
  moreover have "lead_match space_encodings (trim_left bs) = None"
    unfolding trim_left_def by (rule strip_front_stop)
  moreover have "lead_match (map rev space_encodings) (rev (trim_right (trim_left bs))) = None"
    unfolding trim_right_def by (simp add: strip_front_stop)
  ultimately show ?thesis unfolding trimmed_def lead_match_spaces by blast
qed

lemma trim_trimmed: "trimmed bs \<Longrightarrow> trim_right (trim_left bs) = bs"
  unfolding trim_right_def trim_left_def
  by (simp add: trimmed_def lead_match_spaces strip_front_id)

lemma trim_bytes_256: "(\<And>b. b \<in> set bs \<Longrightarrow> b < 256) \<Longrightarrow> b \<in> set (trim_right (trim_left bs)) \<Longrightarrow> b < 256"
  unfolding trim_right_def trim_left_def
  by (metis Un_iff rev_rev_ident set_append set_rev strip_front_suffix)

lemma bytes_trim_space: "bytes (trim_space s) = trim_right (trim_left (bytes s))"
  unfolding trim_space_def
  by (rule bytes_unbytes) (rule trim_bytes_256 [of "bytes s"], auto simp: bytes_def)

lemma trim_space_idem [simp]: "trim_space (trim_space s) = trim_space s"
  by (metis bytes_inject bytes_trim_space trim_trimmed trimmed_trim)

lemma trim_space_fixed: "trim_space s = s \<longleftrightarrow> trimmed (bytes s)"
  by (metis bytes_inject bytes_trim_space trim_trimmed trimmed_trim)

lemma length_trim_space: "length (trim_space s) \<le> length s"
proof -
  have "length (strip_front es bs) \<le> length bs" for es bs
    using strip_front_suffix [of bs es] by (metis le_add2 length_append)
  then have "length (trim_right (trim_left (bytes s))) \<le> length (bytes s)"
    unfolding trim_right_def trim_left_def by (metis length_rev order_trans)
  then show ?thesis by (metis bytes_trim_space length_bytes)
qed

lemma space_runes_valid: "r \<in> set space_runes \<Longrightarrow> valid_rune r \<and> r \<noteq> rune_error"
  by (auto simp: space_runes_def valid_rune_def)

lemma decode_rune_space:
  assumes "r \<in> set space_runes" "bs \<noteq> []"
  shows "starts_with (encode_rune r) bs \<longleftrightarrow> fst (decode_rune bs) = r"
proof
  assume "starts_with (encode_rune r) bs"
  then obtain t where "bs = encode_rune r @ t" by (auto simp: starts_with_iff)
  then show "fst (decode_rune bs) = r" using decode_encode assms(1) space_runes_valid by simp
next
  assume "fst (decode_rune bs) = r"
  then show "starts_with (encode_rune r) bs"
    using decode_rune_Some [of bs r "snd (decode_rune bs)"] assms space_runes_valid
    by (metis prod.collapse starts_with_append)
qed

subsection \<open>ToLower\<close>

text \<open>
  \<^verbatim>\<open>strings.ToLower\<close> maps every rune (its ASCII fast path computes the same bytes). An
  invalid byte becomes the encoding of U+FFFD, as \<^verbatim>\<open>strings.Map\<close> writes it.
\<close>

definition rune_lower :: "(nat \<Rightarrow> nat) \<Rightarrow> nat \<Rightarrow> nat" where
  "rune_lower lo r = (if r < 0x80 then (if 65 \<le> r \<and> r \<le> 90 then r + 32 else r) else lo r)"

definition lower_bytes :: "(nat \<Rightarrow> nat) \<Rightarrow> nat list \<Rightarrow> nat list" where
  "lower_bytes lo bs = encode_runes (map (rune_lower lo) (runes bs))"

definition to_lower :: "(nat \<Rightarrow> nat) \<Rightarrow> string \<Rightarrow> string" where
  "to_lower lo s = unbytes (lower_bytes lo (bytes s))"

text \<open>
  What Unicode's lower-case table gives outside ASCII: a valid rune, a fixed point of
  lower-casing, and white space only for white space.
\<close>

definition lower_laws :: "(nat \<Rightarrow> nat) \<Rightarrow> bool" where
  "lower_laws lo \<longleftrightarrow> (\<forall>r. valid_rune r \<longrightarrow> 0x80 \<le> r \<longrightarrow>
     valid_rune (lo r) \<and> rune_lower lo (lo r) = lo r \<and> (lo r \<in> set space_runes \<longrightarrow> lo r = r))"

lemma lower_laws_id: "lower_laws (\<lambda>r. r)"
  by (simp add: lower_laws_def rune_lower_def)

lemma lower_lawsD:
  assumes "lower_laws lo" "valid_rune r" "\<not> r < 0x80"
  shows "valid_rune (lo r)" "rune_lower lo (lo r) = lo r" "lo r \<in> set space_runes \<Longrightarrow> lo r = r"
  using assms unfolding lower_laws_def by simp_all

lemma ascii_valid: "r < 0x100 \<Longrightarrow> valid_rune r"
  by (simp add: valid_rune_def)

lemma rune_lower_valid: "lower_laws lo \<Longrightarrow> valid_rune r \<Longrightarrow> valid_rune (rune_lower lo r)"
  by (cases "r < 0x80") (simp_all add: rune_lower_def ascii_valid lower_lawsD(1))

lemma rune_lower_idem: "lower_laws lo \<Longrightarrow> valid_rune r \<Longrightarrow> rune_lower lo (rune_lower lo r) = rune_lower lo r"
  by (cases "r < 0x80") (simp_all add: rune_lower_def [of lo r] lower_lawsD(2), simp add: rune_lower_def)

lemma rune_lower_space:
  "lower_laws lo \<Longrightarrow> valid_rune r \<Longrightarrow> rune_lower lo r \<in> set space_runes \<Longrightarrow> rune_lower lo r = r"
proof (cases "r < 0x80")
  case False
  assume a: "lower_laws lo" "valid_rune r" "rune_lower lo r \<in> set space_runes"
  then show ?thesis using lower_lawsD(3) [OF a(1,2) False] False by (simp add: rune_lower_def)
next
  case True
  then have "65 \<le> r \<Longrightarrow> r \<le> 90 \<Longrightarrow> r + 32 \<notin> set space_runes" by (simp add: space_runes_def)
  then show "rune_lower lo r \<in> set space_runes \<Longrightarrow> rune_lower lo r = r"
    using True by (auto simp: rune_lower_def split: if_splits)
qed

lemma map_rune_lower_valid:
  "lower_laws lo \<Longrightarrow> list_all valid_rune (map (rune_lower lo) (runes bs))"
  using runes_valid [of bs] by (auto simp: list_all_iff rune_lower_valid)

lemma runes_lower: "lower_laws lo \<Longrightarrow> runes (lower_bytes lo bs) = map (rune_lower lo) (runes bs)"
  unfolding lower_bytes_def by (rule runes_encode) (rule map_rune_lower_valid)

lemma lower_bytes_256: "b \<in> set (lower_bytes lo bs) \<Longrightarrow> b < 256"
  by (auto simp: lower_bytes_def encode_runes_def dest: encode_rune_bytes)

lemma bytes_to_lower: "bytes (to_lower lo s) = lower_bytes lo (bytes s)"
  unfolding to_lower_def by (rule bytes_unbytes) (rule lower_bytes_256)

lemma lower_bytes_idem:
  assumes "lower_laws lo"
  shows "lower_bytes lo (lower_bytes lo bs) = lower_bytes lo bs"
proof -
  have "map (rune_lower lo) (map (rune_lower lo) (runes bs)) = map (rune_lower lo) (runes bs)"
    using runes_valid [of bs] assms by (auto simp: list_all_iff rune_lower_idem)
  then show ?thesis unfolding lower_bytes_def [of lo "lower_bytes lo bs"]
    unfolding runes_lower [OF assms] by (simp only: lower_bytes_def)
qed

lemma to_lower_idem: "lower_laws lo \<Longrightarrow> to_lower lo (to_lower lo s) = to_lower lo s"
  by (metis bytes_inject bytes_to_lower lower_bytes_idem)

subsubsection \<open>Lower-casing keeps a trimmed string trimmed\<close>

definition last_unit :: "nat list \<Rightarrow> nat list" where
  "last_unit bs = (let r = rev bs in rev (takeWhile cont_byte r @ take 1 (dropWhile cont_byte r)))"

lemma encode_rune_shape:
  assumes "valid_rune r"
  shows "\<exists>b cs. encode_rune r = b # cs \<and> \<not> cont_byte b \<and> list_all cont_byte cs"
  using assms by (auto simp: encode_rune_def cont_byte_def valid_rune_def)

lemma last_unit_encode:
  assumes "valid_rune r"
  shows "last_unit (x @ encode_rune r) = encode_rune r"
proof -
  obtain b cs where e: "encode_rune r = b # cs" "\<not> cont_byte b" "list_all cont_byte cs"
    using encode_rune_shape assms by blast
  then have "takeWhile cont_byte (rev cs @ b # rev x) = rev cs"
    and "dropWhile cont_byte (rev cs @ b # rev x) = b # rev x"
    by (auto simp: takeWhile_append dropWhile_append list_all_iff)
  then show ?thesis using e(1) by (simp add: last_unit_def)
qed

lemma encode_rune_inject:
  "valid_rune r \<Longrightarrow> valid_rune q \<Longrightarrow> encode_rune r = encode_rune q \<Longrightarrow> r = q"
  using decode_encode [of r "[]"] decode_encode [of q "[]"] by simp

lemma encode_runes_ends:
  assumes "encode_runes rs = y @ encode_rune r" "list_all valid_rune rs" "valid_rune r"
  shows "rs \<noteq> [] \<and> last rs = r"
proof (cases rs rule: rev_cases)
  case Nil
  then show ?thesis using assms(1) by (simp add: encode_runes_def)
next
  case (snoc qs q)
  then have "encode_runes qs @ encode_rune q = y @ encode_rune r"
    using assms(1) by (simp add: encode_runes_def)
  moreover have "valid_rune q" using assms(2) snoc by simp
  ultimately have "encode_rune q = encode_rune r"
    using last_unit_encode assms(3) by metis
  then show ?thesis using encode_rune_inject assms(3) \<open>valid_rune q\<close> snoc by simp
qed

lemma lower_no_lead:
  assumes "lower_laws lo" "r \<in> set space_runes" "starts_with (encode_rune r) (lower_bytes lo bs)"
  shows "starts_with (encode_rune r) bs"
proof -
  obtain y where y: "lower_bytes lo bs = encode_rune r @ y" using assms(3) by (auto simp: starts_with_iff)
  have v: "valid_rune r" using assms(2) space_runes_valid by blast
  have "map (rune_lower lo) (runes bs) = r # runes y"
    using runes_append_encode [OF v, of y] runes_lower [OF assms(1), of bs] y by simp
  then obtain r0 rs where r0: "runes bs = r0 # rs" "rune_lower lo r0 = r" by auto
  moreover from this have "bs \<noteq> []" by auto
  moreover have "r0 = r" using r0 runes_valid [of bs] rune_lower_space [of lo r0] assms(1,2) by simp
  ultimately have "fst (decode_rune bs) = r" by (cases bs) (auto simp del: decode_rune.simps)
  then show ?thesis using decode_rune_space assms(2) \<open>bs \<noteq> []\<close> by blast
qed

lemma lower_no_trail:
  assumes "lower_laws lo" "r \<in> set space_runes"
    and "starts_with (rev (encode_rune r)) (rev (lower_bytes lo bs))"
  shows "starts_with (rev (encode_rune r)) (rev bs)"
proof -
  obtain y where "rev (lower_bytes lo bs) = rev (encode_rune r) @ y"
    using assms(3) by (auto simp: starts_with_iff)
  then have "lower_bytes lo bs = rev y @ encode_rune r" by (metis rev_append rev_rev_ident)
  then have l: "runes bs \<noteq> []" "rune_lower lo (last (runes bs)) = r"
    using encode_runes_ends [of "map (rune_lower lo) (runes bs)" "rev y" r]
      map_rune_lower_valid assms space_runes_valid by (auto simp: lower_bytes_def last_map)
  moreover have "valid_rune (last (runes bs))"
    using runes_valid [of bs] l(1) by (simp add: list_all_iff)
  ultimately have "last (runes bs) = r" using rune_lower_space assms by metis
  moreover have "bs \<noteq> []" using l(1) by auto
  ultimately obtain z where "bs = z @ encode_rune r"
    using last_runes assms(2) space_runes_valid by blast
  then show ?thesis by simp
qed

lemma trimmed_lower: "lower_laws lo \<Longrightarrow> trimmed bs \<Longrightarrow> trimmed (lower_bytes lo bs)"
  using lower_no_lead lower_no_trail unfolding trimmed_def by blast

lemma trim_to_lower_trim:
  assumes "lower_laws lo"
  shows "trim_space (to_lower lo (trim_space s)) = to_lower lo (trim_space s)"
  using trimmed_lower [OF assms] trimmed_trim
  by (simp add: trim_space_fixed bytes_to_lower bytes_trim_space)

subsection \<open>LastIndex, Split, HasPrefix, TrimPrefix\<close>

text \<open>The separators the program uses are single ASCII bytes.\<close>

fun last_index :: "char \<Rightarrow> string \<Rightarrow> int" where
  "last_index c [] = - 1"
| "last_index c (x # xs) =
    (let i = last_index c xs in if 0 \<le> i then i + 1 else if x = c then 0 else - 1)"

fun split_on :: "char \<Rightarrow> string \<Rightarrow> string list" where
  "split_on c [] = [[]]"
| "split_on c (x # xs) =
    (if x = c then [] # split_on c xs
     else case split_on c xs of [] \<Rightarrow> [[x]] | y # ys \<Rightarrow> (x # y) # ys)"

definition has_prefix :: "string \<Rightarrow> string \<Rightarrow> bool" where
  "has_prefix s p \<longleftrightarrow> starts_with p s"

definition trim_prefix :: "string \<Rightarrow> string \<Rightarrow> string" where
  "trim_prefix s p = (if has_prefix s p then drop (length p) s else s)"

lemma last_index_bounds: "- 1 \<le> last_index c s \<and> last_index c s < int (length s)"
  by (induction s) (auto simp: Let_def)

lemma last_index_nth: "0 \<le> last_index c s \<Longrightarrow> s ! nat (last_index c s) = c"
  by (induction s) (auto simp: Let_def nat_add_distrib split: if_splits)

lemma last_index_none: "last_index c s = - 1 \<longleftrightarrow> c \<notin> set s"
proof (induction s)
  case (Cons x xs)
  then show ?case using last_index_bounds [of c xs] by (auto simp: Let_def)
qed simp

lemma last_index_append:
  "c \<notin> set t \<Longrightarrow> last_index c (s @ c # t) = int (length s)"
  using last_index_none [of c t] by (induction s) (auto simp: Let_def)

lemma split_on_nonempty [simp]: "split_on c s \<noteq> []"
  by (induction s) (auto split: list.splits)

lemma split_on_no_sep: "c \<notin> set s \<Longrightarrow> split_on c s = [s]"
  by (induction s) auto

lemma split_on_sep: "c \<notin> set s \<Longrightarrow> split_on c (s @ c # t) = s # split_on c t"
  by (induction s) auto

lemma split_on_parts: "p \<in> set (split_on c s) \<Longrightarrow> c \<notin> set p"
  by (induction s arbitrary: p) (fastforce split: if_splits list.splits)+

lemma trim_prefix_append [simp]: "trim_prefix (p @ s) p = s"
  by (simp add: trim_prefix_def has_prefix_def)

lemma has_prefix_append [simp]: "has_prefix (p @ s) p"
  by (simp add: has_prefix_def)

subsection \<open>Evaluation\<close>

text \<open>The equations by which the simplifier computes these functions on literals.\<close>

lemmas go_string_eval = bytes_def unbytes_def char_of_eq_iff take_bit_eq_mod
  trim_space_def trim_left_def trim_right_def strip_front.simps lead_match_def
  space_encodings_def space_runes_def encode_rune_def encode_runes_def valid_rune_def
  to_lower_def lower_bytes_def rune_lower_def

end
