(* ===== verification/Domain.thy ===== *)
theory Domain
  imports GoStrings "HOL-Library.Word"
begin

section \<open>The domain: errors, value objects, the user entity, audit events\<close>

text \<open>
  \<^verbatim>\<open>internal/domain\<close>: the sentinel errors of \<^verbatim>\<open>apperror\<close>, the value objects \<^verbatim>\<open>Email\<close>,
  \<^verbatim>\<open>PasswordHash\<close>, \<^verbatim>\<open>UserID\<close> and the password policy, the aggregate \<^verbatim>\<open>User\<close> with its roles,
  and \<^verbatim>\<open>AuditEvent\<close>. A mutating method of \<^verbatim>\<open>*User\<close> takes the object's value and returns the
  new one; the object store that makes it visible through every pointer is in \<open>Ports\<close>.
  \<^verbatim>\<open>time.Now\<close>, \<^verbatim>\<open>uuid.New\<close> and \<^verbatim>\<open>rand.Read\<close> draw from the sources of a record \<open>gen\<close>, each
  with the position of the next draw. A UUID is 16 bytes, a \<^typ>\<open>128 word\<close>; a time is the
  \<^typ>\<open>int\<close> of its nanoseconds.
\<close>

type_synonym uuid = "128 word"
type_synonym time = int

subsection \<open>Sources of time and randomness\<close>

record gen =
  clock :: "nat \<Rightarrow> time"
  clock_pos :: nat
  uuid_source :: "nat \<Rightarrow> uuid"
  uuid_pos :: nat
  rand_source :: "nat \<Rightarrow> string option"
  rand_pos :: nat

definition time_now :: "gen \<Rightarrow> time \<times> gen" where
  "time_now g = (clock g (clock_pos g), g\<lparr>clock_pos := Suc (clock_pos g)\<rparr>)"

definition uuid_new :: "gen \<Rightarrow> uuid \<times> gen" where
  "uuid_new g = (uuid_source g (uuid_pos g), g\<lparr>uuid_pos := Suc (uuid_pos g)\<rparr>)"

definition rand_read :: "gen \<Rightarrow> string option \<times> gen" where
  "rand_read g = (rand_source g (rand_pos g), g\<lparr>rand_pos := Suc (rand_pos g)\<rparr>)"

subsection \<open>Errors\<close>

text \<open>
  The sentinels of \<^verbatim>\<open>apperror\<close>; \<open>RedisNil\<close> is \<^verbatim>\<open>redis.Nil\<close>, \<open>External\<close> any other error of a
  driver, a context or the standard library with its message, and \<open>RuntimePanic\<close> a panic,
  which ends the call as an error does and which \<^verbatim>\<open>gin.Recovery\<close> turns into a 500.
\<close>

datatype error =
    ErrInvalidEmail | ErrInvalidPassword | ErrInvalidName | ErrUserNotFound
  | ErrEmailAlreadyExists | ErrInvalidCredentials | ErrAccountInactive | ErrInsufficientPerms
  | ErrInternal | ErrTokenInvalid | ErrInvalidRole | ErrServiceUnavailable
  | RedisNil | External string | RuntimePanic

fun error_message :: "error \<Rightarrow> string" where
  "error_message ErrInvalidEmail = ''invalid email address''"
| "error_message ErrInvalidPassword = ''password must be between 12 and 128 characters''"
| "error_message ErrInvalidName = ''name must be between 1 and 100 characters''"
| "error_message ErrUserNotFound = ''user not found''"
| "error_message ErrEmailAlreadyExists = ''email already registered''"
| "error_message ErrInvalidCredentials = ''invalid credentials''"
| "error_message ErrAccountInactive = ''account is inactive''"
| "error_message ErrInsufficientPerms = ''insufficient permissions''"
| "error_message ErrInternal = ''internal error''"
| "error_message ErrTokenInvalid = ''token is invalid or expired''"
| "error_message ErrInvalidRole = ''invalid role''"
| "error_message ErrServiceUnavailable = ''service temporarily unavailable''"
| "error_message RedisNil = ''redis: nil''"
| "error_message (External m) = m"
| "error_message RuntimePanic = ''''"

subsection \<open>Value objects\<close>

datatype email = Email (email_string: string)

definition is_valid_email :: "string \<Rightarrow> bool" where
  "is_valid_email v =
    (if length v = 0 \<or> 254 < length v then False
     else let at = last_index CHR ''@'' v in
       if at < 1 then False
       else let local = take (nat at) v; domain = drop (nat at + 1) v in
         if length local = 0 \<or> length domain = 0 then False
         else let dot = last_index CHR ''.'' domain in
           0 < dot \<and> dot < int (length domain) - 1)"

definition new_email :: "(nat \<Rightarrow> nat) \<Rightarrow> string \<Rightarrow> error + email" where
  "new_email lo v =
    (let trimmed = to_lower lo (trim_space v) in
     if \<not> is_valid_email trimmed then Inl ErrInvalidEmail else Inr (Email trimmed))"

datatype password_hash = PasswordHash (phc: string)

definition password_hash_string :: "password_hash \<Rightarrow> string" where
  "password_hash_string p = ''[REDACTED]''"

datatype user_id = UserID (uuid_of: uuid)

definition new_user_id :: "gen \<Rightarrow> user_id \<times> gen" where
  "new_user_id g = (let (u, g) = uuid_new g in (UserID u, g))"

definition is_zero_id :: "user_id \<Rightarrow> bool" where
  "is_zero_id u \<longleftrightarrow> uuid_of u = 0"

definition min_password_length :: nat where "min_password_length = 12"
definition max_password_length :: nat where "max_password_length = 128"

definition validate_password :: "string \<Rightarrow> error + unit" where
  "validate_password plain =
    (if length plain < min_password_length \<or> max_password_length < length plain
     then Inl ErrInvalidPassword else Inr ())"

subsection \<open>Roles\<close>

type_synonym role = string

abbreviation RoleOwner :: role where "RoleOwner \<equiv> ''owner''"
abbreviation RoleAdmin :: role where "RoleAdmin \<equiv> ''admin''"
abbreviation RoleUser :: role where "RoleUser \<equiv> ''user''"

definition can_manage_roles :: "role \<Rightarrow> bool" where
  "can_manage_roles r \<longleftrightarrow> r = RoleOwner \<or> r = RoleAdmin"

definition parse_role :: "string \<Rightarrow> error + role" where
  "parse_role s = (if s = RoleOwner \<or> s = RoleAdmin \<or> s = RoleUser then Inr s else Inl ErrInvalidRole)"

subsection \<open>The user entity\<close>

record user =
  usr_id :: user_id
  usr_email :: email
  usr_password_hash :: password_hash
  usr_name :: string
  usr_role :: role
  usr_is_active :: bool
  usr_created_at :: time
  usr_updated_at :: time

definition validate_name :: "string \<Rightarrow> error + unit" where
  "validate_name name =
    (let trimmed = trim_space name in
     if length trimmed = 0 \<or> 100 < length trimmed then Inl ErrInvalidName else Inr ())"

definition new_user ::
  "email \<Rightarrow> password_hash \<Rightarrow> string \<Rightarrow> role \<Rightarrow> gen \<Rightarrow> (error + user) \<times> gen" where
  "new_user em hash name role g =
    (case validate_name name of
       Inl e \<Rightarrow> (Inl e, g)
     | Inr _ \<Rightarrow>
        (let (now, g) = time_now g; (uid, g) = new_user_id g in
         (Inr \<lparr>usr_id = uid, usr_email = em, usr_password_hash = hash,
               usr_name = trim_space name, usr_role = role, usr_is_active = True,
               usr_created_at = now, usr_updated_at = now\<rparr>, g)))"

definition reconstitute ::
  "user_id \<Rightarrow> email \<Rightarrow> password_hash \<Rightarrow> string \<Rightarrow> role \<Rightarrow> bool \<Rightarrow> time \<Rightarrow> time \<Rightarrow> user" where
  "reconstitute uid em hash name role active created updated =
     \<lparr>usr_id = uid, usr_email = em, usr_password_hash = hash, usr_name = name, usr_role = role,
      usr_is_active = active, usr_created_at = created, usr_updated_at = updated\<rparr>"

definition update_name :: "string \<Rightarrow> user \<Rightarrow> gen \<Rightarrow> (error + user) \<times> gen" where
  "update_name name u g =
    (case validate_name name of
       Inl e \<Rightarrow> (Inl e, g)
     | Inr _ \<Rightarrow>
        (let (now, g) = time_now g in
         (Inr (u\<lparr>usr_name := trim_space name, usr_updated_at := now\<rparr>), g)))"

definition update_password :: "password_hash \<Rightarrow> user \<Rightarrow> gen \<Rightarrow> user \<times> gen" where
  "update_password hash u g =
    (let (now, g) = time_now g in (u\<lparr>usr_password_hash := hash, usr_updated_at := now\<rparr>, g))"

definition change_role :: "role \<Rightarrow> user \<Rightarrow> user \<Rightarrow> gen \<Rightarrow> (error + user) \<times> gen" where
  "change_role new_role actor u g =
    (if usr_role actor \<noteq> RoleOwner \<or> usr_id actor = usr_id u then (Inl ErrInsufficientPerms, g)
     else let (now, g) = time_now g in
       (Inr (u\<lparr>usr_role := new_role, usr_updated_at := now\<rparr>), g))"

definition deactivate :: "user \<Rightarrow> gen \<Rightarrow> user \<times> gen" where
  "deactivate u g =
    (let (now, g) = time_now g in (u\<lparr>usr_is_active := False, usr_updated_at := now\<rparr>, g))"

definition activate :: "user \<Rightarrow> gen \<Rightarrow> user \<times> gen" where
  "activate u g =
    (let (now, g) = time_now g in (u\<lparr>usr_is_active := True, usr_updated_at := now\<rparr>, g))"

subsection \<open>Audit events\<close>

text \<open>A \<^verbatim>\<open>uuid.NullUUID\<close> is an option; the event type is a Go string type.\<close>

type_synonym audit_event_type = string

abbreviation AuditEventUserRegistered :: audit_event_type where
  "AuditEventUserRegistered \<equiv> ''user_registered''"
abbreviation AuditEventLoginSucceeded :: audit_event_type where
  "AuditEventLoginSucceeded \<equiv> ''login_succeeded''"
abbreviation AuditEventLoginFailed :: audit_event_type where
  "AuditEventLoginFailed \<equiv> ''login_failed''"
abbreviation AuditEventPasswordChanged :: audit_event_type where
  "AuditEventPasswordChanged \<equiv> ''password_changed''"
abbreviation AuditEventRoleChanged :: audit_event_type where
  "AuditEventRoleChanged \<equiv> ''role_changed''"
abbreviation AuditEventTokenRefreshed :: audit_event_type where
  "AuditEventTokenRefreshed \<equiv> ''token_refreshed''"
abbreviation AuditEventRefreshTokenReuseDetected :: audit_event_type where
  "AuditEventRefreshTokenReuseDetected \<equiv> ''refresh_token_reuse_detected''"

record audit_event =
  ev_id :: uuid
  ev_type :: audit_event_type
  ev_actor :: "uuid option"
  ev_target :: "uuid option"
  ev_detail :: string
  ev_occurred_at :: time

definition new_audit_event ::
  "audit_event_type \<Rightarrow> uuid option \<Rightarrow> uuid option \<Rightarrow> string \<Rightarrow> gen \<Rightarrow> audit_event \<times> gen" where
  "new_audit_event ty actor target detail g =
    (let (i, g) = uuid_new g; (now, g) = time_now g in
     (\<lparr>ev_id = i, ev_type = ty, ev_actor = actor, ev_target = target,
       ev_detail = detail, ev_occurred_at = now\<rparr>, g))"

definition reconstitute_audit_event ::
  "uuid \<Rightarrow> audit_event_type \<Rightarrow> uuid option \<Rightarrow> uuid option \<Rightarrow> string \<Rightarrow> time \<Rightarrow> audit_event" where
  "reconstitute_audit_event i ty actor target detail at =
     \<lparr>ev_id = i, ev_type = ty, ev_actor = actor, ev_target = target,
      ev_detail = detail, ev_occurred_at = at\<rparr>"

subsection \<open>The email grammar\<close>

text \<open>
  The index arithmetic of \<open>is_valid_email\<close> accepts exactly the strings
  \<open>local@host.tld\<close> of at most 254 bytes with three non-empty parts, split at the last
  \<open>@\<close> and the last dot after it.
\<close>

definition email_shape :: "string \<Rightarrow> string \<Rightarrow> string \<Rightarrow> string \<Rightarrow> bool" where
  "email_shape v local host tld \<longleftrightarrow>
     v = local @ ''@'' @ host @ ''.'' @ tld \<and> local \<noteq> [] \<and> host \<noteq> [] \<and> tld \<noteq> [] \<and>
     CHR ''@'' \<notin> set host \<and> CHR ''@'' \<notin> set tld \<and> CHR ''.'' \<notin> set tld"

lemma last_index_split:
  assumes "0 \<le> last_index c s"
  defines "i \<equiv> nat (last_index c s)"
  shows "s = take i s @ c # drop (i + 1) s" and "c \<notin> set (drop (i + 1) s)"
    and "i < length s"
  using assms(1) unfolding i_def
proof (induction s)
  case (Cons x xs)
  { case 1 then show ?case using Cons.IH(1) last_index_none [of c xs] last_index_bounds [of c xs]
      by (auto simp: Let_def nat_add_distrib split: if_splits) }
  { case 2 then show ?case using Cons.IH(2) last_index_none [of c xs] last_index_bounds [of c xs]
      by (auto simp: Let_def nat_add_distrib split: if_splits) }
  { case 3 then show ?case using last_index_bounds [of c "x # xs"] by simp }
qed simp_all

lemma is_valid_email_if_shape:
  assumes "email_shape v local host tld" "length v \<le> 254"
  shows "is_valid_email v"
proof -
  let ?d = "host @ ''.'' @ tld"
  have v: "v = local @ CHR ''@'' # ?d" and ne: "local \<noteq> []" "host \<noteq> []" "tld \<noteq> []"
    and ns: "CHR ''@'' \<notin> set ?d" "CHR ''.'' \<notin> set tld"
    using assms(1) by (auto simp: email_shape_def)
  have "last_index CHR ''@'' v = int (length local)"
    unfolding v using ns(1) by (rule last_index_append)
  moreover have "last_index CHR ''.'' ?d = int (length host)"
    using last_index_append [OF ns(2), of host] by simp
  ultimately show ?thesis
    using assms(2) v ne by (simp add: is_valid_email_def Let_def nat_add_distrib)
qed

lemma shape_if_is_valid_email:
  assumes "is_valid_email v"
  shows "length v \<le> 254 \<and> (\<exists>local host tld. email_shape v local host tld)"
proof -
  define at where "at = last_index CHR ''@'' v"
  define domain where "domain = drop (nat at + 1) v"
  define dot where "dot = last_index CHR ''.'' domain"
  have l: "length v \<le> 254" and at: "1 \<le> at" and dot: "0 < dot" "dot < int (length domain) - 1"
    using assms by (auto simp: is_valid_email_def Let_def at_def domain_def dot_def split: if_splits)
  have v: "v = take (nat at) v @ CHR ''@'' # domain" "CHR ''@'' \<notin> set domain"
    and d: "domain = take (nat dot) domain @ CHR ''.'' # drop (nat dot + 1) domain"
    and nd: "CHR ''.'' \<notin> set (drop (nat dot + 1) domain)" and "nat at < length v"
    using last_index_split [of "CHR ''@''" v] last_index_split [of "CHR ''.''" domain] at dot
    by (simp_all add: at_def domain_def dot_def)
  moreover have "set (take n domain) \<subseteq> set domain" "set (drop n domain) \<subseteq> set domain" for n
    by (rule set_take_subset, rule set_drop_subset)
  ultimately have "email_shape v (take (nat at) v) (take (nat dot) domain) (drop (nat dot + 1) domain)"
    unfolding email_shape_def using at dot by auto
  with l show ?thesis by blast
qed

subsection \<open>Well-formed users\<close>

text \<open>
  An email is canonical when \<open>new_email\<close> accepts its text and gives it back unchanged,
  which is what re-reading a stored address relies on. A user is well formed when its
  email is canonical, its name is trimmed and of legal length, and its role is known.
\<close>

definition canonical_email :: "(nat \<Rightarrow> nat) \<Rightarrow> email \<Rightarrow> bool" where
  "canonical_email lo em \<longleftrightarrow> new_email lo (email_string em) = Inr em"

definition user_ok :: "(nat \<Rightarrow> nat) \<Rightarrow> user \<Rightarrow> bool" where
  "user_ok lo u \<longleftrightarrow> canonical_email lo (usr_email u) \<and> trim_space (usr_name u) = usr_name u \<and>
     0 < length (usr_name u) \<and> length (usr_name u) \<le> 100 \<and> parse_role (usr_role u) = Inr (usr_role u)"

lemma new_email_Inr:
  "new_email lo v = Inr em \<longleftrightarrow>
     em = Email (to_lower lo (trim_space v)) \<and> is_valid_email (to_lower lo (trim_space v))"
  by (auto simp: new_email_def Let_def)

lemma new_email_Inl: "new_email lo v = Inl e \<Longrightarrow> e = ErrInvalidEmail"
  by (auto simp: new_email_def Let_def split: if_splits)

lemma new_email_canonical_aux:
  "lower_laws lo \<Longrightarrow> new_email lo v = Inr em \<Longrightarrow> canonical_email lo em"
  by (auto simp: canonical_email_def new_email_Inr trim_to_lower_trim to_lower_idem)

lemma validate_name_Inr:
  "validate_name n = Inr () \<longleftrightarrow> 0 < length (trim_space n) \<and> length (trim_space n) \<le> 100"
  by (auto simp: validate_name_def Let_def)

lemma validate_name_cases: "validate_name n = Inl ErrInvalidName \<or> validate_name n = Inr ()"
  by (auto simp: validate_name_def Let_def)

lemma new_user_Inr:
  assumes "new_user em hash name role g = (Inr u, g')"
  shows "usr_email u = em" "usr_password_hash u = hash" "usr_name u = trim_space name"
    "usr_role u = role" "usr_is_active u" "usr_created_at u = usr_updated_at u"
    "usr_id u = UserID (uuid_source g (uuid_pos g))" "validate_name name = Inr ()"
    "usr_created_at u = clock g (clock_pos g)"
  using assms by (auto simp: new_user_def new_user_id_def time_now_def uuid_new_def split: sum.splits)

lemma new_user_ok:
  "new_user em hash name role g = (Inr u, g') \<Longrightarrow> canonical_email lo em \<Longrightarrow>
     parse_role role = Inr role \<Longrightarrow> user_ok lo u"
  using new_user_Inr [of em hash name role g u g'] by (simp add: user_ok_def validate_name_Inr)

lemma update_name_Inr:
  "update_name n u g = (Inr u', g') \<longleftrightarrow> validate_name n = Inr () \<and>
     u' = u\<lparr>usr_name := trim_space n, usr_updated_at := clock g (clock_pos g)\<rparr> \<and>
     g' = g\<lparr>clock_pos := Suc (clock_pos g)\<rparr>"
  using validate_name_cases [of n] by (auto simp: update_name_def time_now_def)

lemma update_name_Inl:
  "update_name n u g = (Inl e, g') \<longleftrightarrow> validate_name n = Inl e \<and> g' = g"
  by (auto simp: update_name_def time_now_def split: sum.splits)

lemma change_role_Inr:
  "change_role r actor u g = (Inr u', g') \<longleftrightarrow> usr_role actor = RoleOwner \<and> usr_id actor \<noteq> usr_id u \<and>
     u' = u\<lparr>usr_role := r, usr_updated_at := clock g (clock_pos g)\<rparr> \<and>
     g' = g\<lparr>clock_pos := Suc (clock_pos g)\<rparr>"
  by (auto simp: change_role_def time_now_def)

lemma change_role_Inl:
  "change_role r actor u g = (Inl e, g') \<longleftrightarrow> e = ErrInsufficientPerms \<and> g' = g \<and>
     (usr_role actor \<noteq> RoleOwner \<or> usr_id actor = usr_id u)"
  by (auto simp: change_role_def time_now_def)

subsection \<open>Properties\<close>

text \<open>\<^bold>\<open>C28\<close>. The email check accepts exactly the strings \<open>local@host.tld\<close> of at most 254
  bytes whose three parts are non-empty, split at the last at-sign and the last dot after it.\<close>

theorem email_grammar:
  "is_valid_email v \<longleftrightarrow> length v \<le> 254 \<and> (\<exists>local host tld. email_shape v local host tld)"
  using is_valid_email_if_shape shape_if_is_valid_email by blast

text \<open>
  The values a user object can take: it is constructed with an email that \<open>new_email\<close>
  accepted and a parsed role, and then changed by the methods of \<^verbatim>\<open>*User\<close>.
\<close>

inductive user_reachable :: "(nat \<Rightarrow> nat) \<Rightarrow> user \<Rightarrow> bool" for lo where
  created: "new_email lo v = Inr em \<Longrightarrow> parse_role s = Inr r \<Longrightarrow>
     new_user em h n r g = (Inr u, g') \<Longrightarrow> user_reachable lo u"
| renamed: "user_reachable lo u \<Longrightarrow> update_name n u g = (Inr u', g') \<Longrightarrow> user_reachable lo u'"
| rehashed: "user_reachable lo u \<Longrightarrow> update_password h u g = (u', g') \<Longrightarrow> user_reachable lo u'"
| role_changed: "user_reachable lo u \<Longrightarrow> parse_role s = Inr r \<Longrightarrow>
     change_role r actor u g = (Inr u', g') \<Longrightarrow> user_reachable lo u'"
| deactivated: "user_reachable lo u \<Longrightarrow> deactivate u g = (u', g') \<Longrightarrow> user_reachable lo u'"
| activated: "user_reachable lo u \<Longrightarrow> activate u g = (u', g') \<Longrightarrow> user_reachable lo u'"

lemma parse_role_known: "parse_role s = Inr r \<Longrightarrow> parse_role r = Inr r"
  by (auto simp: parse_role_def split: if_splits)

lemma user_ok_update:
  assumes "user_ok lo u"
  shows "validate_name n = Inr () \<Longrightarrow> user_ok lo (u\<lparr>usr_name := trim_space n, usr_updated_at := t\<rparr>)"
    and "user_ok lo (u\<lparr>usr_password_hash := h, usr_updated_at := t\<rparr>)"
    and "parse_role r = Inr r \<Longrightarrow> user_ok lo (u\<lparr>usr_role := r, usr_updated_at := t\<rparr>)"
    and "user_ok lo (u\<lparr>usr_is_active := b, usr_updated_at := t\<rparr>)"
  using assms by (simp_all add: user_ok_def validate_name_Inr)


definition demo_gen :: gen where
  "demo_gen = \<lparr>clock = int, clock_pos = 0, uuid_source = of_nat, uuid_pos = 1,
     rand_source = (\<lambda>_. Some (replicate 16 CHR ''s'')), rand_pos = 0\<rparr>"


end
