(* ===== verification/Resilience.thy ===== *)
theory Resilience
  imports Domain
begin

section \<open>Circuit breaker, retry and their composition\<close>

text \<open>
  \<^verbatim>\<open>internal/infrastructure/resilience\<close>. The breaker's methods run under its mutex, so each
  is one atomic function on the record; concurrent callers are interleavings of these steps
  (\<open>breaker_step\<close>). A duration is the \<^typ>\<open>int\<close> of its nanoseconds; \<^verbatim>\<open>time.Sub\<close> saturates at the
  bounds of int64 (\<open>sat64\<close>); the multiplication of a backoff and the increment of the breaker's
  failure counter wrap (\<open>wrap64\<close>), since a 64-bit \<^verbatim>\<open>int\<close> of Go is the \<^typ>\<open>int\<close> of its value. The wait
  between two attempts is the \<^verbatim>\<open>select\<close> between the context and the timer: the parameter
  \<open>wait d s\<close> gives \<open>Some e\<close> when the context ends first, with the context's error.
\<close>

type_synonym duration = int

definition sat64 :: "int \<Rightarrow> int" where
  "sat64 x = max (- (2 ^ 63)) (min (2 ^ 63 - 1) x)"

definition wrap64 :: "int \<Rightarrow> int" where
  "wrap64 x = sint (word_of_int x :: 64 word)"

definition time_sub :: "time \<Rightarrow> time \<Rightarrow> duration" where
  "time_sub t u = sat64 (t - u)"

lemma wrap64_id: "- (2 ^ 63) \<le> x \<Longrightarrow> x < 2 ^ 63 \<Longrightarrow> wrap64 x = x"
  by (simp add: wrap64_def sint_sbintrunc' signed_take_bit_int_eq_self)

lemma wrap64_less: "wrap64 x < 2 ^ 63"
  using sint_lt [of "word_of_int x :: 64 word"] by (simp add: wrap64_def)

lemma wrap64_le: "0 \<le> x \<Longrightarrow> wrap64 x \<le> x"
  using wrap64_less [of x] wrap64_id [of x] by (cases "x < 2 ^ 63") auto

lemma wrap64_Suc: "wrap64 (wrap64 x + 1) = wrap64 (x + 1)"
  by (simp add: wrap64_def)

subsection \<open>The circuit breaker\<close>

datatype circuit_state = StateClosed | StateOpen | StateHalfOpen

record circuit_breaker =
  failure_threshold :: int
  reset_timeout :: duration
  consecutive_failures :: int
  cb_state :: circuit_state
  opened_at :: time
  probe_in_flight :: bool

definition new_circuit_breaker :: "int \<Rightarrow> duration \<Rightarrow> circuit_breaker" where
  "new_circuit_breaker threshold timeout =
     \<lparr>failure_threshold = threshold, reset_timeout = timeout, consecutive_failures = 0,
      cb_state = StateClosed, opened_at = 0, probe_in_flight = False\<rparr>"

definition state_locked :: "circuit_breaker \<Rightarrow> gen \<Rightarrow> circuit_state \<times> gen" where
  "state_locked b g =
    (if cb_state b = StateOpen then
       let (now, g) = time_now g in
       (if reset_timeout b \<le> time_sub now (opened_at b) then StateHalfOpen else cb_state b, g)
     else (cb_state b, g))"

definition allow_request :: "circuit_breaker \<Rightarrow> gen \<Rightarrow> bool \<times> circuit_breaker \<times> gen" where
  "allow_request b g =
    (case state_locked b g of
       (StateClosed, g) \<Rightarrow> (True, b, g)
     | (StateOpen, g) \<Rightarrow> (False, b, g)
     | (StateHalfOpen, g) \<Rightarrow>
         if probe_in_flight b then (False, b, g) else (True, b\<lparr>probe_in_flight := True\<rparr>, g))"

definition record_success :: "circuit_breaker \<Rightarrow> circuit_breaker" where
  "record_success b =
     b\<lparr>consecutive_failures := 0, cb_state := StateClosed, probe_in_flight := False\<rparr>"

definition record_failure :: "circuit_breaker \<Rightarrow> gen \<Rightarrow> circuit_breaker \<times> gen" where
  "record_failure b g =
    (let b = b\<lparr>consecutive_failures := wrap64 (consecutive_failures b + 1)\<rparr> in
     if failure_threshold b \<le> consecutive_failures b then
       let (now, g) = time_now g in
       (b\<lparr>cb_state := StateOpen, opened_at := now, probe_in_flight := False\<rparr>, g)
     else (b, g))"

subsection \<open>Retry with exponential backoff\<close>

record retry_policy =
  max_attempts :: int
  initial_backoff :: duration
  backoff_multiplier :: int

definition new_retry_policy :: "int \<Rightarrow> duration \<Rightarrow> int \<Rightarrow> retry_policy" where
  "new_retry_policy attempts initial mult =
     \<lparr>max_attempts = (if attempts < 1 then 1 else attempts), initial_backoff = initial,
      backoff_multiplier = (if mult < 1 then 1 else mult)\<rparr>"

primrec backoff_for_attempt :: "retry_policy \<Rightarrow> nat \<Rightarrow> duration" where
  "backoff_for_attempt p 0 = initial_backoff p"
| "backoff_for_attempt p (Suc n) = wrap64 (backoff_for_attempt p n * backoff_multiplier p)"

function retry_with_backoff ::
  "(duration \<Rightarrow> 's \<Rightarrow> error option \<times> 's) \<Rightarrow> retry_policy \<Rightarrow> (error \<Rightarrow> bool) \<Rightarrow>
   ('s \<Rightarrow> (error + 'v) \<times> 's) \<Rightarrow> nat \<Rightarrow> 's \<Rightarrow> (error + 'v) \<times> 's" where
  "retry_with_backoff wait policy is_retryable operation attempt s =
    (case operation s of
       (Inr value, s) \<Rightarrow> (Inr value, s)
     | (Inl err, s) \<Rightarrow>
         if max_attempts policy \<le> int attempt + 1 \<or> \<not> is_retryable err then (Inl err, s)
         else (case wait (backoff_for_attempt policy attempt) s of
                 (Some ctx_err, s) \<Rightarrow> (Inl ctx_err, s)
               | (None, s) \<Rightarrow>
                   retry_with_backoff wait policy is_retryable operation (Suc attempt) s))"
  by pat_completeness auto
termination
  by (relation "measure (\<lambda>(w, p, r, f, n, s). nat (max_attempts p - int n))") auto

declare retry_with_backoff.simps [simp del]

subsection \<open>CallWithResilience\<close>

definition call_with_resilience ::
  "(duration \<Rightarrow> gen \<times> 's \<Rightarrow> error option \<times> gen \<times> 's) \<Rightarrow> retry_policy \<Rightarrow> (error \<Rightarrow> bool) \<Rightarrow>
   (gen \<times> 's \<Rightarrow> (error + 'v) \<times> gen \<times> 's) \<Rightarrow> circuit_breaker \<Rightarrow> gen \<times> 's \<Rightarrow>
   (error + 'v) \<times> circuit_breaker \<times> gen \<times> 's" where
  "call_with_resilience wait policy is_retryable operation b gs =
    (case allow_request b (fst gs) of (allowed, b, g) \<Rightarrow>
       if \<not> allowed then (Inl ErrServiceUnavailable, b, g, snd gs)
       else case retry_with_backoff wait policy is_retryable operation 0 (g, snd gs) of
           (Inr v, g, s) \<Rightarrow> (Inr v, record_success b, g, s)
         | (Inl err, g, s) \<Rightarrow>
             if is_retryable err then let (b, g) = record_failure b g in (Inl err, b, g, s)
             else (Inl err, b, g, s))"

subsection \<open>The breaker as a state machine\<close>

text \<open>
  Any number of goroutines share one breaker. Each method is a step; between steps the
  clock can be read by others (\<open>Tick\<close>).
\<close>

datatype cb_event = Ask bool | Success | Failure | Tick

inductive breaker_step ::
  "circuit_breaker \<times> gen \<Rightarrow> cb_event \<Rightarrow> circuit_breaker \<times> gen \<Rightarrow> bool" where
  ask: "allow_request b g = (r, b', g') \<Longrightarrow> breaker_step (b, g) (Ask r) (b', g')"
| success: "breaker_step (b, g) Success (record_success b, g)"
| failure: "record_failure b g = (b', g') \<Longrightarrow> breaker_step (b, g) Failure (b', g')"
| tick: "breaker_step (b, g) Tick (b, g\<lparr>clock_pos := n\<rparr>)"

inductive_cases breaker_stepE: "breaker_step s e s'"

inductive breaker_run ::
  "circuit_breaker \<times> gen \<Rightarrow> cb_event list \<Rightarrow> circuit_breaker \<times> gen \<Rightarrow> bool" where
  run_nil: "breaker_run s [] s"
| run_cons: "breaker_step s e s' \<Longrightarrow> breaker_run s' es s'' \<Longrightarrow> breaker_run s (e # es) s''"

inductive_simps breaker_run_simps [simp]: "breaker_run s [] s'" "breaker_run s (e # es) s'"

lemma breaker_run_append:
  "breaker_run s (es @ fs) s'' \<longleftrightarrow> (\<exists>s'. breaker_run s es s' \<and> breaker_run s' fs s'')"
  by (induction es arbitrary: s) auto

text \<open>
  The failures recorded since the last success are a function of the events alone. The counter
  holds their number modulo \<open>2 ^ 64\<close>; \<open>breaker_inv n b\<close> says what the breaker is after \<open>n\<close> of them.
\<close>

fun failures_after :: "nat \<Rightarrow> cb_event \<Rightarrow> nat" where
  "failures_after n Success = 0"
| "failures_after n Failure = Suc n"
| "failures_after n _ = n"

definition failures_in :: "cb_event list \<Rightarrow> nat" where
  "failures_in es = foldl failures_after 0 es"

definition breaker_inv :: "int \<Rightarrow> nat \<Rightarrow> circuit_breaker \<Rightarrow> bool" where
  "breaker_inv threshold n b \<longleftrightarrow> failure_threshold b = threshold \<and>
     consecutive_failures b = wrap64 (int n) \<and>
     cb_state b = (if 0 < n \<and> threshold \<le> int n then StateOpen else StateClosed) \<and>
     (probe_in_flight b \<longrightarrow> cb_state b = StateOpen)"

lemma state_locked_cases:
  "state_locked b g = (st, g') \<Longrightarrow> st = cb_state b \<or> (cb_state b = StateOpen \<and> st = StateHalfOpen)"
  by (auto simp: state_locked_def time_now_def split: if_splits)

lemma allow_request_cases:
  assumes "allow_request b g = (r, b', g')" and "cb_state b \<noteq> StateHalfOpen"
  obtains "b' = b" "r \<longrightarrow> cb_state b = StateClosed"
  | "r" "b' = b\<lparr>probe_in_flight := True\<rparr>" "cb_state b = StateOpen" "\<not> probe_in_flight b"
  using assms state_locked_cases [of b g]
  by (auto simp: allow_request_def split: prod.splits circuit_state.splits if_splits)

lemma record_failure_inv:
  assumes "record_failure b g = (b', g')" "breaker_inv threshold n b" "threshold < 2 ^ 63"
  shows "breaker_inv threshold (Suc n) b'"
proof -
  have count: "wrap64 (consecutive_failures b + 1) = wrap64 (int (Suc n))"
    using assms(2) wrap64_Suc [of "int n"] by (simp add: breaker_inv_def ac_simps)
  show ?thesis
  proof (cases "threshold \<le> wrap64 (int (Suc n))")
    case True
    then have "threshold \<le> int (Suc n)" using wrap64_le [of "int (Suc n)"] by linarith
    then show ?thesis using assms(1,2) True
      by (auto simp: breaker_inv_def record_failure_def count time_now_def Let_def simp del: of_nat_Suc)
  next
    case False
    then have "int (Suc n) < threshold \<or> 2 ^ 63 \<le> int (Suc n)"
      using wrap64_id [of "int (Suc n)"] by linarith
    then have "threshold \<le> int (Suc n) \<longleftrightarrow> 0 < n \<and> threshold \<le> int n" using assms(3) by auto
    then show ?thesis using assms(1,2) False
      by (auto simp: breaker_inv_def record_failure_def count Let_def simp del: of_nat_Suc)
  qed
qed

lemma breaker_step_inv:
  assumes "breaker_step (b, g) e (b', g')" "breaker_inv threshold n b" "threshold < 2 ^ 63"
  shows "breaker_inv threshold (failures_after n e) b'"
  using assms(1)
proof (elim breaker_stepE, goal_cases)
  case (1 b1 g1 r b1' g1')
  then have "allow_request b g = (r, b', g')" "cb_state b \<noteq> StateHalfOpen" "e = Ask r"
    using assms(2) by (auto simp: breaker_inv_def)
  then show ?thesis using assms(2) by (cases rule: allow_request_cases) (auto simp: breaker_inv_def)
next
  case (3 b1 g1 b1' g1')
  then show ?case using record_failure_inv [OF _ assms(2,3)] by simp
qed (use assms(2) in \<open>auto simp: breaker_inv_def record_success_def wrap64_id\<close>)

lemma breaker_run_inv:
  "breaker_run s es s' \<Longrightarrow> breaker_inv threshold n (fst s) \<Longrightarrow> threshold < 2 ^ 63 \<Longrightarrow>
   breaker_inv threshold (foldl failures_after n es) (fst s')"
  by (induction arbitrary: n rule: breaker_run.induct) (auto dest: breaker_step_inv)

lemma new_breaker_inv: "breaker_inv threshold 0 (new_circuit_breaker threshold t)"
  by (simp add: breaker_inv_def new_circuit_breaker_def wrap64_id)

lemma reachable_breaker:
  "breaker_run (new_circuit_breaker threshold timeout, g) es (b, g') \<Longrightarrow> threshold < 2 ^ 63 \<Longrightarrow>
   breaker_inv threshold (failures_in es) b"
  using breaker_run_inv [OF _ _, where s' = "(b, g')"] new_breaker_inv by (simp add: failures_in_def)

lemma probing_allow:
  assumes "cb_state b = StateOpen" "probe_in_flight b"
  shows "\<exists>g'. allow_request b g = (False, b, g')"
  using assms by (auto simp: allow_request_def state_locked_def time_now_def)

lemma probing_run:
  assumes "breaker_run s es s'" "cb_state (fst s) = StateOpen" "probe_in_flight (fst s)"
    and "Success \<notin> set es" "Failure \<notin> set es"
  shows "fst s' = fst s \<and> Ask True \<notin> set es"
  using assms
proof (induction rule: breaker_run.induct)
  case (run_cons s e s' es s'')
  obtain b g where s: "s = (b, g)" by fastforce
  have "fst s' = b \<and> e \<noteq> Ask True"
    using run_cons.hyps(1) run_cons.prems probing_allow [of b g] s
    by (auto elim!: breaker_stepE)
  then show ?case using run_cons s by auto
qed simp

subsection \<open>Retry: attempts and backoff\<close>

text \<open>
  The state before attempt \<open>k\<close> when no wait is cut short: \<open>after d s\<close> is the state after a
  wait of \<open>d\<close>.
\<close>

primrec attempt_state ::
  "(duration \<Rightarrow> 's \<Rightarrow> 's) \<Rightarrow> retry_policy \<Rightarrow> ('s \<Rightarrow> (error + 'v) \<times> 's) \<Rightarrow> 's \<Rightarrow> nat \<Rightarrow> 's" where
  "attempt_state after p f s 0 = s"
| "attempt_state after p f s (Suc k) =
     after (backoff_for_attempt p k) (snd (f (attempt_state after p f s k)))"

definition retryable_failure :: "(error \<Rightarrow> bool) \<Rightarrow> error + 'v \<Rightarrow> bool" where
  "retryable_failure isr r \<longleftrightarrow> (case r of Inl e \<Rightarrow> isr e | Inr _ \<Rightarrow> False)"

lemma retry_from:
  assumes "\<And>d s. wait d s = (None, after d s)" and st_def: "st = attempt_state after p f s0"
  shows "\<exists>k \<ge> n. (k = n \<or> int k < max_attempts p) \<and>
    retry_with_backoff wait p isr f n (st n) = f (st k) \<and>
    (\<forall>i. n \<le> i \<and> i < k \<longrightarrow> retryable_failure isr (fst (f (st i)))) \<and>
    (max_attempts p \<le> int k + 1 \<or> \<not> retryable_failure isr (fst (f (st k))))"
proof (induction "nat (max_attempts p - int n)" arbitrary: n rule: less_induct)
  case less
  show ?case
  proof (cases "max_attempts p \<le> int n + 1 \<or> \<not> retryable_failure isr (fst (f (st n)))")
    case True
    then have "retry_with_backoff wait p isr f n (st n) = f (st n)"
      by (subst retry_with_backoff.simps)
        (auto simp: retryable_failure_def split: prod.splits sum.splits)
    then show ?thesis using True by (intro exI [of _ n]) auto
  next
    case False
    then obtain e s1 where e: "f (st n) = (Inl e, s1)" "isr e" "int n + 1 < max_attempts p"
      by (cases "f (st n)"; cases "fst (f (st n))") (auto simp: retryable_failure_def)
    then have "retry_with_backoff wait p isr f n (st n) = retry_with_backoff wait p isr f (Suc n) (st (Suc n))"
      by (subst retry_with_backoff.simps) (simp add: assms(1) st_def)
    moreover obtain k where "Suc n \<le> k" "k = Suc n \<or> int k < max_attempts p"
        "retry_with_backoff wait p isr f (Suc n) (st (Suc n)) = f (st k)"
        "\<forall>i. Suc n \<le> i \<and> i < k \<longrightarrow> retryable_failure isr (fst (f (st i)))"
        "max_attempts p \<le> int k + 1 \<or> \<not> retryable_failure isr (fst (f (st k)))"
      using less [of "Suc n"] e(3) by auto
    moreover have "retryable_failure isr (fst (f (st i)))" if "n \<le> i" "i < k" for i
      using that calculation(5) False by (cases "i = n") auto
    ultimately show ?thesis using e(3) by (intro exI [of _ k]) auto
  qed
qed

lemma backoff_exact_aux:
  assumes "0 \<le> initial_backoff p" "1 \<le> backoff_multiplier p"
    and "initial_backoff p * backoff_multiplier p ^ n < 2 ^ 63"
  shows "backoff_for_attempt p n = initial_backoff p * backoff_multiplier p ^ n"
  using assms(3)
proof (induction n)
  case (Suc n)
  have "initial_backoff p * backoff_multiplier p ^ n \<le> initial_backoff p * backoff_multiplier p ^ Suc n"
    using assms by (simp add: mult_left_mono)
  then have "backoff_for_attempt p n = initial_backoff p * backoff_multiplier p ^ n"
    using Suc by simp
  moreover have "wrap64 (initial_backoff p * backoff_multiplier p ^ Suc n)
      = initial_backoff p * backoff_multiplier p ^ Suc n"
  proof (rule wrap64_id)
    have "0 \<le> initial_backoff p * backoff_multiplier p ^ Suc n" using assms(1,2) by simp
    then show "- (2 ^ 63) \<le> initial_backoff p * backoff_multiplier p ^ Suc n"
      by (rule order_trans [rotated]) simp
  qed (rule Suc.prems)
  ultimately show ?case by (simp add: ac_simps)
qed simp

subsection \<open>Properties\<close>

text \<open>\<^bold>\<open>C11\<close>. Whatever the interleaving of callers, and however many outcomes they record: the stored
  state is open exactly when at least one failure, and at least the threshold of them, were recorded
  since the last success, and closed otherwise (half-open is never stored, it exists only as a
  function of the clock); a probe is marked only while open. The counter is the number of those
  failures modulo \<open>2 ^ 64\<close>, and that number itself below \<open>2 ^ 63\<close>; when it wraps, the state does
  not move. The threshold is an \<^verbatim>\<open>int\<close>, so less than \<open>2 ^ 63\<close>.\<close>

theorem breaker_invariant:
  assumes "breaker_run (new_circuit_breaker threshold timeout, g) es (b, g')" and "threshold < 2 ^ 63"
  shows "cb_state b = (if 0 < failures_in es \<and> threshold \<le> int (failures_in es) then StateOpen else StateClosed) \<and>
    (probe_in_flight b \<longrightarrow> cb_state b = StateOpen) \<and>
    consecutive_failures b = wrap64 (int (failures_in es)) \<and>
    (failures_in es < 2 ^ 63 \<longrightarrow> consecutive_failures b = int (failures_in es))"
proof -
  have "int (failures_in es) < 2 ^ 63" if "failures_in es < 2 ^ 63"
    using that by (metis of_nat_less_iff of_nat_numeral of_nat_power)
  then show ?thesis using reachable_breaker [OF assms] wrap64_id [of "int (failures_in es)"]
    by (auto simp: breaker_inv_def)
qed

lemma breaker_invariant_witness:
  "\<exists>b g'. breaker_run (new_circuit_breaker 2 5, demo_gen) [Failure, Success, Failure, Failure, Ask False] (b, g') \<and>
     cb_state b = StateOpen \<and> consecutive_failures b = 2"
proof -
  obtain b1 g1 where s1: "record_failure (new_circuit_breaker 2 5) demo_gen = (b1, g1)" by fastforce
  obtain b2 g2 where s2: "record_failure (record_success b1) g1 = (b2, g2)" by fastforce
  obtain b3 g3 where s3: "record_failure b2 g2 = (b3, g3)" by fastforce
  obtain r b4 g4 where s4: "allow_request b3 g3 = (r, b4, g4)" by (cases "allow_request b3 g3") auto
  have "b1 = (new_circuit_breaker 2 5)\<lparr>consecutive_failures := 1\<rparr>" "g1 = demo_gen"
    using s1 by (auto simp: record_failure_def new_circuit_breaker_def wrap64_id)
  then have "b2 = (new_circuit_breaker 2 5)\<lparr>consecutive_failures := 1\<rparr>" "g2 = demo_gen"
    using s2 by (auto simp: record_failure_def record_success_def new_circuit_breaker_def wrap64_id)
  then have "\<not> r"
    using s3 s4 by (auto simp: record_failure_def allow_request_def state_locked_def new_circuit_breaker_def
        wrap64_id time_now_def demo_gen_def time_sub_def sat64_def split: if_splits)
  then have run: "breaker_run (new_circuit_breaker 2 5, demo_gen)
      [Failure, Success, Failure, Failure, Ask False] (b4, g4)"
    using breaker_step.failure [OF s1] breaker_step.success [of b1 g1] breaker_step.failure [OF s2]
      breaker_step.failure [OF s3] breaker_step.ask [OF s4] by simp blast
  have "cb_state b4 = StateOpen \<and> consecutive_failures b4 = 2"
    using breaker_invariant [OF run] by (simp add: failures_in_def wrap64_id)
  with run show ?thesis by blast
qed

text \<open>\<^bold>\<open>C15\<close>. Half-open admits a single probe: once a request has been let through an open
  breaker, no other request is admitted, at any time and by any caller, until an outcome is
  recorded.\<close>

theorem single_probe:
  assumes "cb_state b = StateOpen" and "allow_request b g = (True, b1, g1)"
    and "breaker_run (b1, g1) es (b2, g2)" and "Success \<notin> set es" and "Failure \<notin> set es"
  shows "Ask True \<notin> set es \<and> b2 = b\<lparr>probe_in_flight := True\<rparr>"
proof -
  have "cb_state b \<noteq> StateHalfOpen" using assms(1) by simp
  then have "b1 = b\<lparr>probe_in_flight := True\<rparr>"
    using allow_request_cases [OF assms(2)] assms(1) by fastforce
  then show ?thesis using probing_run [OF assms(3)] assms(1,4,5) by simp
qed

lemma single_probe_witness:
  "\<exists>b2 g2. breaker_run (b2, g2) [Ask False] (b2, g2\<lparr>clock_pos := 2\<rparr>) \<and> probe_in_flight b2"
proof -
  let ?b = "\<lparr>failure_threshold = 1, reset_timeout = 0, consecutive_failures = 1,
     cb_state = StateOpen, opened_at = 0, probe_in_flight = False\<rparr>"
  let ?b1 = "?b\<lparr>probe_in_flight := True\<rparr>" and ?g1 = "demo_gen\<lparr>clock_pos := 1\<rparr>"
  have ev: "allow_request ?b demo_gen = (True, ?b1, ?g1)"
    "allow_request ?b1 ?g1 = (False, ?b1, demo_gen\<lparr>clock_pos := 2\<rparr>)"
    by (simp_all add: allow_request_def state_locked_def time_now_def demo_gen_def time_sub_def sat64_def)
  have run: "breaker_run (?b1, ?g1) [Ask False] (?b1, ?g1\<lparr>clock_pos := 2\<rparr>)"
    using breaker_step.ask [OF ev(2)] by simp
  have "?b1 = ?b\<lparr>probe_in_flight := True\<rparr>"
    using single_probe [OF _ ev(1) run] by simp
  with run show ?thesis by (intro exI [of _ ?b1] exI [of _ ?g1]) simp
qed

lemma failures_in_replicate [simp]: "failures_in (replicate n Failure) = n"
proof -
  have "foldl failures_after k (replicate n Failure) = k + n" for k
    by (induction n arbitrary: k) auto
  then show ?thesis by (simp add: failures_in_def)
qed

lemma open_fails_fast:
  assumes "cb_state b = StateOpen"
    and "time_sub (clock g (clock_pos g)) (opened_at b) < reset_timeout b"
  shows "call_with_resilience wait p isr f b (g, s) =
    (Inl ErrServiceUnavailable, b, g\<lparr>clock_pos := Suc (clock_pos g)\<rparr>, s)"
  using assms by (simp add: call_with_resilience_def allow_request_def state_locked_def time_now_def)

text \<open>A fresh breaker trips on exactly the configured number of consecutive recorded
  failures: it is open after \<open>n\<close> failures if and only if \<open>n\<close> reaches the threshold. From then on,
  until the reset timeout has elapsed, it fails fast: a call returns the service-unavailable error
  and the operation is not run at all (its state is untouched).\<close>

theorem breaker_trips_at_threshold:
  assumes "1 \<le> threshold" and "threshold < 2 ^ 63"
    and "breaker_run (new_circuit_breaker threshold timeout, g) (replicate n Failure) (b, g')"
  shows "(cb_state b = StateOpen \<longleftrightarrow> threshold \<le> int n) \<and> consecutive_failures b = wrap64 (int n) \<and>
    (threshold \<le> int n \<and> time_sub (clock h (clock_pos h)) (opened_at b) < reset_timeout b \<longrightarrow>
      call_with_resilience wait p isr f b (h, s) = (Inl ErrServiceUnavailable, b, h\<lparr>clock_pos := Suc (clock_pos h)\<rparr>, s))"
  using reachable_breaker [OF assms(3,2)] assms(1) by (auto simp: breaker_inv_def open_fails_fast)

lemma breaker_trips_at_threshold_witness:
  "cb_state (fst (record_failure (new_circuit_breaker 1 30) demo_gen)) = StateOpen \<and>
   fst (call_with_resilience (\<lambda>d gs. (None, gs)) (new_retry_policy 3 50 2) (\<lambda>_. True)
     (\<lambda>(g, n :: nat). (Inr n, g, Suc n)) (fst (record_failure (new_circuit_breaker 1 30) demo_gen)) (demo_gen, 0))
   = Inl ErrServiceUnavailable"
proof -
  obtain b g' where e: "record_failure (new_circuit_breaker 1 30) demo_gen = (b, g')" by fastforce
  then have run: "breaker_run (new_circuit_breaker 1 30, demo_gen) (replicate 1 Failure) (b, g')"
    by (auto intro: breaker_step.failure)
  have "time_sub (clock demo_gen (clock_pos demo_gen)) (opened_at b) < reset_timeout b"
    using e by (auto simp: record_failure_def new_circuit_breaker_def time_now_def demo_gen_def time_sub_def sat64_def
        wrap64_id)
  with breaker_trips_at_threshold [where h = demo_gen and wait = "\<lambda>d gs. (None, gs)" and p = "new_retry_policy 3 50 2"
      and isr = "\<lambda>_. True" and f = "\<lambda>(g, n :: nat). (Inr n, g, Suc n)" and s = 0, OF _ _ run] e
  show ?thesis by simp
qed

text \<open>\<^bold>\<open>C16\<close>. Retrying returns the outcome of one attempt \<open>k\<close> within the attempt budget: all the
  attempts before it failed retryably, and it succeeded, failed for good, or was the last one
  allowed; the waits before it were the backoffs of the attempts in order.\<close>

theorem retry_returns_first_settled_attempt:
  assumes "\<And>d s. wait d s = (None, after d s)"
  shows "\<exists>k. (k = 0 \<or> int k < max_attempts p) \<and>
    retry_with_backoff wait p isr f 0 s = f (attempt_state after p f s k) \<and>
    (\<forall>i < k. retryable_failure isr (fst (f (attempt_state after p f s i)))) \<and>
    (max_attempts p \<le> int k + 1 \<or> \<not> retryable_failure isr (fst (f (attempt_state after p f s k))))"
  using retry_from [where n = 0 and p = p and isr = isr and f = f and ?s0.0 = s, OF assms refl] by auto

lemma retry_returns_first_settled_attempt_witness:
  "\<exists>k. (k = 0 \<or> int k < 3) \<and>
    retry_with_backoff (\<lambda>d s. (None, s)) (new_retry_policy 3 50 2) (\<lambda>_. True)
      (\<lambda>n :: nat. (if n < 2 then Inl ErrInternal else Inr n, Suc n)) 0 0 = (Inr 2, Suc k) \<and> k = 2"
proof -
  let ?f = "\<lambda>n :: nat. (if n < 2 then Inl ErrInternal else Inr n, Suc n)"
  have st: "attempt_state (\<lambda>d s. s) (new_retry_policy 3 50 2) ?f 0 k = k" for k
    by (induction k) auto
  obtain k where "k = 0 \<or> int k < 3"
      "retry_with_backoff (\<lambda>d s. (None, s)) (new_retry_policy 3 50 2) (\<lambda>_. True) ?f 0 0 = ?f k"
      "3 \<le> int k + 1 \<or> 2 \<le> k"
    using retry_returns_first_settled_attempt
      [where wait = "\<lambda>d s. (None, s)" and after = "\<lambda>d s. s" and p = "new_retry_policy 3 50 2"
        and isr = "\<lambda>_. True" and f = ?f and s = 0]
    unfolding st by (auto simp: new_retry_policy_def retryable_failure_def split: if_splits)
  then show ?thesis by (intro exI [of _ k]) auto
qed

text \<open>As long as the product fits in 63 bits, the backoff after attempt \<open>n\<close> is the initial
  backoff times the multiplier to the power \<open>n\<close>: the int64 multiplications do not wrap.\<close>

theorem backoff_exact:
  assumes "0 \<le> initial" and "initial * (max 1 mult) ^ n < 2 ^ 63"
  shows "backoff_for_attempt (new_retry_policy m initial mult) n = initial * (max 1 mult) ^ n"
proof -
  have "backoff_multiplier (new_retry_policy m initial mult) = max 1 mult"
    "initial_backoff (new_retry_policy m initial mult) = initial"
    by (auto simp: new_retry_policy_def)
  then show ?thesis using backoff_exact_aux [of "new_retry_policy m initial mult" n] assms by simp
qed

lemma backoff_exact_witness:
  "backoff_for_attempt (new_retry_policy 3 50000000 2) 2 = 200000000"
  using backoff_exact [of 50000000 2 2 3] by simp

subsection \<open>Properties of guarded calls\<close>

text \<open>A guarded call counts once, however many attempts it made: through a closed breaker
  a success (also one that needed retries) clears the failure count, a retryable failure of the
  whole call adds one to it, any other error leaves it, and the breaker opens exactly when the
  count then reaches the threshold.\<close>

theorem call_counts_once:
  assumes "cb_state b = StateClosed"
    and "call_with_resilience wait p isr f b gs = (r, b', gs')"
  shows "consecutive_failures b' =
      (case r of Inr _ \<Rightarrow> 0
       | Inl e \<Rightarrow> if isr e then wrap64 (consecutive_failures b + 1) else consecutive_failures b) \<and>
    (cb_state b' = StateOpen \<longleftrightarrow>
      (\<exists>e. r = Inl e \<and> isr e \<and> failure_threshold b \<le> wrap64 (consecutive_failures b + 1)))"
  using assms
  by (auto simp: call_with_resilience_def allow_request_def state_locked_def record_success_def
      record_failure_def time_now_def Let_def split: prod.splits sum.splits if_splits)

lemma call_counts_once_witness:
  "consecutive_failures (fst (snd (call_with_resilience (\<lambda>d gs. (None, gs)) (new_retry_policy 3 50 2) (\<lambda>_. True)
     (\<lambda>(g, n :: nat). (if n < 2 then Inl ErrInternal else Inr n, g, Suc n))
     (new_circuit_breaker 5 30) (demo_gen, 0)))) = 0"
proof -
  let ?c = "call_with_resilience (\<lambda>d gs. (None, gs)) (new_retry_policy 3 50 2) (\<lambda>_. True)
     (\<lambda>(g, n :: nat). (if n < 2 then Inl ErrInternal else Inr n, g, Suc n))
     (new_circuit_breaker 5 30) (demo_gen, 0)"
  have "fst ?c = Inr 2"
    by (simp add: call_with_resilience_def allow_request_def state_locked_def new_circuit_breaker_def
        retry_with_backoff.simps new_retry_policy_def)
  then obtain b' gs' where c: "?c = (Inr 2, b', gs')" by (cases ?c) auto
  show ?thesis using call_counts_once [OF _ c] c by (simp add: new_circuit_breaker_def)
qed

text \<open>Any later sequence of guarded calls through one breaker.\<close>

primrec run_calls ::
  "(duration \<Rightarrow> gen \<times> 's \<Rightarrow> error option \<times> gen \<times> 's) \<Rightarrow> retry_policy \<Rightarrow> (error \<Rightarrow> bool) \<Rightarrow>
   (gen \<times> 's \<Rightarrow> (error + 'v) \<times> gen \<times> 's) list \<Rightarrow> circuit_breaker \<Rightarrow> gen \<times> 's \<Rightarrow>
   (error + 'v) list \<times> circuit_breaker \<times> gen \<times> 's" where
  "run_calls wait p isr [] b gs = ([], b, gs)"
| "run_calls wait p isr (f # fs) b gs =
    (case call_with_resilience wait p isr f b gs of (r, b, gs) \<Rightarrow>
       case run_calls wait p isr fs b gs of (rs, b, gs) \<Rightarrow> (r # rs, b, gs))"

lemma wedged_run:
  assumes "cb_state b = StateOpen" "probe_in_flight b"
  shows "\<exists>g'. run_calls wait p isr fs b (g, s) =
    (replicate (length fs) (Inl ErrServiceUnavailable), b, g', s)"
proof (induction fs arbitrary: g)
  case (Cons f fs)
  obtain g1 where "allow_request b g = (False, b, g1)" using probing_allow [OF assms] by blast
  then show ?case using Cons [of g1] by (auto simp: call_with_resilience_def)
qed simp

text \<open>\<^bold>\<open>C38\<close>. The half-open probe slot leaks: when the probe's operation ends with an error that
  is not retryable, no outcome is recorded, the slot stays taken, and every later call through
  the breaker is refused, at every later time and without running its operation.\<close>

theorem probe_leak_wedges_breaker:
  assumes "cb_state b = StateOpen" and "\<not> probe_in_flight b"
    and "reset_timeout b \<le> time_sub (clock g (clock_pos g)) (opened_at b)"
    and "f (g\<lparr>clock_pos := Suc (clock_pos g)\<rparr>, s) = (Inl e, g1, s1)" and "\<not> isr e"
  shows "\<exists>b'. call_with_resilience wait p isr f b (g, s) = (Inl e, b', g1, s1) \<and>
    (\<forall>fs. \<exists>g2. run_calls wait p isr fs b' (g1, s1) =
       (replicate (length fs) (Inl ErrServiceUnavailable), b', g2, s1))"
proof -
  let ?b = "b\<lparr>probe_in_flight := True\<rparr>"
  have "retry_with_backoff wait p isr f 0 (g\<lparr>clock_pos := Suc (clock_pos g)\<rparr>, s) = (Inl e, g1, s1)"
    using assms(4,5) by (simp add: retry_with_backoff.simps)
  then have "call_with_resilience wait p isr f b (g, s) = (Inl e, ?b, g1, s1)"
    using assms(1-3,5)
    by (simp add: call_with_resilience_def allow_request_def state_locked_def time_now_def)
  moreover have "\<exists>g2. run_calls wait p isr fs ?b (g1, s1) =
      (replicate (length fs) (Inl ErrServiceUnavailable), ?b, g2, s1)" for fs
    using wedged_run [of ?b] assms(1) by simp
  ultimately show ?thesis by blast
qed

lemma probe_leak_wedges_breaker_witness:
  "\<exists>b'. \<forall>fs :: (gen \<times> unit \<Rightarrow> (error + unit) \<times> gen \<times> unit) list. \<exists>g2.
     run_calls (\<lambda>d gs. (None, gs)) (new_retry_policy 3 50 2) (\<lambda>e. e \<noteq> RedisNil) fs b' (demo_gen\<lparr>clock_pos := 1\<rparr>, ()) =
       (replicate (length fs) (Inl ErrServiceUnavailable), b', g2, ())"
proof -
  let ?b = "fst (record_failure (new_circuit_breaker 1 0) demo_gen)"
  have "cb_state ?b = StateOpen" "\<not> probe_in_flight ?b"
    "reset_timeout ?b \<le> time_sub (clock demo_gen (clock_pos demo_gen)) (opened_at ?b)"
    by (simp_all add: record_failure_def new_circuit_breaker_def time_now_def demo_gen_def time_sub_def sat64_def
        wrap64_id)
  from probe_leak_wedges_breaker [OF this, of "\<lambda>(g, u). (Inl RedisNil, g, u)" "()" RedisNil
      "demo_gen\<lparr>clock_pos := 1\<rparr>" "()" "\<lambda>e. e \<noteq> RedisNil" "\<lambda>d gs. (None, gs)" "new_retry_policy 3 50 2"]
  show ?thesis by (auto simp: demo_gen_def)
qed

end
