(* ===== verification/Ports.thy ===== *)
theory Ports
  imports Resilience
begin

section \<open>The ports of the application layer and the world they act on\<close>

text \<open>
  The interfaces of \<^verbatim>\<open>internal/domain/repository\<close> and \<^verbatim>\<open>internal/application/port\<close> as records
  of functions, one field per method, and the data transfer objects of
  \<^verbatim>\<open>internal/application/dto\<close>. A \<^verbatim>\<open>*entity.User\<close> is an address into a store of user objects,
  because the in-memory repository hands out the pointers it keeps: a mutation by a use case
  is seen through the repository before \<^verbatim>\<open>Save\<close>. A repository method acts on that store and on
  the adapter's own state \<open>'r\<close>; a token service on the sources of time and randomness and its
  state \<open>'t\<close>; an audit port on its state \<open>'a\<close>. \<open>world\<close> holds them all.
\<close>

subsection \<open>User objects\<close>

type_synonym addr = nat
type_synonym heap = "user list"

definition alloc :: "user \<Rightarrow> heap \<Rightarrow> addr \<times> heap" where
  "alloc u h = (length h, h @ [u])"

subsection \<open>Interfaces\<close>

record 'r user_repository =
  FindByID :: "uuid \<Rightarrow> heap \<times> 'r \<Rightarrow> (error + addr) \<times> heap \<times> 'r"
  FindByEmail :: "email \<Rightarrow> heap \<times> 'r \<Rightarrow> (error + addr) \<times> heap \<times> 'r"
  Save :: "addr \<Rightarrow> heap \<times> 'r \<Rightarrow> (error + unit) \<times> heap \<times> 'r"
  Delete :: "uuid \<Rightarrow> heap \<times> 'r \<Rightarrow> (error + unit) \<times> heap \<times> 'r"
  Count :: "heap \<times> 'r \<Rightarrow> (error + int) \<times> heap \<times> 'r"
  SaveFirstOwner :: "addr \<Rightarrow> heap \<times> 'r \<Rightarrow> (error + bool) \<times> heap \<times> 'r"
  FindPaginated :: "int \<Rightarrow> int \<Rightarrow> heap \<times> 'r \<Rightarrow> (error + addr list \<times> int) \<times> heap \<times> 'r"

record password_hasher =
  Hash :: "string \<Rightarrow> gen \<Rightarrow> (error + password_hash) \<times> gen"
  Verify :: "string \<Rightarrow> password_hash \<Rightarrow> error + bool"

record token_pair =
  AccessToken :: string
  RefreshToken :: string

record access_token_claims =
  claim_user_id :: uuid
  claim_role :: role

datatype redemption_outcome = RedemptionInvalid | RedemptionOK | RedemptionReused

record redemption_result =
  outcome :: redemption_outcome
  red_user_id :: uuid

record 't token_service =
  GeneratePair :: "uuid \<Rightarrow> role \<Rightarrow> gen \<times> 't \<Rightarrow> (error + token_pair) \<times> gen \<times> 't"
  ValidateAccessToken :: "string \<Rightarrow> gen \<Rightarrow> (error + access_token_claims) \<times> gen"
  FindUserIDByRefreshToken :: "string \<Rightarrow> gen \<times> 't \<Rightarrow> (error + uuid \<times> bool) \<times> gen \<times> 't"
  RedeemRefreshToken :: "string \<Rightarrow> gen \<times> 't \<Rightarrow> (error + redemption_result) \<times> gen \<times> 't"
  RotateRefreshToken ::
    "string \<Rightarrow> uuid \<Rightarrow> role \<Rightarrow> gen \<times> 't \<Rightarrow> (error + token_pair) \<times> gen \<times> 't"
  RevokeRefreshToken :: "string \<Rightarrow> gen \<times> 't \<Rightarrow> (error + unit) \<times> gen \<times> 't"
  RevokeAllRefreshTokens :: "uuid \<Rightarrow> gen \<times> 't \<Rightarrow> (error + unit) \<times> gen \<times> 't"

type_synonym 'a audit_port = "audit_event \<Rightarrow> 'a \<Rightarrow> 'a"

subsection \<open>Data transfer objects\<close>

record register_input =
  reg_email :: string
  reg_password :: string
  reg_name :: string

record login_input =
  login_email :: string
  login_password :: string

record refresh_input =
  in_refresh_token :: string

record user_summary =
  sum_id :: uuid
  sum_email :: string
  sum_name :: string
  sum_role :: role

record auth_output =
  auth_access_token :: string
  auth_refresh_token :: string
  auth_user :: user_summary

record change_password_input =
  current_password :: string
  new_password :: string

record user_output =
  out_id :: uuid
  out_email :: string
  out_name :: string
  out_role :: role
  out_is_active :: bool
  out_created_at :: time
  out_updated_at :: time

record list_users_input =
  in_page :: "32 word"
  in_page_size :: "32 word"

record pagination_output =
  pg_page :: "32 word"
  pg_page_size :: "32 word"
  pg_total_items :: int
  pg_total_pages :: "32 word"

record list_users_output =
  list_items :: "user_output list"
  list_pagination :: pagination_output

subsection \<open>The world\<close>

record ('r, 't, 'a) world =
  objects :: heap
  repo :: 'r
  tokens :: 't
  audit :: 'a
  sources :: gen

definition on_repo ::
  "(heap \<times> 'r \<Rightarrow> 'x \<times> heap \<times> 'r) \<Rightarrow> ('r, 't, 'a) world \<Rightarrow> 'x \<times> ('r, 't, 'a) world" where
  "on_repo f w = (case f (objects w, repo w) of (x, h, r) \<Rightarrow> (x, w\<lparr>objects := h, repo := r\<rparr>))"

definition on_tokens ::
  "(gen \<times> 't \<Rightarrow> 'x \<times> gen \<times> 't) \<Rightarrow> ('r, 't, 'a) world \<Rightarrow> 'x \<times> ('r, 't, 'a) world" where
  "on_tokens f w = (case f (sources w, tokens w) of (x, g, t) \<Rightarrow> (x, w\<lparr>sources := g, tokens := t\<rparr>))"

definition on_gen :: "(gen \<Rightarrow> 'x \<times> gen) \<Rightarrow> ('r, 't, 'a) world \<Rightarrow> 'x \<times> ('r, 't, 'a) world" where
  "on_gen f w = (case f (sources w) of (x, g) \<Rightarrow> (x, w\<lparr>sources := g\<rparr>))"

definition user_at :: "addr \<Rightarrow> ('r, 't, 'a) world \<Rightarrow> user" where
  "user_at a w = objects w ! a"

text \<open>A method of \<^verbatim>\<open>*User\<close> called through a pointer.\<close>

definition set_user :: "addr \<Rightarrow> user \<Rightarrow> ('r, 't, 'a) world \<Rightarrow> ('r, 't, 'a) world" where
  "set_user a u w = w\<lparr>objects := (objects w)[a := u]\<rparr>"

definition alloc_user :: "user \<Rightarrow> ('r, 't, 'a) world \<Rightarrow> addr \<times> ('r, 't, 'a) world" where
  "alloc_user u w = (case alloc u (objects w) of (a, h) \<Rightarrow> (a, w\<lparr>objects := h\<rparr>))"

definition record_audit ::
  "'a audit_port \<Rightarrow> audit_event_type \<Rightarrow> uuid option \<Rightarrow> uuid option \<Rightarrow> string \<Rightarrow>
   ('r, 't, 'a) world \<Rightarrow> ('r, 't, 'a) world" where
  "record_audit A ty actor target detail w =
    (case on_gen (new_audit_event ty actor target detail) w of
       (ev, w) \<Rightarrow> w\<lparr>audit := A ev (audit w)\<rparr>)"

lemma record_audit_simps [simp]:
  "objects (record_audit A ty ac ta d w) = objects w" "repo (record_audit A ty ac ta d w) = repo w"
  "tokens (record_audit A ty ac ta d w) = tokens w"
  by (simp_all add: record_audit_def on_gen_def split: prod.splits)

lemma set_user_simps [simp]:
  "objects (set_user a u w) = (objects w)[a := u]" "repo (set_user a u w) = repo w"
  "tokens (set_user a u w) = tokens w" "audit (set_user a u w) = audit w"
  "sources (set_user a u w) = sources w"
  by (simp_all add: set_user_def)

lemma on_repo_eq:
  "on_repo f w = (x, w') \<longleftrightarrow> (\<exists>h r. f (objects w, repo w) = (x, h, r) \<and> w' = w\<lparr>objects := h, repo := r\<rparr>)"
  by (auto simp: on_repo_def split: prod.splits)

lemma on_tokens_eq:
  "on_tokens f w = (x, w') \<longleftrightarrow> (\<exists>g t. f (sources w, tokens w) = (x, g, t) \<and> w' = w\<lparr>sources := g, tokens := t\<rparr>)"
  by (auto simp: on_tokens_def split: prod.splits)

lemma on_gen_eq:
  "on_gen f w = (x, w') \<longleftrightarrow> (\<exists>g. f (sources w) = (x, g) \<and> w' = w\<lparr>sources := g\<rparr>)"
  by (auto simp: on_gen_def split: prod.splits)

lemma alloc_user_eq:
  "alloc_user u w = (a, w') \<longleftrightarrow> a = length (objects w) \<and> w' = w\<lparr>objects := objects w @ [u]\<rparr>"
  by (auto simp: alloc_user_def alloc_def)

subsection \<open>Servers behind a network\<close>

text \<open>
  What becomes of one command an adapter sends to a server: it runs and its reply arrives, it
  never reaches the server, or it runs and the reply is lost. A call made after the request's
  context has ended fails with the context's error. A transport error is an error with a message,
  none of the application's own.
\<close>

datatype fate = Delivered | Unsent string | ReplyLost string

definition ctx_error :: error where
  "ctx_error = External ''context canceled''"

subsection \<open>What a repository promises\<close>

text \<open>
  The contract of \<^verbatim>\<open>UserRepository\<close> the use cases rely on. \<open>view\<close> is the collection the
  repository stands for, as a map from ids to users, and \<open>rinv\<close> the adapter's representation
  invariant. A store may change a user's timestamps when it writes it (PostgreSQL keeps
  microseconds and the first creation time), so a written user is pinned down up to
  \<open>content\<close>. Any operation may fail, with any error; a write that failed was made completely or
  not at all (the reply of a database can be lost). \<open>ErrUserNotFound\<close> is reported for absent
  users only.
\<close>

definition content :: "user \<Rightarrow> user_id \<times> email \<times> password_hash \<times> string \<times> role \<times> bool" where
  "content u = (usr_id u, usr_email u, usr_password_hash u, usr_name u, usr_role u, usr_is_active u)"

definition user_key :: "user \<Rightarrow> uuid" where
  "user_key u = uuid_of (usr_id u)"

lemma content_eq:
  "content u = content v \<longleftrightarrow> usr_id u = usr_id v \<and> usr_email u = usr_email v \<and>
     usr_password_hash u = usr_password_hash v \<and> usr_name u = usr_name v \<and> usr_role u = usr_role v \<and>
     usr_is_active u = usr_is_active v"
  by (auto simp: content_def)

definition has_owner :: "(uuid \<Rightarrow> user option) \<Rightarrow> bool" where
  "has_owner m \<longleftrightarrow> (\<exists>i u. m i = Some u \<and> usr_role u = RoleOwner)"

definition written :: "(uuid \<Rightarrow> user option) \<Rightarrow> user \<Rightarrow> (uuid \<Rightarrow> user option) \<Rightarrow> bool" where
  "written m u m' \<longleftrightarrow> (\<exists>u'. content u' = content u \<and> m' = m(user_key u \<mapsto> u'))"

locale user_store =
  fixes R :: "'r user_repository" and lo :: "nat \<Rightarrow> nat"
    and rinv :: "heap \<times> 'r \<Rightarrow> bool" and view :: "heap \<times> 'r \<Rightarrow> uuid \<Rightarrow> user option"
  assumes view_key: "rinv S \<Longrightarrow> view S i = Some u \<Longrightarrow>
      user_key u = i \<and> canonical_email lo (usr_email u)"
    and view_finite: "rinv S \<Longrightarrow> finite (dom (view S))"
    and alloc_law: "rinv (h, r) \<Longrightarrow> rinv (h @ us, r) \<and> view (h @ us, r) = view (h, r)"
    and find_by_id_law: "rinv (h, r) \<Longrightarrow> FindByID R i (h, r) = (x, h', r') \<Longrightarrow>
      rinv (h', r') \<and> view (h', r') = view (h, r) \<and> (\<exists>ext. h' = h @ ext) \<and>
      (case x of Inr a \<Rightarrow> a < length h' \<and> view (h, r) i = Some (h' ! a)
       | Inl e \<Rightarrow> e = ErrUserNotFound \<longrightarrow> view (h, r) i = None)"
    and find_by_email_law: "rinv (h, r) \<Longrightarrow> FindByEmail R em (h, r) = (x, h', r') \<Longrightarrow>
      rinv (h', r') \<and> view (h', r') = view (h, r) \<and> (\<exists>ext. h' = h @ ext) \<and>
      (case x of Inr a \<Rightarrow> a < length h' \<and> usr_email (h' ! a) = em \<and>
                    view (h, r) (user_key (h' ! a)) = Some (h' ! a)
       | Inl e \<Rightarrow> e = ErrUserNotFound \<longrightarrow> (\<forall>i u. view (h, r) i = Some u \<longrightarrow> usr_email u \<noteq> em))"
    and save_law: "rinv (h, r) \<Longrightarrow> a < length h \<Longrightarrow> usr_id u = usr_id (h ! a) \<Longrightarrow>
      canonical_email lo (usr_email u) \<Longrightarrow> Save R a (h[a := u], r) = (y, h', r') \<Longrightarrow>
      h' = h[a := u] \<and> rinv (h', r') \<and>
      (written (view (h, r)) u (view (h', r')) \<or> is_err y \<and> view (h', r') = view (h, r))"
    and first_owner_law: "rinv (h, r) \<Longrightarrow> a < length h \<Longrightarrow> canonical_email lo (usr_email (h ! a)) \<Longrightarrow>
      usr_role (h ! a) = RoleOwner \<Longrightarrow> SaveFirstOwner R a (h, r) = (b, h', r') \<Longrightarrow>
      h' = h \<and> rinv (h', r') \<and>
      (\<not> has_owner (view (h, r)) \<and> written (view (h, r)) (h ! a) (view (h', r')) \<and> b \<noteq> Inr False \<or>
       b \<noteq> Inr True \<and> view (h', r') = view (h, r))"
    and delete_law: "rinv (h, r) \<Longrightarrow> Delete R i (h, r) = (y, h', r') \<Longrightarrow>
      h' = h \<and> rinv (h', r') \<and>
      (view (h', r') = (view (h, r))(i := None) \<or> is_err y \<and> view (h', r') = view (h, r))"
    and find_paginated_law: "rinv (h, r) \<Longrightarrow> FindPaginated R off lim (h, r) = (pg, h', r') \<Longrightarrow>
      rinv (h', r') \<and> view (h', r') = view (h, r) \<and>
      (case pg of Inr (page, n) \<Rightarrow> n = int (card (dom (view (h, r)))) \<and>
         (\<forall>a \<in> set page. a < length h' \<and> view (h, r) (user_key (h' ! a)) = Some (h' ! a))
       | Inl _ \<Rightarrow> True)"

subsection \<open>What a password hasher and a token service promise\<close>

text \<open>
  A hasher accepts the password it hashed. A token service lets a refresh token be redeemed at
  most once: \<open>spent s tok\<close> says that \<open>tok\<close> can no longer be redeemed in state \<open>s\<close>; as long as no
  UUID is drawn twice, no operation of the service, no draw of a UUID and nothing that happens
  between two requests (\<open>env\<close>) revives it.
\<close>

definition gen_later :: "gen \<Rightarrow> gen \<Rightarrow> bool" where
  "gen_later g g' \<longleftrightarrow> uuid_source g' = uuid_source g \<and> uuid_pos g \<le> uuid_pos g' \<and>
     clock g' = clock g \<and> clock_pos g \<le> clock_pos g'"

text \<open>UUIDs are random: what follows from their uniqueness is claimed as long as it held.\<close>

definition distinct_draws :: "gen \<Rightarrow> bool" where
  "distinct_draws g \<longleftrightarrow> distinct (map (uuid_source g) [0..<uuid_pos g])"

lemma distinct_draws_earlier: "gen_later g g' \<Longrightarrow> distinct_draws g' \<Longrightarrow> distinct_draws g"
  by (auto simp: distinct_draws_def gen_later_def distinct_map inj_on_def)

lemma distinct_draws_eq:
  "distinct_draws g \<Longrightarrow> m < uuid_pos g \<Longrightarrow> n < uuid_pos g \<Longrightarrow> uuid_source g m = uuid_source g n \<longleftrightarrow> m = n"
  by (auto simp: distinct_draws_def distinct_map inj_on_def)

lemma gen_later_refl [simp]: "gen_later g g"
  and gen_later_trans: "gen_later g g' \<Longrightarrow> gen_later g' g'' \<Longrightarrow> gen_later g g''"
  by (auto simp: gen_later_def)

lemma gen_later_draw:
  "time_now g = (t, g') \<Longrightarrow> gen_later g g'" "uuid_new g = (i, g') \<Longrightarrow> gen_later g g'"
  "rand_read g = (b, g') \<Longrightarrow> gen_later g g'"
  by (auto simp: gen_later_def time_now_def uuid_new_def rand_read_def)

locale hasher =
  fixes H :: password_hasher
  assumes hash_verify: "Hash H pw g = (Inr h, g') \<Longrightarrow> Verify H pw h = Inr True"
    and hash_gen: "Hash H pw g = (x, g') \<Longrightarrow> gen_later g g'"

locale single_use_tokens =
  fixes T :: "'t token_service" and tinv :: "gen \<times> 't \<Rightarrow> bool"
    and spent :: "gen \<times> 't \<Rightarrow> string \<Rightarrow> bool" and env :: "'t \<Rightarrow> 't \<Rightarrow> bool"
  assumes later_law: "tinv (g, t) \<Longrightarrow> gen_later g g' \<Longrightarrow>
      tinv (g', t) \<and> (spent (g, t) tok \<longrightarrow> distinct_draws g' \<longrightarrow> spent (g', t) tok)"
    and env_law: "tinv (g, t) \<Longrightarrow> env t t' \<Longrightarrow> tinv (g, t') \<and> (spent (g, t) tok \<longrightarrow> spent (g, t') tok)"
    and generate_law: "tinv s \<Longrightarrow> GeneratePair T uid r s = (p, s') \<Longrightarrow>
      tinv s' \<and> gen_later (fst s) (fst s') \<and> (spent s tok \<longrightarrow> distinct_draws (fst s') \<longrightarrow> spent s' tok)"
    and validate_law: "ValidateAccessToken T x g = (c, g') \<Longrightarrow> gen_later g g'"
    and revoke_law: "tinv s \<Longrightarrow> RevokeRefreshToken T x s = (y, s') \<Longrightarrow>
      tinv s' \<and> gen_later (fst s) (fst s') \<and> (spent s tok \<longrightarrow> distinct_draws (fst s') \<longrightarrow> spent s' tok)"
    and revoke_all_law: "tinv s \<Longrightarrow> RevokeAllRefreshTokens T uid s = (y, s') \<Longrightarrow>
      tinv s' \<and> gen_later (fst s) (fst s') \<and> (spent s tok \<longrightarrow> distinct_draws (fst s') \<longrightarrow> spent s' tok)"
    and redeem_law: "tinv s \<Longrightarrow> RedeemRefreshToken T x s = (z, s') \<Longrightarrow>
      tinv s' \<and> gen_later (fst s) (fst s') \<and> (spent s tok \<longrightarrow> distinct_draws (fst s') \<longrightarrow> spent s' tok) \<and>
      (case z of Inr res \<Rightarrow> outcome res = RedemptionOK \<longrightarrow> distinct_draws (fst s') \<longrightarrow> \<not> spent s x \<and> spent s' x
       | Inl _ \<Rightarrow> True)"

end
