(* ===== verification/UseCases.thy ===== *)
theory UseCases
  imports Ports
begin

section \<open>The use cases\<close>

text \<open>
  \<^verbatim>\<open>internal/application/usecase\<close>: the \<^verbatim>\<open>Execute\<close> method of each use case, over any
  repository \<open>R\<close>, hasher \<open>H\<close>, token service \<open>T\<close> and audit port \<open>A\<close>. The zero output of an
  error return is left out: an error is \<open>Inl\<close>. \<^verbatim>\<open>RegisterUser.Execute\<close> is composed of three
  stages that end at its calls of the repository, so that two registrations can be
  interleaved.

  A panic (\<open>Inl RuntimePanic\<close>) is no error value of Go: a use case that answers an error of a
  collaborator with one of its own, or audits it, does not run on after a panic of the lookup by
  email or of \<^verbatim>\<open>Verify\<close> (\<^verbatim>\<open>argon2.IDKey\<close> panics on a stored hash with \<open>t = 0\<close> or \<open>p = 0\<close>): the panic is
  its result and nothing is audited. The other calls whose error is replaced are those of
  \<open>refresh_execute\<close>; they do not panic in any adapter in the source.
\<close>

text \<open>
  A lookup by email returns a pointer, which the use cases test or dereference: an address past
  the objects is nil (only the double of the unit tests answers it), here \<open>None\<close>.
\<close>

definition user_by_email ::
  "'r user_repository \<Rightarrow> email \<Rightarrow> ('r, 't, 'a) world \<Rightarrow> (error + addr option) \<times> ('r, 't, 'a) world" where
  "user_by_email R em w =
    (case on_repo (FindByEmail R em) w of
       (Inl e, w) \<Rightarrow> (Inl e, w)
     | (Inr a, w) \<Rightarrow> (Inr (if a < length (objects w) then Some a else None), w))"

definition user_summary_of :: "user \<Rightarrow> user_summary" where
  "user_summary_of u = \<lparr>sum_id = user_key u, sum_email = email_string (usr_email u),
     sum_name = usr_name u, sum_role = usr_role u\<rparr>"

definition auth_output_of :: "token_pair \<Rightarrow> user \<Rightarrow> auth_output" where
  "auth_output_of p u = \<lparr>auth_access_token = AccessToken p, auth_refresh_token = RefreshToken p,
     auth_user = user_summary_of u\<rparr>"

definition user_output_of :: "user \<Rightarrow> user_output" where
  "user_output_of u = \<lparr>out_id = user_key u, out_email = email_string (usr_email u),
     out_name = usr_name u, out_role = usr_role u, out_is_active = usr_is_active u,
     out_created_at = usr_created_at u, out_updated_at = usr_updated_at u\<rparr>"

subsection \<open>RegisterUser\<close>

definition register_check ::
  "(nat \<Rightarrow> nat) \<Rightarrow> 'r user_repository \<Rightarrow> register_input \<Rightarrow> ('r, 't, 'a) world \<Rightarrow>
   (error + email) \<times> ('r, 't, 'a) world" where
  "register_check lo R inp w =
    (case validate_password (reg_password inp) of
       Inl e \<Rightarrow> (Inl e, w)
     | Inr _ \<Rightarrow>
        (case new_email lo (reg_email inp) of
           Inl e \<Rightarrow> (Inl e, w)
         | Inr em \<Rightarrow>
            (case user_by_email R em w of
               (Inr (Some existing), w) \<Rightarrow> (Inl ErrEmailAlreadyExists, w)
             | (Inr None, w) \<Rightarrow> (Inr em, w)
             | (Inl e, w) \<Rightarrow> if e \<noteq> ErrUserNotFound then (Inl e, w) else (Inr em, w))))"

definition register_store ::
  "'r user_repository \<Rightarrow> password_hasher \<Rightarrow> register_input \<Rightarrow> email \<Rightarrow> ('r, 't, 'a) world \<Rightarrow>
   (error + addr) \<times> ('r, 't, 'a) world" where
  "register_store R H inp em w =
    try_do (on_gen (Hash H (reg_password inp)) w) (\<lambda>hash w.
    try_do (on_gen (new_user em hash (reg_name inp) RoleOwner) w) (\<lambda>u w.
      case alloc_user u w of (candidate, w) \<Rightarrow>
    try_do (on_repo (SaveFirstOwner R candidate) w) (\<lambda>claimed w.
      if claimed then (Inr candidate, w)
      else
        try_do (on_gen (new_user em hash (reg_name inp) RoleUser) w) (\<lambda>u w.
          case alloc_user u w of (user, w) \<Rightarrow>
        try_do (on_repo (Save R user) w) (\<lambda>_ w. (Inr user, w))))))"

definition register_finish ::
  "'t token_service \<Rightarrow> 'a audit_port \<Rightarrow> addr \<Rightarrow> ('r, 't, 'a) world \<Rightarrow>
   (error + auth_output) \<times> ('r, 't, 'a) world" where
  "register_finish T A user w =
    (let u = user_at user w in
     try_do (on_tokens (GeneratePair T (user_key u) (usr_role u)) w) (\<lambda>pair w.
       (Inr (auth_output_of pair u),
        record_audit A AuditEventUserRegistered (Some (user_key u)) None
          (''user registered with role '' @ usr_role u) w)))"

definition register_execute ::
  "(nat \<Rightarrow> nat) \<Rightarrow> 'r user_repository \<Rightarrow> password_hasher \<Rightarrow> 't token_service \<Rightarrow> 'a audit_port \<Rightarrow>
   register_input \<Rightarrow> ('r, 't, 'a) world \<Rightarrow> (error + auth_output) \<times> ('r, 't, 'a) world" where
  "register_execute lo R H T A inp w =
    try_do (register_check lo R inp w) (\<lambda>em w.
    try_do (register_store R H inp em w) (\<lambda>user w.
    register_finish T A user w))"

subsection \<open>LoginUser\<close>

definition login_execute ::
  "(nat \<Rightarrow> nat) \<Rightarrow> 'r user_repository \<Rightarrow> password_hasher \<Rightarrow> 't token_service \<Rightarrow> 'a audit_port \<Rightarrow>
   login_input \<Rightarrow> ('r, 't, 'a) world \<Rightarrow> (error + auth_output) \<times> ('r, 't, 'a) world" where
  "login_execute lo R H T A inp w =
    (case new_email lo (login_email inp) of
       Inl e \<Rightarrow> (Inl ErrInvalidCredentials,
                 record_audit A AuditEventLoginFailed None None ''malformed email'' w)
     | Inr em \<Rightarrow>
        (case user_by_email R em w of
           (Inl e, w) \<Rightarrow>
              if e = RuntimePanic then (Inl RuntimePanic, w)
              else (Inl ErrInvalidCredentials,
                 record_audit A AuditEventLoginFailed None None ''no account for email'' w)
         | (Inr None, w) \<Rightarrow> (Inl RuntimePanic, w)
         | (Inr (Some a), w) \<Rightarrow>
            (let u = user_at a w in
             if \<not> usr_is_active u then
               (Inl ErrAccountInactive,
                record_audit A AuditEventLoginFailed (Some (user_key u)) None ''account inactive'' w)
             else if Verify H (login_password inp) (usr_password_hash u) = Inl RuntimePanic then
               (Inl RuntimePanic, w)
             else if Verify H (login_password inp) (usr_password_hash u) \<noteq> Inr True then
               (Inl ErrInvalidCredentials,
                record_audit A AuditEventLoginFailed (Some (user_key u)) None ''invalid password'' w)
             else
               try_do (on_tokens (GeneratePair T (user_key u) (usr_role u)) w) (\<lambda>pair w.
                 (Inr (auth_output_of pair u),
                  record_audit A AuditEventLoginSucceeded (Some (user_key u)) None ''login succeeded'' w)))))"

subsection \<open>RefreshToken\<close>

definition refresh_execute ::
  "'r user_repository \<Rightarrow> 't token_service \<Rightarrow> 'a audit_port \<Rightarrow> refresh_input \<Rightarrow> ('r, 't, 'a) world \<Rightarrow>
   (error + auth_output) \<times> ('r, 't, 'a) world" where
  "refresh_execute R T A inp w =
    (case on_tokens (RedeemRefreshToken T (in_refresh_token inp)) w of
       (Inl e, w) \<Rightarrow> (Inl ErrInvalidCredentials, w)
     | (Inr redemption, w) \<Rightarrow>
        (case outcome redemption of
           RedemptionReused \<Rightarrow>
             (case on_tokens (RevokeAllRefreshTokens T (red_user_id redemption)) w of
                (ignored, w) \<Rightarrow>
                  (Inl ErrInvalidCredentials,
                   record_audit A AuditEventRefreshTokenReuseDetected (Some (red_user_id redemption)) None
                     ''refresh token reuse detected; all sessions revoked'' w))
         | RedemptionInvalid \<Rightarrow> (Inl ErrInvalidCredentials, w)
         | RedemptionOK \<Rightarrow>
             (case on_repo (FindByID R (red_user_id redemption)) w of
                (Inl e, w) \<Rightarrow> (Inl ErrUserNotFound, w)
              | (Inr a, w) \<Rightarrow>
                 (let u = user_at a w in
                  if \<not> usr_is_active u then (Inl ErrAccountInactive, w)
                  else case on_tokens (GeneratePair T (red_user_id redemption) (usr_role u)) w of
                      (Inl e, w) \<Rightarrow> (Inl ErrInvalidCredentials, w)
                    | (Inr pair, w) \<Rightarrow>
                       (Inr (auth_output_of pair u),
                        record_audit A AuditEventTokenRefreshed (Some (red_user_id redemption)) None
                          ''refresh token rotated'' w)))))"

subsection \<open>GetUser and ListUsers\<close>

definition get_user_execute ::
  "'r user_repository \<Rightarrow> uuid \<Rightarrow> role \<Rightarrow> uuid \<Rightarrow> ('r, 't, 'a) world \<Rightarrow>
   (error + user_output) \<times> ('r, 't, 'a) world" where
  "get_user_execute R caller_id caller_role target_id w =
    (if caller_id \<noteq> target_id \<and> \<not> can_manage_roles caller_role then (Inl ErrInsufficientPerms, w)
     else try_do (on_repo (FindByID R target_id) w) (\<lambda>a w. (Inr (user_output_of (user_at a w)), w)))"

definition default_page_size :: "32 word" where "default_page_size = 20"
definition max_page_size :: "32 word" where "max_page_size = 100"

definition page_of :: "list_users_input \<Rightarrow> 32 word" where
  "page_of inp = (if in_page inp <s 1 then 1 else in_page inp)"

definition page_size_of :: "list_users_input \<Rightarrow> 32 word" where
  "page_size_of inp =
    (if in_page_size inp <s 1 then default_page_size
     else if max_page_size <s in_page_size inp then max_page_size
     else in_page_size inp)"

definition total_pages_of :: "int \<Rightarrow> 32 word \<Rightarrow> 32 word" where
  "total_pages_of n page_size =
    (if 0 < n then word_of_int ((n - 1) div sint page_size + 1) else 0)"

definition list_users_execute ::
  "'r user_repository \<Rightarrow> role \<Rightarrow> list_users_input \<Rightarrow> ('r, 't, 'a) world \<Rightarrow>
   (error + list_users_output) \<times> ('r, 't, 'a) world" where
  "list_users_execute R caller_role inp w =
    (if \<not> can_manage_roles caller_role then (Inl ErrInsufficientPerms, w)
     else
       (let page = page_of inp; page_size = page_size_of inp;
            offset = wrap64 (sint (page - 1) * sint page_size)
        in try_do (on_repo (FindPaginated R offset (sint page_size)) w) (\<lambda>(users, n) w.
             (Inr \<lparr>list_items = map (\<lambda>a. user_output_of (user_at a w)) users,
                   list_pagination = \<lparr>pg_page = page, pg_page_size = page_size,
                     pg_total_items = n, pg_total_pages = total_pages_of n page_size\<rparr>\<rparr>, w))))"

subsection \<open>UpdateProfile, ChangePassword and ChangeUserRole\<close>

definition update_profile_execute ::
  "'r user_repository \<Rightarrow> uuid \<Rightarrow> string \<Rightarrow> ('r, 't, 'a) world \<Rightarrow>
   (error + user_output) \<times> ('r, 't, 'a) world" where
  "update_profile_execute R i name w =
    try_do (on_repo (FindByID R i) w) (\<lambda>a w.
    try_do (on_gen (update_name name (user_at a w)) w) (\<lambda>u w.
      let w = set_user a u w in
    try_do (on_repo (Save R a) w) (\<lambda>_ w. (Inr (user_output_of (user_at a w)), w))))"

definition change_password_execute ::
  "'r user_repository \<Rightarrow> password_hasher \<Rightarrow> 'a audit_port \<Rightarrow> uuid \<Rightarrow> change_password_input \<Rightarrow>
   ('r, 't, 'a) world \<Rightarrow> (error + unit) \<times> ('r, 't, 'a) world" where
  "change_password_execute R H A i inp w =
    (case validate_password (new_password inp) of
       Inl e \<Rightarrow> (Inl e, w)
     | Inr _ \<Rightarrow>
        try_do (on_repo (FindByID R i) w) (\<lambda>a w.
          if Verify H (current_password inp) (usr_password_hash (user_at a w)) = Inl RuntimePanic
          then (Inl RuntimePanic, w)
          else if Verify H (current_password inp) (usr_password_hash (user_at a w)) \<noteq> Inr True
          then (Inl ErrInvalidCredentials, w)
          else
            try_do (on_gen (Hash H (new_password inp)) w) (\<lambda>new_hash w.
              case on_gen (update_password new_hash (user_at a w)) w of (u, w) \<Rightarrow>
              let w = set_user a u w in
            try_do (on_repo (Save R a) w) (\<lambda>_ w.
              (Inr (), record_audit A AuditEventPasswordChanged (Some i) (Some i) ''password changed'' w)))))"

definition change_role_execute ::
  "'r user_repository \<Rightarrow> 'a audit_port \<Rightarrow> uuid \<Rightarrow> uuid \<Rightarrow> role \<Rightarrow>
   ('r, 't, 'a) world \<Rightarrow> (error + user_output) \<times> ('r, 't, 'a) world" where
  "change_role_execute R A actor_id target_id new_role w =
    try_do (on_repo (FindByID R actor_id) w) (\<lambda>actor w.
    try_do (on_repo (FindByID R target_id) w) (\<lambda>target w.
      let previous_role = usr_role (user_at target w) in
    try_do (on_gen (change_role new_role (user_at actor w) (user_at target w)) w) (\<lambda>u w.
      let w = set_user target u w in
    try_do (on_repo (Save R target) w) (\<lambda>_ w.
      let u = user_at target w in
      (Inr (user_output_of u),
       record_audit A AuditEventRoleChanged (Some actor_id) (Some target_id)
         (''role changed from '' @ previous_role @ '' to '' @ usr_role u) w)))))"

end
