(* ===== verification/Application.thy ===== *)
theory Application
  imports UseCases
begin

section \<open>The application layer as a state machine\<close>

text \<open>
  The use cases over any adapters that keep the contracts of \<open>Ports\<close>. \<open>app_inv\<close> joins the
  representation invariants of the repository and the token service with the fact that every
  stored id was drawn from the UUID source; \<open>evolves\<close> is what every step guarantees: the
  invariant again and, as long as no UUID was drawn twice, no spent refresh token revived and an
  owner if there was one.
  \<open>app_step\<close> is one request, run to its end, or a change of the environment between two.
\<close>

definition ids_issued :: "(uuid \<Rightarrow> user option) \<Rightarrow> gen \<Rightarrow> bool" where
  "ids_issued m g \<longleftrightarrow> (\<forall>i \<in> dom m. \<exists>n < uuid_pos g. i = uuid_source g n)"

abbreviation stored ::
  "(heap \<times> 'r \<Rightarrow> uuid \<Rightarrow> user option) \<Rightarrow> ('r, 't, 'a) world \<Rightarrow> uuid \<Rightarrow> user option" where
  "stored view w \<equiv> view (objects w, repo w)"

definition app_inv ::
  "(heap \<times> 'r \<Rightarrow> bool) \<Rightarrow> (heap \<times> 'r \<Rightarrow> uuid \<Rightarrow> user option) \<Rightarrow> (gen \<times> 't \<Rightarrow> bool) \<Rightarrow>
   ('r, 't, 'a) world \<Rightarrow> bool" where
  "app_inv rinv view tinv w \<longleftrightarrow> rinv (objects w, repo w) \<and> tinv (sources w, tokens w) \<and>
     ids_issued (stored view w) (sources w)"

definition evolves ::
  "(heap \<times> 'r \<Rightarrow> bool) \<Rightarrow> (heap \<times> 'r \<Rightarrow> uuid \<Rightarrow> user option) \<Rightarrow> (gen \<times> 't \<Rightarrow> bool) \<Rightarrow>
   (gen \<times> 't \<Rightarrow> string \<Rightarrow> bool) \<Rightarrow> ('r, 't, 'a) world \<Rightarrow> ('r, 't, 'a) world \<Rightarrow> bool" where
  "evolves rinv view tinv spent w w' \<longleftrightarrow> app_inv rinv view tinv w' \<and>
     gen_later (sources w) (sources w') \<and>
     (distinct_draws (sources w') \<longrightarrow>
        (\<forall>tok. spent (sources w, tokens w) tok \<longrightarrow> spent (sources w', tokens w') tok) \<and>
        (has_owner (stored view w) \<longrightarrow> has_owner (stored view w')))"

lemma evolves_refl: "app_inv rinv view tinv w \<Longrightarrow> evolves rinv view tinv spent w w"
  by (simp add: evolves_def)

lemma evolves_trans:
  "evolves rinv view tinv spent w w' \<Longrightarrow> evolves rinv view tinv spent w' w'' \<Longrightarrow>
   evolves rinv view tinv spent w w''"
  unfolding evolves_def using gen_later_trans distinct_draws_earlier by blast

lemma evolves_inv: "evolves rinv view tinv spent w w' \<Longrightarrow> app_inv rinv view tinv w'"
  by (simp add: evolves_def)

lemma evolves_distinct:
  "evolves rinv view tinv spent w w' \<Longrightarrow> distinct_draws (sources w') \<Longrightarrow> distinct_draws (sources w)"
  unfolding evolves_def using distinct_draws_earlier by blast

lemma evolves_spent:
  "evolves rinv view tinv spent w w' \<Longrightarrow> distinct_draws (sources w') \<Longrightarrow>
   spent (sources w, tokens w) tok \<Longrightarrow> spent (sources w', tokens w') tok"
  unfolding evolves_def by blast

lemma ids_issuedD: "ids_issued m g \<Longrightarrow> m i = Some u \<Longrightarrow> \<exists>n < uuid_pos g. i = uuid_source g n"
  by (auto simp: ids_issued_def)

lemma ids_issued_later: "ids_issued m g \<Longrightarrow> gen_later g g' \<Longrightarrow> ids_issued m g'"
  unfolding ids_issued_def gen_later_def using order_less_le_trans by metis

lemma ids_issued_fresh:
  assumes "ids_issued m g" "gen_later g g'" "distinct_draws g'" "uuid_pos g \<le> n" "n < uuid_pos g'"
  shows "m (uuid_source g n) = None"
proof (rule ccontr)
  assume "m (uuid_source g n) \<noteq> None"
  then obtain k where k: "k < uuid_pos g" "uuid_source g n = uuid_source g k"
    using ids_issuedD [OF assms(1)] by blast
  then have "n = k"
    using distinct_draws_eq [OF assms(3), of n k] assms(2,5) by (simp add: gen_later_def)
  then show False using k(1) assms(4) by simp
qed

lemma written_other: "written m u m' \<Longrightarrow> i \<noteq> user_key u \<Longrightarrow> m' i = m i"
  by (auto simp: written_def)

lemma written_new_le: "written m u m' \<Longrightarrow> m (user_key u) = None \<Longrightarrow> m \<subseteq>\<^sub>m m'"
  by (auto simp: written_def map_le_def)

lemma written_or_same:
  "written m u m' \<or> P \<and> m' = m \<Longrightarrow> user_key u = i \<Longrightarrow> \<forall>j. j \<noteq> i \<longrightarrow> m' j = m j"
  by (auto simp: written_other)

lemma written_self:
  assumes "written m u m'"
  obtains u' where "m' (user_key u) = Some u'" "content u' = content u"
  using assms by (auto simp: written_def)

lemma ids_issued_written:
  assumes "ids_issued m g" "written m u m'" "n < uuid_pos g" "user_key u = uuid_source g n"
  shows "ids_issued m' g"
proof -
  have "dom m' \<subseteq> insert (user_key u) (dom m)" using assms(2) by (auto simp: written_def)
  then show ?thesis using assms(1,3,4) by (auto simp: ids_issued_def)
qed

lemma ids_issued_rewritten:
  assumes "ids_issued m g" "written m u m'" "m (user_key u) = Some v"
  shows "ids_issued m' g"
proof -
  have "dom m' = insert (user_key u) (dom m)" using assms(2) by (auto simp: written_def)
  then have "dom m' = dom m" using assms(3) by auto
  then show ?thesis using assms(1) by (simp add: ids_issued_def)
qed

lemma has_ownerI: "m i = Some u \<Longrightarrow> usr_role u = RoleOwner \<Longrightarrow> has_owner m"
  by (auto simp: has_owner_def)

lemma has_owner_written_other:
  "written m u m' \<Longrightarrow> m i = Some v \<Longrightarrow> usr_role v = RoleOwner \<Longrightarrow> i \<noteq> user_key u \<Longrightarrow> has_owner m'"
  using written_other has_ownerI by metis

lemma has_owner_written_new:
  assumes "has_owner m" "written m u m'" "m (user_key u) = None"
  shows "has_owner m'"
proof -
  obtain i v where "m i = Some v" "usr_role v = RoleOwner" using assms(1) by (auto simp: has_owner_def)
  then show ?thesis using has_owner_written_other [OF assms(2)] assms(3) by fastforce
qed

lemma has_owner_written_same:
  assumes "has_owner m" "written m u m'" "m (user_key u) = Some v" "usr_role v = usr_role u"
  shows "has_owner m'"
proof -
  obtain i x where x: "m i = Some x" "usr_role x = RoleOwner" using assms(1) by (auto simp: has_owner_def)
  obtain u' where u': "m' (user_key u) = Some u'" "usr_role u' = usr_role u"
    using written_self [OF assms(2)] by (metis content_eq)
  show ?thesis
  proof (cases "i = user_key u")
    case True
    then have "x = v" using x assms(3) by simp
    then show ?thesis using has_ownerI [of m' "user_key u" u'] u' assms(4) x(2) by simp
  next
    case False
    then show ?thesis using has_owner_written_other [OF assms(2) x] by blast
  qed
qed

text \<open>A collection \<open>m\<close> for which the repository answered that the owner's place is taken.\<close>

definition owner_refused ::
  "(heap \<times> 'r \<Rightarrow> bool) \<Rightarrow> (heap \<times> 'r \<Rightarrow> uuid \<Rightarrow> user option) \<Rightarrow> 'r user_repository \<Rightarrow>
   (uuid \<Rightarrow> user option) \<Rightarrow> bool" where
  "owner_refused rinv view R m \<longleftrightarrow>
     (\<exists>S a S'. rinv S \<and> view S = m \<and> SaveFirstOwner R a S = (Inr False, S'))"

lemma gen_later_new_user: "new_user em h n r g = (x, g') \<Longrightarrow> gen_later g g'"
  by (auto simp: new_user_def time_now_def new_user_id_def uuid_new_def gen_later_def split: sum.splits)

lemma gen_later_update_name: "update_name n u g = (x, g') \<Longrightarrow> gen_later g g'"
  by (auto simp: update_name_def time_now_def gen_later_def split: sum.splits)

lemma gen_later_update_password: "update_password h u g = (u', g') \<Longrightarrow> gen_later g g'"
  by (auto simp: update_password_def time_now_def gen_later_def)

lemma gen_later_change_role: "change_role r actor u g = (x, g') \<Longrightarrow> gen_later g g'"
  by (auto simp: change_role_def time_now_def gen_later_def split: if_splits)

lemma gen_later_new_audit_event: "new_audit_event ty ac ta d g = (e, g') \<Longrightarrow> gen_later g g'"
  by (auto simp: new_audit_event_def time_now_def uuid_new_def gen_later_def)

lemmas gen_later_domain = gen_later_new_user gen_later_update_name gen_later_update_password
  gen_later_change_role gen_later_new_audit_event

subsection \<open>One step of any adapter\<close>

locale application = user_store R lo rinv view + single_use_tokens T tinv spent env + hasher H
  for R :: "'r user_repository" and lo :: "nat \<Rightarrow> nat"
    and rinv :: "heap \<times> 'r \<Rightarrow> bool" and view :: "heap \<times> 'r \<Rightarrow> uuid \<Rightarrow> user option"
    and T :: "'t token_service" and tinv :: "gen \<times> 't \<Rightarrow> bool"
    and spent :: "gen \<times> 't \<Rightarrow> string \<Rightarrow> bool" and env :: "'t \<Rightarrow> 't \<Rightarrow> bool"
    and H :: password_hasher

context application
begin

lemma find_by_id_step:
  assumes "app_inv rinv view tinv w" "on_repo (FindByID R i) w = (x, w')"
  shows "evolves rinv view tinv spent w w' \<and> stored view w' = stored view w \<and>
    (\<exists>ext. objects w' = objects w @ ext) \<and> sources w' = sources w \<and> tokens w' = tokens w \<and> audit w' = audit w \<and>
    (case x of Inr a \<Rightarrow> a < length (objects w') \<and> stored view w i = Some (user_at a w') \<and>
                  user_key (user_at a w') = i \<and> canonical_email lo (usr_email (user_at a w'))
     | Inl e \<Rightarrow> e = ErrUserNotFound \<longrightarrow> stored view w i = None)"
proof -
  obtain h r where c: "FindByID R i (objects w, repo w) = (x, h, r)" "w' = w\<lparr>objects := h, repo := r\<rparr>"
    using assms(2) by (auto simp: on_repo_eq)
  have i: "rinv (objects w, repo w)" using assms(1) by (simp add: app_inv_def)
  show ?thesis
    using find_by_id_law [OF i c(1)] view_key [OF i] assms(1) c(2)
    by (auto simp: evolves_def app_inv_def user_at_def split: sum.splits)
qed

lemma find_by_email_step:
  assumes "app_inv rinv view tinv w" "on_repo (FindByEmail R em) w = (x, w')"
  shows "evolves rinv view tinv spent w w' \<and> stored view w' = stored view w \<and>
    sources w' = sources w \<and> tokens w' = tokens w \<and> audit w' = audit w \<and>
    (case x of Inr a \<Rightarrow> a < length (objects w') \<and> usr_email (user_at a w') = em \<and>
                  stored view w (user_key (user_at a w')) = Some (user_at a w')
     | Inl e \<Rightarrow> e = ErrUserNotFound \<longrightarrow> (\<forall>i u. stored view w i = Some u \<longrightarrow> usr_email u \<noteq> em))"
proof -
  obtain h r where c: "FindByEmail R em (objects w, repo w) = (x, h, r)" "w' = w\<lparr>objects := h, repo := r\<rparr>"
    using assms(2) by (auto simp: on_repo_eq)
  have i: "rinv (objects w, repo w)" using assms(1) by (simp add: app_inv_def)
  show ?thesis
    using find_by_email_law [OF i c(1)] assms(1) c(2)
    by (auto simp: evolves_def app_inv_def user_at_def split: sum.splits)
qed

lemma user_by_email_step:
  assumes "app_inv rinv view tinv w" "user_by_email R em w = (x, w')"
  shows "evolves rinv view tinv spent w w' \<and> stored view w' = stored view w \<and>
    sources w' = sources w \<and> tokens w' = tokens w \<and> audit w' = audit w \<and>
    (case x of Inr (Some a) \<Rightarrow> a < length (objects w') \<and> usr_email (user_at a w') = em \<and>
                  stored view w (user_key (user_at a w')) = Some (user_at a w')
     | Inr None \<Rightarrow> False
     | Inl e \<Rightarrow> e = ErrUserNotFound \<longrightarrow> (\<forall>i u. stored view w i = Some u \<longrightarrow> usr_email u \<noteq> em))"
proof -
  obtain y w1 where f: "on_repo (FindByEmail R em) w = (y, w1)" by fastforce
  show ?thesis using assms(2) f find_by_email_step [OF assms(1) f]
    by (auto simp: user_by_email_def split: sum.splits)
qed

lemma find_paginated_step:
  assumes "app_inv rinv view tinv w" "on_repo (FindPaginated R off lim) w = (x, w')"
  shows "evolves rinv view tinv spent w w' \<and> stored view w' = stored view w"
proof -
  obtain h r where c: "FindPaginated R off lim (objects w, repo w) = (x, h, r)" "w' = w\<lparr>objects := h, repo := r\<rparr>"
    using assms(2) by (auto simp: on_repo_eq)
  have i: "rinv (objects w, repo w)" using assms(1) by (simp add: app_inv_def)
  show ?thesis
    using find_paginated_law [OF i c(1)] assms(1) c(2) by (auto simp: evolves_def app_inv_def)
qed

lemma gen_step:
  assumes "app_inv rinv view tinv w" "gen_later (sources w) g"
  shows "evolves rinv view tinv spent w (w\<lparr>sources := g\<rparr>)"
  using assms later_law [OF _ assms(2)] ids_issued_later [OF _ assms(2)]
  by (auto simp: evolves_def app_inv_def)

lemma on_gen_step:
  assumes "app_inv rinv view tinv w" "on_gen f w = (x, w')"
    "\<And>x g'. f (sources w) = (x, g') \<Longrightarrow> gen_later (sources w) g'"
  shows "evolves rinv view tinv spent w w' \<and> objects w' = objects w \<and> repo w' = repo w \<and>
    tokens w' = tokens w \<and> audit w' = audit w"
  using assms(2,3) gen_step [OF assms(1)] by (auto simp: on_gen_eq)

lemma audit_step:
  assumes "app_inv rinv view tinv w"
  shows "evolves rinv view tinv spent w (record_audit A ty ac ta d w)"
proof -
  obtain ev g where e: "new_audit_event ty ac ta d (sources w) = (ev, g)" by fastforce
  have "evolves rinv view tinv spent w (w\<lparr>sources := g\<rparr>)"
    using gen_step [OF assms] gen_later_new_audit_event [OF e] by blast
  then show ?thesis using e by (simp add: record_audit_def on_gen_def evolves_def app_inv_def)
qed

lemma token_step:
  assumes "app_inv rinv view tinv w" "on_tokens f w = (x, w')"
    "\<And>x s' tok. f (sources w, tokens w) = (x, s') \<Longrightarrow>
      tinv s' \<and> gen_later (sources w) (fst s') \<and>
      (spent (sources w, tokens w) tok \<longrightarrow> distinct_draws (fst s') \<longrightarrow> spent s' tok)"
  shows "evolves rinv view tinv spent w w' \<and> objects w' = objects w \<and> repo w' = repo w \<and> audit w' = audit w"
  using assms ids_issued_later by (fastforce simp: on_tokens_eq evolves_def app_inv_def)

lemma generate_step:
  assumes "app_inv rinv view tinv w" "on_tokens (GeneratePair T uid r) w = (x, w')"
  shows "evolves rinv view tinv spent w w' \<and> objects w' = objects w \<and> repo w' = repo w \<and> audit w' = audit w"
proof (rule token_step [OF assms])
  have "tinv (sources w, tokens w)" using assms(1) by (simp add: app_inv_def)
  then show "tinv s' \<and> gen_later (sources w) (fst s') \<and>
      (spent (sources w, tokens w) tok \<longrightarrow> distinct_draws (fst s') \<longrightarrow> spent s' tok)"
    if "GeneratePair T uid r (sources w, tokens w) = (y, s')" for y s' tok
    using generate_law that by fastforce
qed

lemma redeem_step:
  assumes "app_inv rinv view tinv w" "on_tokens (RedeemRefreshToken T tok) w = (x, w')"
  shows "evolves rinv view tinv spent w w' \<and> objects w' = objects w \<and> repo w' = repo w \<and> audit w' = audit w"
    and "x = Inr res \<Longrightarrow> outcome res = RedemptionOK \<Longrightarrow> distinct_draws (sources w') \<Longrightarrow>
      \<not> spent (sources w, tokens w) tok \<and> spent (sources w', tokens w') tok"
proof -
  have t: "tinv (sources w, tokens w)" using assms(1) by (simp add: app_inv_def)
  show "evolves rinv view tinv spent w w' \<and> objects w' = objects w \<and> repo w' = repo w \<and> audit w' = audit w"
    by (rule token_step [OF assms]) (use redeem_law [OF t] in fastforce)
  show "\<not> spent (sources w, tokens w) tok \<and> spent (sources w', tokens w') tok"
    if "x = Inr res" "outcome res = RedemptionOK" "distinct_draws (sources w')"
    using assms(2) redeem_law [OF t] that by (fastforce simp: on_tokens_eq)
qed

lemma revoke_all_step:
  assumes "app_inv rinv view tinv w" "on_tokens (RevokeAllRefreshTokens T uid) w = (x, w')"
  shows "evolves rinv view tinv spent w w' \<and> objects w' = objects w \<and> repo w' = repo w \<and> audit w' = audit w"
proof (rule token_step [OF assms])
  have "tinv (sources w, tokens w)" using assms(1) by (simp add: app_inv_def)
  then show "tinv s' \<and> gen_later (sources w) (fst s') \<and>
      (spent (sources w, tokens w) tok \<longrightarrow> distinct_draws (fst s') \<longrightarrow> spent s' tok)"
    if "RevokeAllRefreshTokens T uid (sources w, tokens w) = (y, s')" for y s' tok
    using revoke_all_law that by fastforce
qed

lemma alloc_step:
  assumes "app_inv rinv view tinv w" "alloc_user u w = (a, w')"
  shows "evolves rinv view tinv spent w w' \<and> stored view w' = stored view w \<and> sources w' = sources w \<and>
    tokens w' = tokens w \<and> audit w' = audit w \<and> a < length (objects w') \<and> user_at a w' = u"
proof -
  have "a = length (objects w)" "w' = w\<lparr>objects := objects w @ [u]\<rparr>"
    using assms(2) by (auto simp: alloc_user_eq)
  then show ?thesis
    using assms(1) alloc_law [of "objects w" "repo w" "[u]"]
    by (simp add: evolves_def app_inv_def user_at_def)
qed

end

subsection \<open>Every use case evolves the world\<close>

context application
begin

lemma save_step:
  assumes "app_inv rinv view tinv w" "a < length (objects w)" "usr_id u = usr_id (user_at a w)"
    "canonical_email lo (usr_email u)" "on_repo (Save R a) (set_user a u w) = (x, w')"
  shows "rinv (objects w', repo w') \<and> objects w' = (objects w)[a := u] \<and> tokens w' = tokens w \<and>
    sources w' = sources w \<and> audit w' = audit w \<and>
    (written (stored view w) u (stored view w') \<or> is_err x \<and> stored view w' = stored view w)"
proof -
  obtain h r where c: "Save R a ((objects w)[a := u], repo w) = (x, h, r)"
    "w' = set_user a u w\<lparr>objects := h, repo := r\<rparr>"
    using assms(5) by (auto simp: on_repo_eq)
  have i: "rinv (objects w, repo w)" using assms(1) by (simp add: app_inv_def)
  show ?thesis
    using save_law [OF i assms(2) _ assms(4) c(1)] assms(3) c(2) by (auto simp: user_at_def)
qed

lemma rewrite_step:
  assumes "app_inv rinv view tinv w" "a < length (objects w)" "usr_id u = usr_id (user_at a w)"
    "canonical_email lo (usr_email u)" "on_repo (Save R a) (set_user a u w) = (x, w')"
    "stored view w (user_key u) = Some v"
    "usr_role v = usr_role u \<or> (\<exists>i v. stored view w i = Some v \<and> usr_role v = RoleOwner \<and> i \<noteq> user_key u)"
  shows "evolves rinv view tinv spent w w'"
proof -
  note s = save_step [OF assms(1-5)]
  have ids: "ids_issued (stored view w) (sources w)" and t: "tinv (sources w, tokens w)"
    using assms(1) by (simp_all add: app_inv_def)
  show ?thesis
  proof (cases "stored view w' = stored view w")
    case True
    then show ?thesis using s ids t unfolding evolves_def app_inv_def by auto
  next
    case False
    then have wr: "written (stored view w) u (stored view w')" using s by auto
    have "has_owner (stored view w')" if "has_owner (stored view w)"
      using assms(7) has_owner_written_same [OF that wr assms(6)] has_owner_written_other [OF wr] by blast
    then show ?thesis using s t ids_issued_rewritten [OF ids wr assms(6)]
      unfolding evolves_def app_inv_def by auto
  qed
qed

lemma insert_step:
  assumes "app_inv rinv view tinv w" "distinct_draws (sources w) \<longrightarrow> stored view w (user_key u) = None"
    "user_key u = uuid_source (sources w) n" "n < uuid_pos (sources w)"
    "rinv (objects w', repo w')" "tokens w' = tokens w" "sources w' = sources w"
    "written (stored view w) u (stored view w') \<or> stored view w' = stored view w"
  shows "evolves rinv view tinv spent w w'"
  using assms(8)
proof
  assume wr: "written (stored view w) u (stored view w')"
  have "ids_issued (stored view w') (sources w)"
    using ids_issued_written [OF _ wr assms(4,3)] assms(1) by (simp add: app_inv_def)
  then show ?thesis
    using has_owner_written_new [OF _ wr] assms by (auto simp: evolves_def app_inv_def)
qed (use assms in \<open>simp add: evolves_def app_inv_def\<close>)

lemma new_user_step:
  assumes "app_inv rinv view tinv w" "on_gen (new_user em hash name role) w = (Inr u, w')"
  shows "evolves rinv view tinv spent w w' \<and> objects w' = objects w \<and> repo w' = repo w \<and> tokens w' = tokens w \<and>
    audit w' = audit w \<and> user_key u = uuid_source (sources w') (uuid_pos (sources w)) \<and>
    uuid_pos (sources w) < uuid_pos (sources w') \<and>
    (distinct_draws (sources w') \<longrightarrow> stored view w (user_key u) = None) \<and>
    usr_email u = em \<and> usr_role u = role \<and> usr_name u = trim_space name \<and> usr_password_hash u = hash \<and>
    usr_is_active u"
proof -
  obtain g where g: "new_user em hash name role (sources w) = (Inr u, g)" "w' = w\<lparr>sources := g\<rparr>"
    using assms(2) by (auto simp: on_gen_eq)
  have "uuid_source g = uuid_source (sources w)" "uuid_pos g = Suc (uuid_pos (sources w))"
    using g(1) by (auto simp: new_user_def time_now_def new_user_id_def uuid_new_def split: sum.splits)
  moreover have "distinct_draws g \<longrightarrow> stored view w (uuid_source (sources w) (uuid_pos (sources w))) = None"
    using ids_issued_fresh [of "stored view w" "sources w" g "uuid_pos (sources w)"] assms(1)
      gen_later_new_user [OF g(1)] calculation by (simp add: app_inv_def)
  ultimately show ?thesis
    using new_user_Inr [OF g(1)] gen_step [OF assms(1)] gen_later_new_user [OF g(1)] g(2)
    by (simp add: user_key_def)
qed

lemma save_new_step:
  assumes "app_inv rinv view tinv w" "canonical_email lo em"
    "on_gen (new_user em hash name role) w = (Inr u, w1)" "alloc_user u w1 = (a, w2)"
    "on_repo (Save R a) w2 = (x, w3)"
  shows "evolves rinv view tinv spent w w3 \<and> sources w3 = sources w1 \<and> tokens w3 = tokens w \<and> audit w3 = audit w \<and>
    a < length (objects w3) \<and> user_at a w3 = u \<and>
    (distinct_draws (sources w1) \<longrightarrow> stored view w (user_key u) = None) \<and>
    (written (stored view w) u (stored view w3) \<or> is_err x \<and> stored view w3 = stored view w)"
proof -
  note n = new_user_step [OF assms(1,3)]
  have i1: "app_inv rinv view tinv w1" using n evolves_inv by blast
  note al = alloc_step [OF i1 assms(4)]
  have i2: "app_inv rinv view tinv w2" using al evolves_inv by blast
  have "set_user a u w2 = w2"
    using al by (metis set_user_def user_at_def list_update_id world.update_convs(1) world.surjective)
  then have s: "on_repo (Save R a) (set_user a u w2) = (x, w3)" using assms(5) by simp
  note sv = save_step [OF i2 _ _ _ s]
  have sv: "rinv (objects w3, repo w3) \<and> objects w3 = (objects w2)[a := u] \<and> tokens w3 = tokens w2 \<and>
    sources w3 = sources w2 \<and> audit w3 = audit w2 \<and>
    (written (stored view w2) u (stored view w3) \<or> is_err x \<and> stored view w3 = stored view w2)"
    by (rule sv) (use al n assms(2) in auto)
  have "evolves rinv view tinv spent w2 w3"
    by (rule insert_step [OF i2, of u "uuid_pos (sources w)"]) (use al n sv in auto)
  then have "evolves rinv view tinv spent w w3" using n al evolves_trans by blast
  then show ?thesis using al n sv by (auto simp: user_at_def)
qed

lemma save_first_owner_step:
  assumes "app_inv rinv view tinv w" "canonical_email lo em"
    "on_gen (new_user em hash name RoleOwner) w = (Inr u, w1)" "alloc_user u w1 = (a, w2)"
    "on_repo (SaveFirstOwner R a) w2 = (x, w3)"
  shows "evolves rinv view tinv spent w w3 \<and> sources w3 = sources w1 \<and> tokens w3 = tokens w \<and> audit w3 = audit w \<and>
    a < length (objects w3) \<and> user_at a w3 = u \<and>
    (distinct_draws (sources w1) \<longrightarrow> stored view w (user_key u) = None) \<and>
    (\<not> has_owner (stored view w) \<and> written (stored view w) u (stored view w3) \<and> x \<noteq> Inr False \<or>
       x \<noteq> Inr True \<and> stored view w3 = stored view w)"
proof -
  note n = new_user_step [OF assms(1,3)]
  have i1: "app_inv rinv view tinv w1" using n evolves_inv by blast
  note al = alloc_step [OF i1 assms(4)]
  have i2: "app_inv rinv view tinv w2" using al evolves_inv by blast
  obtain h r where c: "SaveFirstOwner R a (objects w2, repo w2) = (x, h, r)" "w3 = w2\<lparr>objects := h, repo := r\<rparr>"
    using assms(5) by (auto simp: on_repo_eq)
  have u: "objects w2 ! a = u" "a < length (objects w2)" using al by (auto simp: user_at_def)
  have "rinv (objects w2, repo w2)" using i2 by (simp add: app_inv_def)
  then have "h = objects w2 \<and> rinv (h, r) \<and>
    (\<not> has_owner (stored view w2) \<and> written (stored view w2) u (view (h, r)) \<and> x \<noteq> Inr False \<or>
       x \<noteq> Inr True \<and> view (h, r) = stored view w2)"
    using first_owner_law [OF _ u(2) _ _ c(1)] u n assms(2) by auto
  note f = this
  have "evolves rinv view tinv spent w2 w3"
    by (rule insert_step [OF i2, of u "uuid_pos (sources w)"]) (use al n f c(2) in auto)
  then have "evolves rinv view tinv spent w w3" using n al evolves_trans by blast
  then show ?thesis using al n f c(2) by (auto simp: user_at_def)
qed

end

context application
begin

lemma register_check_step:
  assumes "lower_laws lo" "app_inv rinv view tinv w" "register_check lo R inp w = (x, w')"
  shows "evolves rinv view tinv spent w w' \<and> stored view w' = stored view w \<and> sources w' = sources w \<and>
    tokens w' = tokens w \<and> audit w' = audit w \<and>
    (case x of Inr em \<Rightarrow> canonical_email lo em \<and> new_email lo (reg_email inp) = Inr em \<and>
        validate_password (reg_password inp) = Inr () \<and>
        (\<forall>i u. stored view w i = Some u \<longrightarrow> usr_email u \<noteq> em)
     | Inl e \<Rightarrow> True)"
proof -
  have "evolves rinv view tinv spent w w" using assms(2) by (rule evolves_refl)
  then show ?thesis
    using assms(3) new_email_canonical_aux [OF assms(1)]
    by (auto simp: register_check_def split: sum.splits prod.splits if_splits option.splits
        dest!: user_by_email_step [OF assms(2)]) blast
qed

text \<open>What a stored registration is: a user built from the input, newly written.\<close>


lemma register_store_step:
  assumes "app_inv rinv view tinv w" "canonical_email lo em" "register_store R H inp em w = (x, w')"
  shows "evolves rinv view tinv spent w w' \<and> tokens w' = tokens w \<and> audit w' = audit w \<and>
    (case x of Inr a \<Rightarrow> a < length (objects w') \<and>
        (distinct_draws (sources w') \<longrightarrow> stored view w (user_key (user_at a w')) = None) \<and>
        written (stored view w) (user_at a w') (stored view w') \<and> usr_email (user_at a w') = em \<and>
        usr_is_active (user_at a w') \<and> usr_name (user_at a w') = trim_space (reg_name inp) \<and>
        Verify H (reg_password inp) (usr_password_hash (user_at a w')) = Inr True \<and>
        (usr_role (user_at a w') = RoleOwner \<and> \<not> has_owner (stored view w) \<or>
         usr_role (user_at a w') = RoleUser \<and> owner_refused rinv view R (stored view w))
     | Inl e \<Rightarrow> distinct_draws (sources w') \<longrightarrow> stored view w \<subseteq>\<^sub>m stored view w')"
proof -
  obtain y w1 where h: "on_gen (Hash H (reg_password inp)) w = (y, w1)" by fastforce
  have s1: "evolves rinv view tinv spent w w1 \<and> objects w1 = objects w \<and> repo w1 = repo w \<and>
    tokens w1 = tokens w \<and> audit w1 = audit w"
    using on_gen_step [OF assms(1) h] hash_gen by blast
  show ?thesis
  proof (cases y)
    case (Inl e)
    then show ?thesis using assms(3) h s1 by (auto simp: register_store_def map_le_def)
  next
    case (Inr hash)
    have i1: "app_inv rinv view tinv w1" using s1 evolves_inv by blast
    have v: "Verify H (reg_password inp) hash = Inr True"
      using h Inr hash_verify by (auto simp: on_gen_eq)
    obtain z w2 where n: "on_gen (new_user em hash (reg_name inp) RoleOwner) w1 = (z, w2)" by fastforce
    show ?thesis
    proof (cases z)
      case (Inl e)
      have "evolves rinv view tinv spent w1 w2 \<and> objects w2 = objects w1 \<and> repo w2 = repo w1 \<and>
          tokens w2 = tokens w1 \<and> audit w2 = audit w1"
        using on_gen_step [OF i1 n] gen_later_new_user by blast
      then have "evolves rinv view tinv spent w w2 \<and> tokens w2 = tokens w \<and> audit w2 = audit w \<and>
          stored view w2 = stored view w"
        using s1 evolves_trans by metis
      then show ?thesis using assms(3) h n Inr Inl by (auto simp: register_store_def)
    next
      case (Inr u)
      obtain a w3 where al: "alloc_user u w2 = (a, w3)" by fastforce
      obtain c w4 where so: "on_repo (SaveFirstOwner R a) w3 = (c, w4)" by fastforce
      note n = n [unfolded Inr]
      note st = save_first_owner_step [OF i1 assms(2) n al so] new_user_step [OF i1 n]
      have e4: "evolves rinv view tinv spent w w4" using st s1 evolves_trans by blast
      show ?thesis
      proof (cases "c = Inr False")
        case False
        then have "x = (case c of Inr _ \<Rightarrow> Inr a | Inl e \<Rightarrow> Inl e) \<and> w' = w4"
          using assms(3) h n al so \<open>y = Inr hash\<close> by (auto simp: register_store_def split: sum.splits)
        moreover have "distinct_draws (sources w4) \<longrightarrow> stored view w \<subseteq>\<^sub>m stored view w4"
          using st s1 written_new_le by (auto simp: map_le_refl)
        ultimately show ?thesis using st s1 e4 v False by (auto split: sum.splits)
      next
        case True
        have st4: "stored view w4 = stored view w" using st s1 True by auto
        have i3: "app_inv rinv view tinv w3" "stored view w3 = stored view w"
          using alloc_step [OF evolves_inv [of rinv view tinv spent w1 w2] al] new_user_step [OF i1 n] s1
          by (auto simp: evolves_def)
        obtain h r where "SaveFirstOwner R a (objects w3, repo w3) = (Inr False, h, r)"
          using so True by (auto simp: on_repo_eq)
        then have refused: "owner_refused rinv view R (stored view w)"
          using i3 unfolding owner_refused_def app_inv_def by blast
        have i4: "app_inv rinv view tinv w4" using e4 evolves_inv by blast
        obtain z' w5 where n2: "on_gen (new_user em hash (reg_name inp) RoleUser) w4 = (z', w5)" by fastforce
        show ?thesis
        proof (cases z')
          case (Inl e)
          have "evolves rinv view tinv spent w4 w5 \<and> objects w5 = objects w4 \<and> repo w5 = repo w4 \<and>
              tokens w5 = tokens w4 \<and> audit w5 = audit w4"
            using on_gen_step [OF i4 n2] gen_later_new_user by blast
          then have "evolves rinv view tinv spent w w5 \<and> tokens w5 = tokens w \<and> audit w5 = audit w \<and>
              stored view w5 = stored view w"
            using st s1 e4 st4 evolves_trans by metis
          then show ?thesis
            using assms(3) h n al so n2 \<open>y = Inr hash\<close> True Inl by (auto simp: register_store_def)
        next
          case (Inr u2)
          obtain b w6 where al2: "alloc_user u2 w5 = (b, w6)" by fastforce
          obtain d w7 where sv: "on_repo (Save R b) w6 = (d, w7)" by fastforce
          note n2 = n2 [unfolded Inr]
          note st2 = save_new_step [OF i4 assms(2) n2 al2 sv] new_user_step [OF i4 n2]
          have "evolves rinv view tinv spent w w7" using st2 e4 evolves_trans by blast
          moreover have "x = (case d of Inr _ \<Rightarrow> Inr b | Inl e \<Rightarrow> Inl e) \<and> w' = w7"
            using assms(3) h n al so n2 al2 sv \<open>y = Inr hash\<close> True
            by (auto simp: register_store_def split: sum.splits)
          moreover have "distinct_draws (sources w7) \<longrightarrow> stored view w \<subseteq>\<^sub>m stored view w7"
            using st2 st4 written_new_le by (auto simp: map_le_refl)
          ultimately show ?thesis using st2 st s1 st4 v refused by (auto split: sum.splits)
        qed
      qed
    qed
  qed
qed

end

context application
begin

lemma audit_after:
  assumes "evolves rinv view tinv spent w w'"
  shows "evolves rinv view tinv spent w (record_audit A ty ac ta d w')"
  using evolves_trans [OF assms audit_step [OF evolves_inv [OF assms]]] .

text \<open>Issuing the token pair and recording the event, the end of three use cases.\<close>

lemma issue_step:
  assumes "app_inv rinv view tinv w" "on_tokens (GeneratePair T uid r) w = (x, w')"
  shows "evolves rinv view tinv spent w (record_audit A ty ac ta d w')" "evolves rinv view tinv spent w w'"
    "stored view w' = stored view w"
  using generate_step [OF assms] audit_after by auto

lemma register_step:
  assumes "lower_laws lo" "app_inv rinv view tinv w" "register_execute lo R H T A inp w = (x, w')"
  shows "evolves rinv view tinv spent w w' \<and>
    (case x of Inr out \<Rightarrow> \<exists>u pair. out = auth_output_of pair u \<and>
        (distinct_draws (sources w') \<longrightarrow> stored view w (user_key u) = None) \<and>
        new_email lo (reg_email inp) = Inr (usr_email u) \<and> validate_password (reg_password inp) = Inr () \<and>
        (\<forall>i v. stored view w i = Some v \<longrightarrow> usr_email v \<noteq> usr_email u) \<and>
        written (stored view w) u (stored view w') \<and> usr_is_active u \<and>
        usr_name u = trim_space (reg_name inp) \<and>
        Verify H (reg_password inp) (usr_password_hash u) = Inr True \<and>
        (usr_role u = RoleOwner \<and> \<not> has_owner (stored view w) \<or>
         usr_role u = RoleUser \<and> owner_refused rinv view R (stored view w))
     | Inl e \<Rightarrow> distinct_draws (sources w') \<longrightarrow> stored view w \<subseteq>\<^sub>m stored view w')"
proof -
  obtain y w1 where c: "register_check lo R inp w = (y, w1)" by fastforce
  note s1 = register_check_step [OF assms(1,2) c]
  show ?thesis
  proof (cases y)
    case (Inl e)
    then show ?thesis using assms(3) c s1 by (auto simp: register_execute_def)
  next
    case (Inr em)
    have i1: "app_inv rinv view tinv w1" using s1 evolves_inv by blast
    have em: "canonical_email lo em" "new_email lo (reg_email inp) = Inr em"
      "validate_password (reg_password inp) = Inr ()"
      "\<forall>i u. stored view w i = Some u \<longrightarrow> usr_email u \<noteq> em" using s1 Inr by auto
    obtain z w2 where st: "register_store R H inp em w1 = (z, w2)" by fastforce
    note s2 = register_store_step [OF i1 em(1) st]
    have e2: "evolves rinv view tinv spent w w2" using s1 s2 evolves_trans by blast
    show ?thesis
    proof (cases z)
      case (Inl e)
      then show ?thesis using assms(3) c \<open>y = Inr em\<close> st e2 s1 s2 by (auto simp: register_execute_def)
    next
      case (Inr a)
      define u where "u = user_at a w2"
      obtain p w3 where g: "on_tokens (GeneratePair T (user_key u) (usr_role u)) w2 = (p, w3)" by fastforce
      note s3 = issue_step [OF evolves_inv [OF e2] g]
      have e3: "evolves rinv view tinv spent w w3"
        "\<And>ty ac ta d. evolves rinv view tinv spent w (record_audit A ty ac ta d w3)"
        using s3(1,2) evolves_trans [OF e2] by blast+
      have fresh: "distinct_draws (sources (record_audit A ty ac ta d w3)) \<Longrightarrow> stored view w (user_key u) = None"
        for ty ac ta d
        using s1 s2 Inr evolves_distinct [OF s3(1)] by (auto simp: u_def)
      have kept: "stored view w \<subseteq>\<^sub>m stored view w3" if "distinct_draws (sources w3)"
        using s1 s2 Inr s3(3) evolves_distinct [OF s3(2) that] by (auto intro: written_new_le)
      show ?thesis
      proof (cases p)
        case (Inl e)
        then have "x = Inl e" "w' = w3" using assms(3) c \<open>y = Inr em\<close> st Inr g
          by (auto simp: register_execute_def register_finish_def Let_def u_def [symmetric])
        then show ?thesis using e3(1) kept by simp
      next
        case p: (Inr pair)
        show ?thesis
          using assms(3) c \<open>y = Inr em\<close> st Inr g p s1 s2 s3(3) e3 em fresh
          by (auto simp: register_execute_def register_finish_def Let_def u_def [symmetric], blast+)
      qed
    qed
  qed
qed

lemma login_step:
  assumes "app_inv rinv view tinv w" "login_execute lo R H T A inp w = (x, w')"
  shows "evolves rinv view tinv spent w w' \<and> stored view w' = stored view w \<and>
    (case x of Inr out \<Rightarrow> \<exists>u pair. out = auth_output_of pair u \<and> stored view w (user_key u) = Some u \<and>
        new_email lo (login_email inp) = Inr (usr_email u) \<and> usr_is_active u \<and>
        Verify H (login_password inp) (usr_password_hash u) = Inr True
     | Inl e \<Rightarrow> True)"
proof (cases "new_email lo (login_email inp)")
  case (Inl e)
  then show ?thesis using assms(2) audit_step [OF assms(1)] by (auto simp: login_execute_def)
next
  case (Inr em)
  obtain y w1 where f: "user_by_email R em w = (y, w1)" by fastforce
  note s1 = user_by_email_step [OF assms(1) f]
  have e1: "evolves rinv view tinv spent w w1" using s1 by blast
  show ?thesis
  proof (cases "\<exists>a. y = Inr (Some a)")
    case False
    then show ?thesis using assms(2) Inr f s1 audit_after [OF e1]
      by (auto simp: login_execute_def split: sum.splits option.splits if_splits)
  next
    case True
    then obtain a where y: "y = Inr (Some a)" by blast
    define u where "u = user_at a w1"
    have u: "stored view w (user_key u) = Some u" "usr_email u = em" using s1 y by (auto simp: u_def)
    obtain p w2 where g: "on_tokens (GeneratePair T (user_key u) (usr_role u)) w1 = (p, w2)" by fastforce
    note s2 = issue_step [OF evolves_inv [OF e1] g]
    have e2: "evolves rinv view tinv spent w w2"
      "\<And>ty ac ta d. evolves rinv view tinv spent w (record_audit A ty ac ta d w2)"
      using s2(1,2) evolves_trans [OF e1] by blast+
    show ?thesis
      using assms(2) Inr f y g s1 s2(3) e1 e2 u audit_after [OF e1]
      by (cases p) (auto simp: login_execute_def Let_def u_def [symmetric] split: if_splits, blast)
  qed
qed

lemma refresh_step:
  assumes "app_inv rinv view tinv w" "refresh_execute R T A inp w = (x, w')"
  shows "evolves rinv view tinv spent w w' \<and> stored view w' = stored view w \<and>
    (case x of Inr out \<Rightarrow>
        (distinct_draws (sources w') \<longrightarrow> \<not> spent (sources w, tokens w) (in_refresh_token inp) \<and>
           spent (sources w', tokens w') (in_refresh_token inp)) \<and>
        (\<exists>u pair. out = auth_output_of pair u \<and> stored view w (user_key u) = Some u \<and> usr_is_active u)
     | Inl e \<Rightarrow> True)"
proof -
  let ?tok = "in_refresh_token inp"
  obtain y w1 where r: "on_tokens (RedeemRefreshToken T ?tok) w = (y, w1)" by fastforce
  note s1 = redeem_step [OF assms(1) r]
  have e1: "evolves rinv view tinv spent w w1" using s1 by blast
  note i1 = evolves_inv [OF e1]
  show ?thesis
  proof (cases y)
    case (Inl e)
    then show ?thesis using assms(2) r s1(1) by (auto simp: refresh_execute_def)
  next
    case y: (Inr res)
    show ?thesis
    proof (cases "outcome res")
      case RedemptionInvalid
      then show ?thesis using assms(2) r y s1(1) by (auto simp: refresh_execute_def)
    next
      case RedemptionReused
      obtain z w2 where v: "on_tokens (RevokeAllRefreshTokens T (red_user_id res)) w1 = (z, w2)" by fastforce
      note s2 = revoke_all_step [OF i1 v]
      have "evolves rinv view tinv spent w w2" using s2 evolves_trans [OF e1] by blast
      from audit_after [OF this] show ?thesis
        using assms(2) r y v RedemptionReused s1(1) s2 by (auto simp: refresh_execute_def)
    next
      case RedemptionOK
      note sp = s1(2) [OF y RedemptionOK]
      obtain z w2 where f: "on_repo (FindByID R (red_user_id res)) w1 = (z, w2)" by fastforce
      note s2 = find_by_id_step [OF i1 f]
      have e2: "evolves rinv view tinv spent w w2" using s2 evolves_trans [OF e1] by blast
      show ?thesis
      proof (cases z)
        case (Inl e)
        then show ?thesis using assms(2) r y RedemptionOK f e2 s1(1) s2 by (auto simp: refresh_execute_def)
      next
        case z: (Inr a)
        define u where "u = user_at a w2"
        have u: "stored view w (user_key u) = Some u" "user_key u = red_user_id res"
          using s1(1) s2 z by (auto simp: u_def)
        obtain p w3 where g: "on_tokens (GeneratePair T (red_user_id res) (usr_role u)) w2 = (p, w3)" by fastforce
        note s3 = issue_step [OF evolves_inv [OF e2] g]
        have e3: "evolves rinv view tinv spent w w3" "evolves rinv view tinv spent w1 w3"
          "\<And>ty ac ta d. evolves rinv view tinv spent w (record_audit A ty ac ta d w3)"
          "\<And>ty ac ta d. evolves rinv view tinv spent w1 (record_audit A ty ac ta d w3)"
          using s3(1,2) evolves_trans e2 s2 by blast+
        have "\<not> spent (sources w, tokens w) ?tok \<and> spent (sources (record_audit A ty ac ta d w3), tokens w3) ?tok"
          if "distinct_draws (sources (record_audit A ty ac ta d w3))" for ty ac ta d
          using sp [OF evolves_distinct [OF e3(4) that]] evolves_spent [OF e3(4) that] by auto
        then show ?thesis
          using assms(2) r y RedemptionOK f z g s1(1) s2 s3(3) e2 e3(1,3) u
          by (cases p) (auto simp: refresh_execute_def Let_def u_def [symmetric] split: if_splits, metis)
      qed
    qed
  qed
qed

end

context application
begin

lemma get_user_step:
  assumes "app_inv rinv view tinv w" "get_user_execute R caller role target w = (x, w')"
  shows "evolves rinv view tinv spent w w' \<and> stored view w' = stored view w \<and>
    (case x of Inr out \<Rightarrow> (caller = target \<or> can_manage_roles role) \<and>
        (\<exists>u. out = user_output_of u \<and> stored view w target = Some u)
     | Inl e \<Rightarrow> True)"
proof -
  have "evolves rinv view tinv spent w w" using assms(1) by (rule evolves_refl)
  then show ?thesis
    using assms(2)
    by (auto simp: get_user_execute_def split: if_splits try_do_splits dest!: find_by_id_step [OF assms(1)])
qed

lemma list_users_step:
  assumes "app_inv rinv view tinv w" "list_users_execute R role inp w = (x, w')"
  shows "evolves rinv view tinv spent w w' \<and> stored view w' = stored view w"
proof -
  have "evolves rinv view tinv spent w w" using assms(1) by (rule evolves_refl)
  then show ?thesis
    using assms(2)
    by (auto simp: list_users_execute_def Let_def split: if_splits try_do_splits prod.splits
        dest!: find_paginated_step [OF assms(1)])
qed

text \<open>Loading a user, computing its new value and saving it: the shape of the three updates.\<close>

lemma update_step:
  assumes "app_inv rinv view tinv w" "on_repo (FindByID R i) w = (Inr a, w1)" "v = user_at a w1"
    "evolves rinv view tinv spent w1 w2" "objects w2 = objects w1" "repo w2 = repo w1"
    "usr_id u = usr_id v" "usr_email u = usr_email v"
    "usr_role u = usr_role v \<or> (\<exists>j o'. stored view w j = Some o' \<and> usr_role o' = RoleOwner \<and> j \<noteq> i)"
    "on_repo (Save R a) (set_user a u w2) = (x, w3)"
  shows "evolves rinv view tinv spent w w3 \<and> objects w3 = (objects w2)[a := u] \<and> user_at a w3 = u \<and>
    stored view w i = Some v \<and> user_key u = i \<and>
    tokens w3 = tokens w2 \<and> sources w3 = sources w2 \<and> audit w3 = audit w2 \<and>
    (written (stored view w) u (stored view w3) \<or> is_err x \<and> stored view w3 = stored view w)"
proof -
  note s1 = find_by_id_step [OF assms(1,2)]
  have e2: "evolves rinv view tinv spent w w2" using s1 assms(4) evolves_trans by blast
  note i2 = evolves_inv [OF e2]
  have v: "user_at a w2 = v" "a < length (objects w2)" "stored view w i = Some v" "user_key v = i"
    "canonical_email lo (usr_email v)" "stored view w2 = stored view w"
    using s1 assms(3,5,6) by (auto simp: user_at_def)
  have k: "user_key u = i" using v(4) assms(7) by (simp add: user_key_def)
  have e: "usr_id u = usr_id (user_at a w2)" "canonical_email lo (usr_email u)"
    using v assms(7,8) by simp_all
  have "evolves rinv view tinv spent w2 w3"
    by (rule rewrite_step [OF i2 v(2) e assms(10)]) (use v k assms(9) in auto)
  moreover note save_step [OF i2 v(2) e assms(10)]
  ultimately show ?thesis
    using evolves_trans [OF e2] v k by (auto simp: user_at_def)
qed

lemma update_profile_step:
  assumes "app_inv rinv view tinv w" "update_profile_execute R i name w = (x, w')"
  shows "evolves rinv view tinv spent w w' \<and>
    (case x of Inr out \<Rightarrow> \<exists>v u. stored view w i = Some v \<and> out = user_output_of u \<and> usr_name u = trim_space name \<and>
        content u = content (v\<lparr>usr_name := trim_space name\<rparr>) \<and> written (stored view w) u (stored view w')
     | Inl e \<Rightarrow> \<forall>j. j \<noteq> i \<longrightarrow> stored view w' j = stored view w j)"
proof -
  obtain y w1 where f: "on_repo (FindByID R i) w = (y, w1)" by fastforce
  note s1 = find_by_id_step [OF assms(1) f]
  note i1 = evolves_inv [OF conjunct1 [OF s1]]
  show ?thesis
  proof (cases y)
    case (Inl e)
    then show ?thesis using assms(2) f s1 by (auto simp: update_profile_execute_def)
  next
    case y: (Inr a)
    obtain z w2 where n: "on_gen (update_name name (user_at a w1)) w1 = (z, w2)" by fastforce
    have s2: "evolves rinv view tinv spent w1 w2 \<and> objects w2 = objects w1 \<and> repo w2 = repo w1 \<and>
        tokens w2 = tokens w1 \<and> audit w2 = audit w1"
      using on_gen_step [OF i1 n] gen_later_update_name by blast
    have e2: "evolves rinv view tinv spent w w2" using s1 s2 evolves_trans by blast
    show ?thesis
    proof (cases z)
      case (Inl e)
      then show ?thesis using assms(2) f y n e2 s1 s2 by (auto simp: update_profile_execute_def)
    next
      case z: (Inr u)
      obtain p w3 where sv: "on_repo (Save R a) (set_user a u w2) = (p, w3)" by fastforce
      obtain t where u: "u = (user_at a w1)\<lparr>usr_name := trim_space name, usr_updated_at := t\<rparr>"
        using n z by (auto simp: on_gen_eq update_name_Inr)
      have ids: "usr_id u = usr_id (user_at a w1)" "usr_email u = usr_email (user_at a w1)"
          "usr_role u = usr_role (user_at a w1)" "usr_name u = trim_space name"
          "content u = content ((user_at a w1)\<lparr>usr_name := trim_space name\<rparr>)"
        unfolding u by (simp_all add: content_eq)
      have s3: "evolves rinv view tinv spent w w3 \<and> user_at a w3 = u \<and> stored view w i = Some (user_at a w1) \<and>
          user_key u = i \<and> (written (stored view w) u (stored view w3) \<or> is_err p \<and> stored view w3 = stored view w)"
        using update_step [OF assms(1) f [unfolded y] refl _ _ _ ids(1,2) disjI1 [OF ids(3)] sv] s2 by blast
      have x: "(x, w') = try_do (p, w3) (\<lambda>_ w. (Inr (user_output_of (user_at a w)), w))"
        using assms(2) f y n z sv by (simp add: update_profile_execute_def Let_def)
      show ?thesis
      proof (cases p)
        case (Inr q)
        then have "x = Inr (user_output_of u)" "w' = w3" "written (stored view w) u (stored view w3)"
          using x s3 by auto
        then show ?thesis using s3 ids(4,5) by (simp only: sum.case) blast
      next
        case (Inl e)
        then have "x = Inl e" "w' = w3" using x by auto
        moreover have "\<forall>j. j \<noteq> i \<longrightarrow> stored view w3 j = stored view w j"
          by (rule written_or_same [of _ u _ "is_err p"]) (use s3 in blast)+
        ultimately show ?thesis using s3 by simp
      qed
    qed
  qed
qed

end

context application
begin

lemma change_password_step:
  assumes "app_inv rinv view tinv w" "change_password_execute R H A i inp w = (x, w')"
  shows "evolves rinv view tinv spent w w' \<and>
    (case x of Inr _ \<Rightarrow> \<exists>v u. stored view w i = Some v \<and>
        Verify H (current_password inp) (usr_password_hash v) = Inr True \<and>
        Verify H (new_password inp) (usr_password_hash u) = Inr True \<and>
        content u = content (v\<lparr>usr_password_hash := usr_password_hash u\<rparr>) \<and>
        written (stored view w) u (stored view w') \<and> validate_password (new_password inp) = Inr ()
     | Inl e \<Rightarrow> \<forall>j. j \<noteq> i \<longrightarrow> stored view w' j = stored view w j)"
proof (cases "validate_password (new_password inp)")
  case (Inl e)
  then have "x = Inl e \<and> w' = w" using assms(2) by (simp add: change_password_execute_def)
  then show ?thesis using evolves_refl [OF assms(1)] by simp
next
  case (Inr un)
  then have ok: "validate_password (new_password inp) = Inr ()" by simp
  obtain y w1 where f: "on_repo (FindByID R i) w = (y, w1)" by fastforce
  note s1 = find_by_id_step [OF assms(1) f]
  note i1 = evolves_inv [OF conjunct1 [OF s1]]
  show ?thesis
  proof (cases "\<exists>a. y = Inr a \<and> Verify H (current_password inp) (usr_password_hash (user_at a w1)) = Inr True")
    case False
    then show ?thesis using assms(2) ok f s1
      by (cases y) (auto simp: change_password_execute_def split: if_splits)
  next
    case True
    then obtain a where y: "y = Inr a"
      and cur: "Verify H (current_password inp) (usr_password_hash (user_at a w1)) = Inr True" by blast
    obtain z w2 where h: "on_gen (Hash H (new_password inp)) w1 = (z, w2)" by fastforce
    have s2: "evolves rinv view tinv spent w1 w2 \<and> objects w2 = objects w1 \<and> repo w2 = repo w1 \<and>
        tokens w2 = tokens w1 \<and> audit w2 = audit w1"
      using on_gen_step [OF i1 h] hash_gen by blast
    show ?thesis
    proof (cases z)
      case (Inl e)
      then have "x = Inl e" "w' = w2" using assms(2) ok f y cur h by (auto simp: change_password_execute_def)
      moreover have "evolves rinv view tinv spent w w2" "stored view w2 = stored view w"
        using s1 s2 evolves_trans by auto
      ultimately show ?thesis by simp
    next
      case z: (Inr hash)
      obtain u w3 where n: "on_gen (update_password hash (user_at a w2)) w2 = (u, w3)" by fastforce
      have s3: "evolves rinv view tinv spent w2 w3 \<and> objects w3 = objects w2 \<and> repo w3 = repo w2 \<and>
          tokens w3 = tokens w2 \<and> audit w3 = audit w2"
        using on_gen_step [OF evolves_inv [OF conjunct1 [OF s2]] n] gen_later_update_password by blast
      obtain p w4 where sv: "on_repo (Save R a) (set_user a u w3) = (p, w4)" by fastforce
      have same: "user_at a w2 = user_at a w1" using s2 by (simp add: user_at_def)
      obtain t where u: "u = (user_at a w1)\<lparr>usr_password_hash := hash, usr_updated_at := t\<rparr>"
        using n same by (auto simp: on_gen_eq update_password_def time_now_def)
      have ids: "usr_id u = usr_id (user_at a w1)" "usr_email u = usr_email (user_at a w1)"
          "usr_role u = usr_role (user_at a w1)" "usr_password_hash u = hash"
          "content u = content ((user_at a w1)\<lparr>usr_password_hash := usr_password_hash u\<rparr>)"
        unfolding u by (simp_all add: content_eq)
      have e3: "evolves rinv view tinv spent w1 w3" "objects w3 = objects w1" "repo w3 = repo w1"
        using s2 s3 evolves_trans by auto
      have s4: "evolves rinv view tinv spent w w4 \<and> stored view w i = Some (user_at a w1) \<and>
          user_key u = i \<and> (written (stored view w) u (stored view w4) \<or> is_err p \<and> stored view w4 = stored view w)"
        using update_step [OF assms(1) f [unfolded y] refl e3 ids(1,2) disjI1 [OF ids(3)] sv] by blast
      have x: "(x, w') = try_do (p, w4) (\<lambda>_ w. (Inr (),
          record_audit A AuditEventPasswordChanged (Some i) (Some i) ''password changed'' w))"
        using assms(2) ok f y cur h z n sv by (simp add: change_password_execute_def Let_def)
      show ?thesis
      proof (cases p)
        case (Inr q)
        then have "x = Inr ()" "stored view w' = stored view w4" "written (stored view w) u (stored view w4)"
          "evolves rinv view tinv spent w w'"
          using x s4 audit_after by auto
        moreover have "Verify H (new_password inp) (usr_password_hash u) = Inr True"
          using h z hash_verify ids(4) by (auto simp: on_gen_eq)
        ultimately show ?thesis using conjunct2 [OF s4] ids(5) cur ok
          by (intro conjI) (auto intro!: exI [of _ "user_at a w1"] exI [of _ u])
      next
        case (Inl e)
        then have "x = Inl e" "w' = w4" using x by auto
        moreover have "\<forall>j. j \<noteq> i \<longrightarrow> stored view w4 j = stored view w j"
          by (rule written_or_same [of _ u _ "is_err p"]) (use s4 in blast)+
        ultimately show ?thesis using s4 by simp
      qed
    qed
  qed
qed

lemma change_role_step:
  assumes "app_inv rinv view tinv w" "change_role_execute R A actor target role w = (x, w')"
  shows "evolves rinv view tinv spent w w' \<and>
    (case x of Inr out \<Rightarrow> \<exists>ac v u. stored view w actor = Some ac \<and> usr_role ac = RoleOwner \<and> actor \<noteq> target \<and>
        stored view w target = Some v \<and> content u = content (v\<lparr>usr_role := role\<rparr>) \<and>
        out = user_output_of u \<and> written (stored view w) u (stored view w')
     | Inl e \<Rightarrow> stored view w' = stored view w \<or> (\<forall>j. j \<noteq> target \<longrightarrow> stored view w' j = stored view w j) \<and>
         (\<exists>ac. stored view w actor = Some ac \<and> usr_role ac = RoleOwner))"
proof -
  obtain y w1 where f: "on_repo (FindByID R actor) w = (y, w1)" by fastforce
  note s1 = find_by_id_step [OF assms(1) f]
  have e1: "evolves rinv view tinv spent w w1" using s1 by blast
  note i1 = evolves_inv [OF e1]
  show ?thesis
  proof (cases y)
    case (Inl e)
    then show ?thesis using assms(2) f s1 by (auto simp: change_role_execute_def)
  next
    case y: (Inr a)
    obtain z w2 where f2: "on_repo (FindByID R target) w1 = (z, w2)" by fastforce
    note s2 = find_by_id_step [OF i1 f2]
    have e2: "evolves rinv view tinv spent w w2" using s2 e1 evolves_trans by blast
    show ?thesis
    proof (cases z)
      case (Inl e)
      then show ?thesis using assms(2) f y f2 e2 s1 s2 by (auto simp: change_role_execute_def)
    next
      case z: (Inr b)
      have ac: "stored view w actor = Some (user_at a w2)" "user_key (user_at a w2) = actor"
        using s1 s2 y by (auto simp: user_at_def nth_append)
      have v: "stored view w target = Some (user_at b w2)" "user_key (user_at b w2) = target"
        using s1 s2 z by auto
      obtain p w3 where n: "on_gen (change_role role (user_at a w2) (user_at b w2)) w2 = (p, w3)" by fastforce
      have s3: "evolves rinv view tinv spent w2 w3 \<and> objects w3 = objects w2 \<and> repo w3 = repo w2 \<and>
          tokens w3 = tokens w2 \<and> audit w3 = audit w2"
        using on_gen_step [OF evolves_inv [OF e2] n] gen_later_change_role by blast
      show ?thesis
      proof (cases p)
        case (Inl e)
        then have "x = Inl e" "w' = w3" using assms(2) f y f2 z n by (auto simp: change_role_execute_def Let_def)
        moreover have "evolves rinv view tinv spent w w3" "stored view w3 = stored view w"
          using s1 s2 s3 e2 evolves_trans by auto
        ultimately show ?thesis by simp
      next
        case p: (Inr u)
        obtain t where u: "u = (user_at b w2)\<lparr>usr_role := role, usr_updated_at := t\<rparr>"
          and own: "usr_role (user_at a w2) = RoleOwner" "usr_id (user_at a w2) \<noteq> usr_id (user_at b w2)"
          using n p by (auto simp: on_gen_eq change_role_Inr)
        have ne: "actor \<noteq> target"
          using own(2) ac(2) v(2) by (metis user_id.expand user_key_def)
        have ids: "usr_id u = usr_id (user_at b w2)" "usr_email u = usr_email (user_at b w2)"
            "content u = content ((user_at b w2)\<lparr>usr_role := role\<rparr>)"
          unfolding u by (simp_all add: content_eq)
        have oth: "usr_role u = usr_role (user_at b w2) \<or>
            (\<exists>j o'. stored view w1 j = Some o' \<and> usr_role o' = RoleOwner \<and> j \<noteq> target)"
          using ac own(1) ne s1 by auto
        obtain q w4 where sv: "on_repo (Save R b) (set_user b u w3) = (q, w4)" by fastforce
        have "evolves rinv view tinv spent w1 w4 \<and> user_at b w4 = u \<and> user_key u = target \<and>
            (written (stored view w1) u (stored view w4) \<or> is_err q \<and> stored view w4 = stored view w1)"
          using update_step [OF i1 f2 [unfolded z] refl _ _ _ ids(1,2) oth sv] s3 by blast
        then have s4: "evolves rinv view tinv spent w w4" "user_at b w4 = u" "user_key u = target"
            "written (stored view w) u (stored view w4) \<or> is_err q \<and> stored view w4 = stored view w"
          using e1 evolves_trans s1 by auto
        have x: "(x, w') = try_do (q, w4) (\<lambda>_ w. let u = user_at b w in (Inr (user_output_of u),
            record_audit A AuditEventRoleChanged (Some actor) (Some target)
              (''role changed from '' @ usr_role (user_at b w2) @ '' to '' @ usr_role u) w))"
          using assms(2) f y f2 z n p sv by (simp add: change_role_execute_def Let_def)
        show ?thesis
        proof (cases q)
          case (Inr r)
          then have "x = Inr (user_output_of u)" "stored view w' = stored view w4"
            "written (stored view w) u (stored view w4)" "evolves rinv view tinv spent w w'"
            using x s4 audit_after by (auto simp: Let_def)
          then show ?thesis using ids(3) ac(1) v(1) own(1) ne by (simp only: sum.case) blast
        next
          case (Inl e)
          then have "x = Inl e" "w' = w4" using x by auto
          then show ?thesis using s4(1) ac(1) own(1) written_or_same [OF s4(4,3)] by simp
        qed
      qed
    qed
  qed
qed

end

subsection \<open>Requests and runs\<close>

datatype request =
    Register register_input
  | Login login_input
  | Refresh refresh_input
  | GetUser uuid role uuid
  | ListUsers role list_users_input
  | UpdateProfile uuid string
  | ChangePassword uuid change_password_input
  | ChangeRole uuid uuid role

datatype response =
    Auth "error + auth_output"
  | Profile "error + user_output"
  | Users "error + list_users_output"
  | Done "error + unit"

definition tag :: "('x \<Rightarrow> response) \<Rightarrow> 'x \<times> 'w \<Rightarrow> response \<times> 'w" where
  "tag c p = (c (fst p), snd p)"

primrec serve ::
  "(nat \<Rightarrow> nat) \<Rightarrow> 'r user_repository \<Rightarrow> password_hasher \<Rightarrow> 't token_service \<Rightarrow> 'a audit_port \<Rightarrow>
   request \<Rightarrow> ('r, 't, 'a) world \<Rightarrow> response \<times> ('r, 't, 'a) world" where
  "serve lo R H T A (Register inp) w = tag Auth (register_execute lo R H T A inp w)"
| "serve lo R H T A (Login inp) w = tag Auth (login_execute lo R H T A inp w)"
| "serve lo R H T A (Refresh inp) w = tag Auth (refresh_execute R T A inp w)"
| "serve lo R H T A (GetUser c r i) w = tag Profile (get_user_execute R c r i w)"
| "serve lo R H T A (ListUsers r inp) w = tag Users (list_users_execute R r inp w)"
| "serve lo R H T A (UpdateProfile i n) w = tag Profile (update_profile_execute R i n w)"
| "serve lo R H T A (ChangePassword i inp) w = tag Done (change_password_execute R H A i inp w)"
| "serve lo R H T A (ChangeRole ac i r) w = tag Profile (change_role_execute R A ac i r w)"

text \<open>The accounts a request may change, over the accounts that are stored when it does.\<close>

definition may_change :: "(uuid \<Rightarrow> user option) \<Rightarrow> request \<Rightarrow> uuid \<Rightarrow> bool" where
  "may_change m r i \<longleftrightarrow> (case r of
      UpdateProfile j n \<Rightarrow> i = j
    | ChangePassword j inp \<Rightarrow> i = j
    | ChangeRole ac j role \<Rightarrow> i = j \<and> (\<exists>u. m ac = Some u \<and> usr_role u = RoleOwner)
    | _ \<Rightarrow> False)"

text \<open>
  A run is a sequence of requests with their responses. Between two of them time passes, and the
  environment of the token service changes as \<open>env\<close> allows.
\<close>

inductive app_run ::
  "(nat \<Rightarrow> nat) \<Rightarrow> 'r user_repository \<Rightarrow> password_hasher \<Rightarrow> 't token_service \<Rightarrow> 'a audit_port \<Rightarrow>
   ('t \<Rightarrow> 't \<Rightarrow> bool) \<Rightarrow> ('r, 't, 'a) world \<Rightarrow> (request \<times> response) list \<Rightarrow> ('r, 't, 'a) world \<Rightarrow> bool"
  for lo R H T A env where
  start: "app_run lo R H T A env w [] w"
| serve: "serve lo R H T A rq w = (rs, w') \<Longrightarrow> app_run lo R H T A env w' tr w'' \<Longrightarrow>
    app_run lo R H T A env w ((rq, rs) # tr) w''"
| wait: "clock_pos (sources w) \<le> n \<Longrightarrow>
    app_run lo R H T A env (w\<lparr>sources := (sources w)\<lparr>clock_pos := n\<rparr>\<rparr>) tr w'' \<Longrightarrow>
    app_run lo R H T A env w tr w''"
| change: "env (tokens w) t \<Longrightarrow> app_run lo R H T A env (w\<lparr>tokens := t\<rparr>) tr w'' \<Longrightarrow>
    app_run lo R H T A env w tr w''"

definition refreshed :: "string \<Rightarrow> request \<times> response \<Rightarrow> bool" where
  "refreshed tok p \<longleftrightarrow> (case p of
     (Refresh inp, Auth (Inr _)) \<Rightarrow> in_refresh_token inp = tok | _ \<Rightarrow> False)"

context application
begin

lemma serve_step:
  assumes "lower_laws lo" "app_inv rinv view tinv w" "serve lo R H T A rq w = (rs, w')"
  shows "evolves rinv view tinv spent w w'"
proof (cases rq)
  case (Register inp)
  then show ?thesis
    using assms(3) conjunct1 [OF register_step [OF assms(1,2) prod.collapse [symmetric]]] by (auto simp: tag_def)
next
  case (Login inp)
  then show ?thesis
    using assms(3) conjunct1 [OF login_step [OF assms(2) prod.collapse [symmetric]]] by (auto simp: tag_def)
next
  case (Refresh inp)
  then show ?thesis
    using assms(3) conjunct1 [OF refresh_step [OF assms(2) prod.collapse [symmetric]]] by (auto simp: tag_def)
next
  case (GetUser c r i)
  then show ?thesis
    using assms(3) conjunct1 [OF get_user_step [OF assms(2) prod.collapse [symmetric]]] by (auto simp: tag_def)
next
  case (ListUsers r inp)
  then show ?thesis
    using assms(3) conjunct1 [OF list_users_step [OF assms(2) prod.collapse [symmetric]]] by (auto simp: tag_def)
next
  case (UpdateProfile i n)
  then show ?thesis
    using assms(3) conjunct1 [OF update_profile_step [OF assms(2) prod.collapse [symmetric]]] by (auto simp: tag_def)
next
  case (ChangePassword i inp)
  then show ?thesis
    using assms(3) conjunct1 [OF change_password_step [OF assms(2) prod.collapse [symmetric]]] by (auto simp: tag_def)
next
  case (ChangeRole ac i r)
  then show ?thesis
    using assms(3) conjunct1 [OF change_role_step [OF assms(2) prod.collapse [symmetric]]] by (auto simp: tag_def)
qed

lemma wait_step:
  "app_inv rinv view tinv w \<Longrightarrow> clock_pos (sources w) \<le> n \<Longrightarrow> evolves rinv view tinv spent w (w\<lparr>sources := (sources w)\<lparr>clock_pos := n\<rparr>\<rparr>)"
  by (rule gen_step) (auto simp: gen_later_def)

lemma env_step:
  "app_inv rinv view tinv w \<Longrightarrow> env (tokens w) t \<Longrightarrow> evolves rinv view tinv spent w (w\<lparr>tokens := t\<rparr>)"
  using env_law by (auto simp: evolves_def app_inv_def)

lemma run_evolves:
  assumes "lower_laws lo" "app_run lo R H T A env w tr w'"
  shows "app_inv rinv view tinv w \<Longrightarrow> evolves rinv view tinv spent w w'"
  using assms(2)
proof (induction rule: app_run.induct)
  case (start w)
  then show ?case by (rule evolves_refl)
next
  case (serve rq w rs w' tr w'')
  have "evolves rinv view tinv spent w w'" using serve_step [OF assms(1) serve.prems serve.hyps(1)] .
  then show ?case using serve.IH evolves_inv evolves_trans by blast
next
  case (wait w n tr w'')
  have "evolves rinv view tinv spent w (w\<lparr>sources := (sources w)\<lparr>clock_pos := n\<rparr>\<rparr>)"
    using wait_step [OF wait.prems wait.hyps(1)] .
  then show ?case using wait.IH evolves_inv evolves_trans by blast
next
  case (change w t tr w'')
  have "evolves rinv view tinv spent w (w\<lparr>tokens := t\<rparr>)" using env_step [OF change.prems change.hyps(1)] .
  then show ?case using change.IH evolves_inv evolves_trans by blast
qed

lemma refreshed_step:
  assumes "app_inv rinv view tinv w" "serve lo R H T A rq w = (rs, w')" "refreshed tok (rq, rs)"
    "distinct_draws (sources w')"
  shows "\<not> spent (sources w, tokens w) tok \<and> spent (sources w', tokens w') tok"
proof -
  obtain inp out where rq: "rq = Refresh inp" "rs = Auth (Inr out)" "in_refresh_token inp = tok"
    using assms(3) by (auto simp: refreshed_def split: request.splits response.splits sum.splits)
  then have "refresh_execute R T A inp w = (Inr out, w')"
    using assms(2) by (auto simp: tag_def prod_eq_iff)
  from refresh_step [OF assms(1) this] show ?thesis using rq(3) assms(4) by simp
qed

lemma refreshed_once:
  assumes "lower_laws lo" "app_run lo R H T A env w tr w'" 
  shows "app_inv rinv view tinv w \<Longrightarrow> distinct_draws (sources w') \<Longrightarrow>
    length (filter (refreshed tok) tr) \<le> (if spent (sources w, tokens w) tok then 0 else 1)"
  using assms(2)
proof (induction rule: app_run.induct)
  case (serve rq w rs w' tr w'')
  have e: "evolves rinv view tinv spent w w'" using serve_step [OF assms(1) serve.prems(1) serve.hyps(1)] .
  have d: "distinct_draws (sources w')"
    using run_evolves [OF assms(1) serve.hyps(2) evolves_inv [OF e]] evolves_distinct serve.prems(2) by blast
  show ?case
    using refreshed_step [OF serve.prems(1) serve.hyps(1) _ d, of tok]
      serve.IH [OF evolves_inv [OF e] serve.prems(2)] evolves_spent [OF e d, of tok]
    by (auto split: if_splits)
next
  case (wait w n tr w'')
  have e: "evolves rinv view tinv spent w (w\<lparr>sources := (sources w)\<lparr>clock_pos := n\<rparr>\<rparr>)"
    using wait_step [OF wait.prems(1) wait.hyps(1)] .
  have d: "distinct_draws (sources (w\<lparr>sources := (sources w)\<lparr>clock_pos := n\<rparr>\<rparr>))"
    using run_evolves [OF assms(1) wait.hyps(2) evolves_inv [OF e]] evolves_distinct wait.prems(2) by blast
  show ?case
    using wait.IH [OF evolves_inv [OF e] wait.prems(2)] evolves_spent [OF e d, of tok]
    by (auto split: if_splits)
next
  case (change w t tr w'')
  have e: "evolves rinv view tinv spent w (w\<lparr>tokens := t\<rparr>)" using env_step [OF change.prems(1) change.hyps(1)] .
  have d: "distinct_draws (sources (w\<lparr>tokens := t\<rparr>))"
    using run_evolves [OF assms(1) change.hyps(2) evolves_inv [OF e]] evolves_distinct change.prems(2) by blast
  show ?case
    using change.IH [OF evolves_inv [OF e] change.prems(2)] evolves_spent [OF e d, of tok]
    by (auto split: if_splits)
qed simp

end

end
