(* ===== verification/UuidText.thy ===== *)
theory UuidText
  imports Domain
begin

section \<open>The text form of UUIDs\<close>

text \<open>
  \<^verbatim>\<open>UUID.String\<close> and \<^verbatim>\<open>uuid.Parse\<close> of github.com/google/uuid are the parameter \<open>uuid_lib\<close>;
  \<open>uuid_laws\<close> states what is documented of them: the text parses back to the UUID, and it has
  36 characters, hexadecimal digits and dashes. \<open>rfc_uuid\<close> prints the RFC 4122 form and
  satisfies the laws; the witnesses of later theorems use it.
\<close>

record uuid_lib =
  uuid_String :: "uuid \<Rightarrow> string"
  uuid_Parse :: "string \<Rightarrow> uuid option"

definition uuid_chars :: "char set" where
  "uuid_chars = set ''0123456789abcdef-''"

definition uuid_laws :: "uuid_lib \<Rightarrow> bool" where
  "uuid_laws U \<longleftrightarrow> (\<forall>u. uuid_Parse U (uuid_String U u) = Some u \<and> length (uuid_String U u) = 36 \<and>
     set (uuid_String U u) \<subseteq> uuid_chars)"

lemma uuid_laws_String:
  assumes "uuid_laws U"
  shows "uuid_Parse U (uuid_String U u) = Some u" "length (uuid_String U u) = 36"
    "set (uuid_String U u) \<subseteq> uuid_chars"
  using assms by (auto simp: uuid_laws_def)

lemma uuid_String_inject: "uuid_laws U \<Longrightarrow> uuid_String U u = uuid_String U v \<longleftrightarrow> u = v"
  by (metis option.inject uuid_laws_String(1))

subsection \<open>The RFC 4122 form\<close>

definition hex_digit :: "nat \<Rightarrow> char" where
  "hex_digit n = ''0123456789abcdef'' ! n"

definition hex_val :: "char \<Rightarrow> nat" where
  "hex_val c = (let n = of_char c :: nat in if n < 58 then n - 48 else n - 87)"

primrec hex :: "nat \<Rightarrow> nat \<Rightarrow> string" where
  "hex 0 n = []"
| "hex (Suc k) n = hex k (n div 16) @ [hex_digit (n mod 16)]"

definition unhex :: "string \<Rightarrow> nat" where
  "unhex s = foldl (\<lambda>n c. n * 16 + hex_val c) 0 s"

lemma less_16_cases:
  "n < 16 \<Longrightarrow> n \<in> {0, 1, 2, 3, 4, 5, 6, 7, 8, 9, 10, 11, 12, 13, 14, 15 :: nat}"
  by (auto simp: numeral_eq_Suc less_Suc_eq)

lemma hex_val_digit: "n < 16 \<Longrightarrow> hex_val (hex_digit n) = n"
  by (drule less_16_cases) (auto simp: hex_val_def hex_digit_def)

lemma hex_digit_uuid: "n < 16 \<Longrightarrow> hex_digit n \<in> uuid_chars"
  by (drule less_16_cases) (auto simp: hex_digit_def uuid_chars_def)

lemma hex_digit_not_dash: "n < 16 \<Longrightarrow> hex_digit n \<noteq> CHR ''-''"
  by (drule less_16_cases) (auto simp: hex_digit_def)

lemma unhex_hex: "unhex (hex k n) = n mod 16 ^ k"
proof (induction k arbitrary: n)
  case (Suc k)
  have "unhex (hex (Suc k) n) = (n div 16) mod 16 ^ k * 16 + n mod 16"
    using Suc [of "n div 16"] by (simp add: unhex_def hex_val_digit)
  also have "\<dots> = n mod (16 * 16 ^ k)" by (simp add: mod_mult2_eq)
  finally show ?case by simp
qed (simp add: unhex_def)

lemma length_hex [simp]: "length (hex k n) = k"
  by (induction k arbitrary: n) auto

lemma set_hex: "set (hex k n) \<subseteq> uuid_chars - {CHR ''-''}"
  by (induction k arbitrary: n) (auto simp: hex_digit_uuid hex_digit_not_dash)

definition dashed :: "string \<Rightarrow> string" where
  "dashed s = take 8 s @ ''-'' @ take 4 (drop 8 s) @ ''-'' @ take 4 (drop 12 s) @ ''-'' @
     take 4 (drop 16 s) @ ''-'' @ drop 20 s"

definition rfc_uuid :: uuid_lib where
  "rfc_uuid = \<lparr>uuid_String = (\<lambda>u. dashed (hex 32 (unat u))),
     uuid_Parse = (\<lambda>s. if length s = 36 then Some (of_nat (unhex (filter (\<lambda>c. c \<noteq> CHR ''-'') s)))
       else None)\<rparr>"

lemma filter_dashed:
  assumes "CHR ''-'' \<notin> set s"
  shows "filter (\<lambda>c. c \<noteq> CHR ''-'') (dashed s) = s"
proof -
  have f: "filter (\<lambda>c. c \<noteq> CHR ''-'') t = t" if "set t \<subseteq> set s" for t
    using that assms by (auto simp: filter_id_conv)
  have "set (take i (drop j s)) \<subseteq> set s" "set (take i s) \<subseteq> set s" "set (drop i s) \<subseteq> set s" for i j
    by (auto dest: in_set_takeD in_set_dropD)
  then have "filter (\<lambda>c. c \<noteq> CHR ''-'') (dashed s) =
      take 8 s @ take 4 (drop 8 s) @ take 4 (drop 12 s) @ take 4 (drop 16 s) @ drop 20 s"
    unfolding dashed_def filter_append using f by simp
  also have "take 4 (drop 16 s) @ drop 20 s = drop 16 s"
    using append_take_drop_id [of 4 "drop 16 s"] by simp
  also have "take 4 (drop 12 s) @ drop 16 s = drop 12 s"
    using append_take_drop_id [of 4 "drop 12 s"] by simp
  also have "take 4 (drop 8 s) @ drop 12 s = drop 8 s"
    using append_take_drop_id [of 4 "drop 8 s"] by simp
  finally show ?thesis by simp
qed

lemma rfc_uuid_laws: "uuid_laws rfc_uuid"
proof -
  have "CHR ''-'' \<notin> set (hex 32 n)" for n using set_hex [of 32 n] by blast
  moreover have "length (dashed (hex 32 n)) = 36" for n by (simp add: dashed_def)
  moreover have "set (dashed (hex 32 n)) \<subseteq> uuid_chars" for n
  proof -
    have "set (dashed s) \<subseteq> insert CHR ''-'' (set s)" for s
      unfolding dashed_def by (auto dest: in_set_takeD in_set_dropD)
    moreover have "CHR ''-'' \<in> uuid_chars" by (simp add: uuid_chars_def)
    ultimately show ?thesis using set_hex [of 32 n] by blast
  qed
  moreover have "unat u mod 16 ^ 32 = unat u" for u :: uuid
    using unsigned_less [of u, where 'a = nat] by (intro mod_less) simp
  ultimately show ?thesis
    by (simp add: uuid_laws_def rfc_uuid_def filter_dashed unhex_hex)
qed

end
