(* ===== verification/MemoryRepository.thy ===== *)
theory MemoryRepository
  imports Ports UuidText "HOL-Library.Multiset"
begin

section \<open>The in-memory user repository\<close>

text \<open>
  \<^verbatim>\<open>internal/infrastructure/persistence/memory/user_repository.go\<close>. The Go map from ids to
  \<^verbatim>\<open>*entity.User\<close> is an association list from ids to addresses; its order stands for the
  order in which a \<^verbatim>\<open>range\<close> visits the map, which Go leaves open and which no theorem
  below restricts. Every method holds the mutex for its whole body, so it is one step. A
  slice or \<^verbatim>\<open>make\<close> with a negative bound panics.
\<close>

type_synonym memory_store = "(uuid \<times> addr) list"

definition NewUserRepository :: memory_store where
  "NewUserRepository = []"

definition mem_find_by_id :: "uuid \<Rightarrow> heap \<times> memory_store \<Rightarrow> (error + addr) \<times> heap \<times> memory_store" where
  "mem_find_by_id i S = (case map_of (snd S) i of None \<Rightarrow> Inl ErrUserNotFound | Some a \<Rightarrow> Inr a, S)"

definition mem_find_by_email :: "email \<Rightarrow> heap \<times> memory_store \<Rightarrow> (error + addr) \<times> heap \<times> memory_store" where
  "mem_find_by_email em S =
    (case find (\<lambda>(_, a). email_string (usr_email (fst S ! a)) = email_string em) (snd S) of
       Some (_, a) \<Rightarrow> Inr a
     | None \<Rightarrow> Inl ErrUserNotFound, S)"

definition mem_save :: "addr \<Rightarrow> heap \<times> memory_store \<Rightarrow> (error + unit) \<times> heap \<times> memory_store" where
  "mem_save a S = (case S of (h, m) \<Rightarrow> (Inr (), h, AList.update (user_key (h ! a)) a m))"

definition mem_delete :: "uuid \<Rightarrow> heap \<times> memory_store \<Rightarrow> (error + unit) \<times> heap \<times> memory_store" where
  "mem_delete i S = (case S of (h, m) \<Rightarrow> (Inr (), h, AList.delete i m))"

definition mem_count :: "heap \<times> memory_store \<Rightarrow> (error + int) \<times> heap \<times> memory_store" where
  "mem_count S = (Inr (int (length (snd S))), S)"

definition mem_save_first_owner :: "addr \<Rightarrow> heap \<times> memory_store \<Rightarrow> (error + bool) \<times> heap \<times> memory_store" where
  "mem_save_first_owner a S =
    (case S of (h, m) \<Rightarrow>
       if list_ex (\<lambda>(_, existing). usr_role (h ! existing) = RoleOwner) m then (Inr False, h, m)
       else (Inr True, h, AList.update (user_key (h ! a)) a m))"

text \<open>\<^verbatim>\<open>sort.Slice\<close> and the comparison function it is given; Go compares strings bytewise.\<close>

fun string_less :: "string \<Rightarrow> string \<Rightarrow> bool" where
  "string_less s [] = False"
| "string_less [] (d # t) = True"
| "string_less (c # s) (d # t) =
    ((of_char c :: nat) < of_char d \<or> c = d \<and> string_less s t)"

fun insert_sorted :: "('x \<Rightarrow> 'x \<Rightarrow> bool) \<Rightarrow> 'x \<Rightarrow> 'x list \<Rightarrow> 'x list" where
  "insert_sorted lt x [] = [x]"
| "insert_sorted lt x (y # ys) = (if lt y x then y # insert_sorted lt x ys else x # y # ys)"

definition sort_slice :: "('x \<Rightarrow> 'x \<Rightarrow> bool) \<Rightarrow> 'x list \<Rightarrow> 'x list" where
  "sort_slice lt xs = foldr (insert_sorted lt) xs []"

definition user_before :: "uuid_lib \<Rightarrow> heap \<Rightarrow> addr \<Rightarrow> addr \<Rightarrow> bool" where
  "user_before U h a b =
    (if usr_created_at (h ! a) = usr_created_at (h ! b)
     then string_less (uuid_String U (user_key (h ! a))) (uuid_String U (user_key (h ! b)))
     else usr_created_at (h ! a) < usr_created_at (h ! b))"

definition mem_find_paginated ::
  "uuid_lib \<Rightarrow> int \<Rightarrow> int \<Rightarrow> heap \<times> memory_store \<Rightarrow> (error + addr list \<times> int) \<times> heap \<times> memory_store" where
  "mem_find_paginated U offset limit S =
    (let users = sort_slice (user_before U (fst S)) (map snd (snd S));
         n = int (length users);
         start = (if n < offset then n else offset);
         end' = wrap64 (start + limit);
         end = (if n < end' then n else end')
     in if wrap64 (end - start) < 0 \<or> start < 0 then (Inl RuntimePanic, S)
        else (Inr (take (nat (end - start)) (drop (nat start) users), n), S))"

definition memory_repository :: "uuid_lib \<Rightarrow> memory_store user_repository" where
  "memory_repository U = \<lparr>FindByID = mem_find_by_id, FindByEmail = mem_find_by_email, Save = mem_save,
     Delete = mem_delete, Count = mem_count, SaveFirstOwner = mem_save_first_owner,
     FindPaginated = mem_find_paginated U\<rparr>"

subsection \<open>The contract holds\<close>

definition mem_inv :: "(nat \<Rightarrow> nat) \<Rightarrow> heap \<times> memory_store \<Rightarrow> bool" where
  "mem_inv lo S \<longleftrightarrow> distinct (map fst (snd S)) \<and>
     (\<forall>(i, a) \<in> set (snd S). a < length (fst S) \<and> user_key (fst S ! a) = i \<and>
        canonical_email lo (usr_email (fst S ! a)))"

definition mem_view :: "heap \<times> memory_store \<Rightarrow> uuid \<Rightarrow> user option" where
  "mem_view S i = map_option (\<lambda>a. fst S ! a) (map_of (snd S) i)"


lemma mem_inv_iff:
  "mem_inv lo (h, m) \<longleftrightarrow> distinct (map fst m) \<and> (\<forall>i a. map_of m i = Some a \<longrightarrow>
     a < length h \<and> user_key (h ! a) = i \<and> canonical_email lo (usr_email (h ! a)))"
proof (cases "distinct (map fst m)")
  case True
  then have "(i, a) \<in> set m \<longleftrightarrow> map_of m i = Some a" for i a by (simp add: map_of_eq_Some_iff)
  then show ?thesis unfolding mem_inv_def by (simp add: Ball_def split_paired_All)
qed (simp add: mem_inv_def)

lemma mem_inv_entry:
  assumes "mem_inv lo (h, m)" "map_of m i = Some a"
  shows "a < length h" "user_key (h ! a) = i" "canonical_email lo (usr_email (h ! a))"
  using assms unfolding mem_inv_iff by blast+

lemma mem_view_Some: "mem_view (h, m) i = Some u \<longleftrightarrow> (\<exists>a. map_of m i = Some a \<and> u = h ! a)"
  by (auto simp: mem_view_def)

lemma dom_mem_view: "dom (mem_view (h, m)) = fst ` set m"
  using dom_map_of_conv_image_fst [of m] by (simp add: mem_view_def dom_def)

lemma card_mem_view: "mem_inv lo (h, m) \<Longrightarrow> card (dom (mem_view (h, m))) = length m"
  unfolding dom_mem_view using distinct_card [of "map fst m"] by (simp add: mem_inv_def)

lemma mem_has_owner:
  "mem_inv lo (h, m) \<Longrightarrow> has_owner (mem_view (h, m)) \<longleftrightarrow>
     list_ex (\<lambda>(_, a). usr_role (h ! a) = RoleOwner) m"
proof -
  assume "mem_inv lo (h, m)"
  then have "map_of m i = Some a \<longleftrightarrow> (i, a) \<in> set m" for i a
    by (simp add: mem_inv_def map_of_eq_Some_iff)
  then show ?thesis by (auto simp: has_owner_def mem_view_Some list_ex_iff)
qed

lemma mem_put:
  assumes "mem_inv lo (h, m)" "a < length h" "usr_id u = usr_id (h ! a)" "canonical_email lo (usr_email u)"
  shows "mem_inv lo (h[a := u], AList.update (user_key u) a m) \<and>
    mem_view (h[a := u], AList.update (user_key u) a m) = (mem_view (h, m))(user_key u \<mapsto> u)"
proof
  have d: "distinct (map fst m)" and e: "\<And>i b. map_of m i = Some b \<Longrightarrow>
      b < length h \<and> user_key (h ! b) = i \<and> canonical_email lo (usr_email (h ! b))"
    using assms(1) by (auto simp: mem_inv_iff)
  have k: "user_key (h ! a) = user_key u" using assms(3) by (simp add: user_key_def)
  then have ne: "b \<noteq> a" if "map_of m i = Some b" "i \<noteq> user_key u" for i b using e [OF that(1)] that by auto
  show "mem_inv lo (h[a := u], AList.update (user_key u) a m)"
    using d e ne assms by (auto simp: mem_inv_iff distinct_keys_update nth_list_update)
  show "mem_view (h[a := u], AList.update (user_key u) a m) = (mem_view (h, m))(user_key u \<mapsto> u)"
    using assms(2) ne by (auto simp: fun_eq_iff mem_view_def nth_list_update intro!: option.map_cong0)
      (metis option.set_cases)
qed

lemma mset_insert_sorted [simp]: "mset (insert_sorted lt x xs) = add_mset x (mset xs)"
  by (induction xs) auto

lemma mset_sort_slice [simp]: "mset (sort_slice lt xs) = mset xs"
  unfolding sort_slice_def by (induction xs) auto

lemma length_sort_slice [simp]: "length (sort_slice lt xs) = length xs"
  by (metis mset_sort_slice size_mset)

lemma set_sort_slice [simp]: "set (sort_slice lt xs) = set xs"
  by (metis mset_sort_slice set_mset_mset)

interpretation mem: user_store "memory_repository U" lo "mem_inv lo" mem_view for U lo
proof (unfold_locales, goal_cases)
  case (1 S i u)
  then show ?case using mem_inv_entry by (cases S) (auto simp: mem_view_Some)
next
  case (2 S)
  then show ?case by (cases S) (simp add: dom_mem_view)
next
  case (3 h r us)
  then have "a < length h" if "map_of r i = Some a" for i a using mem_inv_entry(1) that by blast
  moreover from this have "mem_view (h @ us, r) = mem_view (h, r)"
    by (auto simp: fun_eq_iff mem_view_def nth_append intro!: option.map_cong0)
  ultimately show ?case using 3 by (fastforce simp: mem_inv_iff nth_append)
next
  case (4 h r i x h' r')
  then show ?case
    using mem_inv_entry(1) [of lo h r i]
    by (auto simp: memory_repository_def mem_find_by_id_def mem_view_def split: option.splits sum.splits)
next
  case (5 h r em x h' r')
  have S: "h' = h" "r' = r" and x: "x = (case find (\<lambda>(_, a). email_string (usr_email (h ! a)) = email_string em) r of
       Some (_, a) \<Rightarrow> Inr a | None \<Rightarrow> Inl ErrUserNotFound)"
    using 5(2) by (auto simp: memory_repository_def mem_find_by_email_def)
  show ?case
  proof (cases "find (\<lambda>(_, a). email_string (usr_email (h ! a)) = email_string em) r")
    case None
    then have "usr_email (h ! a) \<noteq> em" if "(i, a) \<in> set r" for i a
      using that by (auto simp: find_None_iff)
    then show ?thesis using 5(1) None S x by (auto simp: mem_view_Some dest: map_of_SomeD)
  next
    case (Some p)
    then obtain i a where p: "(i, a) \<in> set r" "email_string (usr_email (h ! a)) = email_string em" "x = Inr a"
      using x by (cases p) (force simp: find_Some_iff in_set_conv_nth)
    then have "a < length h" "user_key (h ! a) = i" "map_of r i = Some a"
      using 5(1) by (auto simp: mem_inv_def map_of_eq_Some_iff)
    then show ?thesis using 5(1) S p by (auto simp: mem_view_Some intro: email.expand)
  qed
next
  case (6 h r a u y h' r')
  then show ?case using mem_put [of lo h r a u]
    by (auto simp: memory_repository_def mem_save_def written_def)
next
  case (7 h r a b h' r')
  then show ?case using mem_put [of lo h r a "h ! a"] mem_has_owner [of lo h r]
    by (auto simp: memory_repository_def mem_save_first_owner_def written_def split: if_splits)
next
  case (8 h r i y h' r')
  then show ?case
    by (auto simp: memory_repository_def mem_delete_def mem_inv_iff mem_view_def delete_conv' fun_eq_iff
        distinct_delete split: if_splits)
next
  case (9 h r off lim pg h' r')
  then have S: "h' = h" "r' = r" by (auto simp: memory_repository_def mem_find_paginated_def Let_def split: if_splits)
  show ?case
  proof (cases pg)
    case (Inr q)
    obtain page n where q: "q = (page, n)" by force
    have "n = int (length r)" "set page \<subseteq> snd ` set r"
      using 9(2) unfolding Inr q
      by (auto simp: memory_repository_def mem_find_paginated_def Let_def split: if_splits
          dest!: in_set_takeD in_set_dropD)
    moreover have "a < length h \<and> mem_view (h, r) (user_key (h ! a)) = Some (h ! a)" if "a \<in> snd ` set r" for a
      using that 9(1) by (fastforce simp: mem_inv_def mem_view_Some)
    ultimately show ?thesis using 9(1) card_mem_view [OF 9(1)] Inr q S by auto
  qed (use 9 S in simp)
qed

subsection \<open>The order of the pages\<close>

lemma string_less_irrefl [simp]: "\<not> string_less s s"
  by (induction s) auto

lemma string_less_trans: "string_less s t \<Longrightarrow> string_less t u \<Longrightarrow> string_less s u"
proof (induction s t arbitrary: u rule: string_less.induct)
  case (3 c s d t)
  then show ?case by (cases u) auto
qed (auto elim: string_less.elims)

lemma string_less_total: "s \<noteq> t \<Longrightarrow> string_less s t \<or> string_less t s"
proof (induction s t rule: string_less.induct)
  case (3 c s d t)
  have "c = d" if "(of_char c :: nat) = of_char d" using that by (simp add: of_char_eq_iff)
  then show ?case using 3 by (auto simp: linorder_neq_iff)
next
  case (1 s)
  then show ?case by (cases s) auto
qed simp

lemma user_before_irrefl [simp]: "\<not> user_before U h a a"
  by (simp add: user_before_def)

lemma user_before_trans: "user_before U h a b \<Longrightarrow> user_before U h b c \<Longrightarrow> user_before U h a c"
  by (auto simp: user_before_def split: if_splits intro: string_less_trans)

lemma user_before_total:
  "uuid_laws U \<Longrightarrow> user_key (h ! a) \<noteq> user_key (h ! b) \<Longrightarrow> user_before U h a b \<or> user_before U h b a"
  using string_less_total [of "uuid_String U (user_key (h ! a))" "uuid_String U (user_key (h ! b))"]
  by (auto simp: user_before_def uuid_String_inject)

lemma sorted_insert_sorted:
  assumes "\<And>x y z. lt x y \<Longrightarrow> lt y z \<Longrightarrow> lt x z" "\<And>y. y \<in> set ys \<Longrightarrow> lt x y \<or> lt y x"
    "sorted_wrt lt ys"
  shows "sorted_wrt lt (insert_sorted lt x ys)"
proof -
  have [simp]: "set (insert_sorted lt x ys) = insert x (set ys)" for ys
    by (metis mset_insert_sorted set_mset_add_mset_insert set_mset_mset)
  show ?thesis using assms(2,3)
  proof (induction ys)
    case (Cons y ys)
    have "lt x z" if "\<not> lt y x" "z \<in> set (y # ys)" for z
    proof -
      have "lt x y" using Cons.prems(1) [of y] that(1) by simp
      then show ?thesis using assms(1) [of x y z] that(2) Cons.prems(2) by auto
    qed
    then show ?case using Cons by auto
  qed simp
qed

lemma sorted_sort_slice:
  assumes "\<And>x y z. lt x y \<Longrightarrow> lt y z \<Longrightarrow> lt x z"
    "\<And>x y. x \<in> set xs \<Longrightarrow> y \<in> set xs \<Longrightarrow> x \<noteq> y \<Longrightarrow> lt x y \<or> lt y x" "distinct xs"
  shows "sorted_wrt lt (sort_slice lt xs)"
  using assms(2,3)
proof (induction xs)
  case (Cons x xs)
  have "sort_slice lt (x # xs) = insert_sorted lt x (sort_slice lt xs)" by (simp add: sort_slice_def)
  then show ?case using Cons sorted_insert_sorted [of lt "sort_slice lt xs" x] assms(1) by auto
qed (simp add: sort_slice_def)

definition users_in_order :: "uuid_lib \<Rightarrow> heap \<times> memory_store \<Rightarrow> addr list" where
  "users_in_order U S = sort_slice (user_before U (fst S)) (map snd (snd S))"

lemma mem_inv_distinct_addrs:
  assumes "mem_inv lo (h, m)"
  shows "distinct (map snd m)"
proof -
  have k: "map fst m = map (\<lambda>a. user_key (h ! a)) (map snd m)"
    using assms by (auto simp: mem_inv_def)
  have "distinct (map fst m)" using assms by (simp add: mem_inv_def)
  then show ?thesis unfolding k by (simp only: distinct_map [of "\<lambda>a. user_key (h ! a)"])
qed

lemma mem_inv_key_inj:
  assumes "mem_inv lo (h, m)" "a \<in> snd ` set m" "b \<in> snd ` set m" "a \<noteq> b"
  shows "user_key (h ! a) \<noteq> user_key (h ! b)"
proof
  assume eq: "user_key (h ! a) = user_key (h ! b)"
  obtain i j where "(i, a) \<in> set m" "(j, b) \<in> set m" using assms(2,3) by auto
  moreover from this have "user_key (h ! a) = i" "user_key (h ! b) = j"
    using assms(1) unfolding mem_inv_def by auto
  then have "i = j" using eq by simp
  ultimately show False
    using assms(1,4) by (auto simp: mem_inv_def dest: eq_key_imp_eq_value)
qed

lemma users_in_order:
  assumes "uuid_laws U" "mem_inv lo (h, m)"
  shows "sorted_wrt (user_before U h) (users_in_order U (h, m))"
    and "set (users_in_order U (h, m)) = snd ` set m" and "distinct (users_in_order U (h, m))"
    and "length (users_in_order U (h, m)) = length m"
proof -
  have d: "distinct (map snd m)" using assms(2) by (rule mem_inv_distinct_addrs)
  show "sorted_wrt (user_before U h) (users_in_order U (h, m))"
    unfolding users_in_order_def fst_conv snd_conv
    by (rule sorted_sort_slice [OF _ _ d])
      (use user_before_trans user_before_total [OF assms(1)] mem_inv_key_inj [OF assms(2)] in auto)
  show "distinct (users_in_order U (h, m))"
    using d unfolding users_in_order_def fst_conv snd_conv
    by (metis mset_eq_imp_distinct_iff mset_sort_slice)
qed (simp_all add: users_in_order_def)

lemma mem_find_paginated_page:
  assumes "0 \<le> off" "0 \<le> lim" "off + lim < 2 ^ 63" "int (length (snd S)) < 2 ^ 62" "lim < 2 ^ 62"
  shows "mem_find_paginated U off lim S =
    (Inr (take (nat lim) (drop (nat off) (users_in_order U S)), int (length (snd S))), S)"
proof -
  define n where "n = int (length (snd S))"
  define start where "start = (if n < off then n else off)"
  have start: "0 \<le> start" "start \<le> n" "start \<le> off" using assms(1) by (auto simp: start_def n_def)
  have w: "wrap64 (start + lim) = start + lim" using assms start by (intro wrap64_id) auto
  define end' where "end' = (if n < start + lim then n else start + lim)"
  have e: "start \<le> end'" "end' \<le> n" using start assms(2) by (auto simp: end'_def)
  have w2: "wrap64 (end' - start) = end' - start"
    using e start assms(4) unfolding n_def by (intro wrap64_id) auto
  have "take (nat (end' - start)) (drop (nat start) (users_in_order U S)) =
        take (nat lim) (drop (nat off) (users_in_order U S))"
  proof (cases "n < off")
    case True
    then show ?thesis by (simp add: start_def n_def users_in_order_def)
  next
    case False
    then have "start = off" by (simp add: start_def)
    then show ?thesis
      using False assms(1,2) by (auto simp: end'_def n_def users_in_order_def min_def take_all_iff)
  qed
  moreover have "mem_find_paginated U off lim S =
      (Inr (take (nat (end' - start)) (drop (nat start) (users_in_order U S)), n), S)"
    unfolding mem_find_paginated_def Let_def length_sort_slice length_map n_def [symmetric]
      start_def [symmetric] w end'_def [symmetric] w2 users_in_order_def
    using e start by simp
  ultimately show ?thesis by (simp add: n_def)
qed

end
