(* ===== verification/PostgresRepository.thy ===== *)
theory PostgresRepository
  imports Ports
begin

section \<open>The PostgreSQL user repository\<close>

text \<open>
  \<^verbatim>\<open>internal/infrastructure/persistence/postgres/user_repository.go\<close> with the schema of
  \<^verbatim>\<open>migrations/0001_create_users.sql\<close>. The SQL statements of the source are functions on the
  table \<^verbatim>\<open>users\<close>, a list of rows in no particular order, and check the constraints the schema
  declares: the primary key, the unique email and the partial unique index on the role
  \<^verbatim>\<open>owner\<close>; a violation is the error with SQLSTATE 23505. What the driver and the server do to
  values is the parameter \<open>pg_lib\<close>: the precision of a TIMESTAMPTZ and which strings a TEXT
  admits. Each statement meets the next entry of \<open>pg_net\<close>.
\<close>

record pg_lib =
  pg_timestamptz :: "time \<Rightarrow> time"
  pg_text_ok :: "string \<Rightarrow> bool"

record user_row =
  row_id :: uuid
  row_email :: string
  row_password_hash :: string
  row_name :: string
  row_role :: string
  row_is_active :: bool
  row_created_at :: time
  row_updated_at :: time

record pg_state =
  users_table :: "user_row list"
  pg_net :: "fate list"

datatype pg_error = PgError string string | ConnError string

definition pg_to_error :: "pg_error \<Rightarrow> error" where
  "pg_to_error e = (case e of PgError state msg \<Rightarrow> External msg | ConnError msg \<Rightarrow> External msg)"

definition unique_violation :: pg_error where
  "unique_violation = PgError ''23505'' ''duplicate key value violates unique constraint''"

definition invalid_text :: pg_error where
  "invalid_text = PgError ''22021'' ''invalid byte sequence''"

definition negative_offset :: pg_error where
  "negative_offset = PgError ''2201X'' ''OFFSET must not be negative''"

subsection \<open>Statements\<close>

definition conflicts :: "user_row \<Rightarrow> user_row \<Rightarrow> bool" where
  "conflicts r r' \<longleftrightarrow> row_email r = row_email r' \<or> row_role r = ''owner'' \<and> row_role r' = ''owner''"

definition row_text_ok :: "pg_lib \<Rightarrow> user_row \<Rightarrow> bool" where
  "row_text_ok P r \<longleftrightarrow> pg_text_ok P (row_email r) \<and> pg_text_ok P (row_password_hash r) \<and>
     pg_text_ok P (row_name r) \<and> pg_text_ok P (row_role r)"

definition sql_insert :: "pg_lib \<Rightarrow> user_row \<Rightarrow> user_row list \<Rightarrow> (pg_error + unit) \<times> user_row list" where
  "sql_insert P r rows =
    (if \<not> row_text_ok P r then (Inl invalid_text, rows)
     else if list_ex (\<lambda>r'. row_id r' = row_id r \<or> conflicts r r') rows then (Inl unique_violation, rows)
     else (Inr (), rows @ [r]))"

text \<open>\<^verbatim>\<open>ON CONFLICT (id) DO UPDATE\<close>: every column but \<^verbatim>\<open>created_at\<close>.\<close>

definition sql_upsert :: "pg_lib \<Rightarrow> user_row \<Rightarrow> user_row list \<Rightarrow> (pg_error + unit) \<times> user_row list" where
  "sql_upsert P r rows =
    (if \<not> row_text_ok P r then (Inl invalid_text, rows)
     else if list_ex (\<lambda>r'. row_id r' \<noteq> row_id r \<and> conflicts r r') rows then (Inl unique_violation, rows)
     else if list_ex (\<lambda>r'. row_id r' = row_id r) rows then
       (Inr (), map (\<lambda>r'. if row_id r' = row_id r then r\<lparr>row_created_at := row_created_at r'\<rparr> else r') rows)
     else (Inr (), rows @ [r]))"

definition sql_delete :: "uuid \<Rightarrow> user_row list \<Rightarrow> (pg_error + unit) \<times> user_row list" where
  "sql_delete i rows = (Inr (), filter (\<lambda>r. row_id r \<noteq> i) rows)"

definition sql_select :: "(user_row \<Rightarrow> bool) \<Rightarrow> user_row list \<Rightarrow> (pg_error + user_row list) \<times> user_row list" where
  "sql_select p rows = (Inr (filter p rows), rows)"

definition row_before :: "user_row \<Rightarrow> user_row \<Rightarrow> bool" where
  "row_before r r' \<longleftrightarrow> row_created_at r < row_created_at r' \<or>
     row_created_at r = row_created_at r' \<and> row_id r < row_id r'"

fun insert_row :: "user_row \<Rightarrow> user_row list \<Rightarrow> user_row list" where
  "insert_row r [] = [r]"
| "insert_row r (r' # rs) = (if row_before r' r then r' # insert_row r rs else r # r' # rs)"

definition sql_page :: "int \<Rightarrow> int \<Rightarrow> user_row list \<Rightarrow> (pg_error + user_row list) \<times> user_row list" where
  "sql_page offset limit rows =
    (if offset < 0 then (Inl negative_offset, rows)
     else (Inr (take (nat limit) (drop (nat offset) (foldr insert_row rows []))), rows))"

definition sql_count :: "user_row list \<Rightarrow> (pg_error + int) \<times> user_row list" where
  "sql_count rows = (Inr (int (length rows)), rows)"

definition pg_exec ::
  "(user_row list \<Rightarrow> (pg_error + 'v) \<times> user_row list) \<Rightarrow> pg_state \<Rightarrow> (pg_error + 'v) \<times> pg_state" where
  "pg_exec stmt s =
    (case pg_net s of
       [] \<Rightarrow> (Inl (ConnError ''context canceled''), s)
     | fate # rest \<Rightarrow>
        (let s = s\<lparr>pg_net := rest\<rparr> in
         case fate of
           Delivered \<Rightarrow> (case stmt (users_table s) of (x, t) \<Rightarrow> (x, s\<lparr>users_table := t\<rparr>))
         | Unsent e \<Rightarrow> (Inl (ConnError e), s)
         | ReplyLost e \<Rightarrow> (Inl (ConnError e), s\<lparr>users_table := snd (stmt (users_table s))\<rparr>)))"

subsection \<open>The adapter\<close>

definition default_find_users_limit :: int where "default_find_users_limit = 20"
definition max_find_users_limit :: int where "max_find_users_limit = 100"

definition clampLimit :: "int \<Rightarrow> int" where
  "clampLimit limit =
    (if limit \<le> 0 then default_find_users_limit
     else if max_find_users_limit < limit then max_find_users_limit else limit)"

definition row_of_user :: "pg_lib \<Rightarrow> user \<Rightarrow> user_row" where
  "row_of_user P u = \<lparr>row_id = user_key u, row_email = email_string (usr_email u),
     row_password_hash = phc (usr_password_hash u), row_name = usr_name u, row_role = usr_role u,
     row_is_active = usr_is_active u, row_created_at = pg_timestamptz P (usr_created_at u),
     row_updated_at = pg_timestamptz P (usr_updated_at u)\<rparr>"

definition scanUser :: "(nat \<Rightarrow> nat) \<Rightarrow> user_row \<Rightarrow> error + user" where
  "scanUser lo r =
    (case new_email lo (row_email r) of
       Inl e \<Rightarrow> Inl e
     | Inr em \<Rightarrow> Inr (reconstitute (UserID (row_id r)) em (PasswordHash (row_password_hash r))
         (row_name r) (row_role r) (row_is_active r) (row_created_at r) (row_updated_at r)))"

definition scan_row ::
  "(nat \<Rightarrow> nat) \<Rightarrow> (pg_error + user_row list) \<times> pg_state \<Rightarrow> heap \<Rightarrow> (error + addr) \<times> heap \<times> pg_state" where
  "scan_row lo p h =
    (case p of
       (Inl e, s) \<Rightarrow> (Inl (pg_to_error e), h, s)
     | (Inr [], s) \<Rightarrow> (Inl ErrUserNotFound, h, s)
     | (Inr (r # _), s) \<Rightarrow>
        (case scanUser lo r of
           Inl e \<Rightarrow> (Inl e, h, s)
         | Inr u \<Rightarrow> (case alloc u h of (a, h) \<Rightarrow> (Inr a, h, s))))"

definition pg_find_by_id ::
  "(nat \<Rightarrow> nat) \<Rightarrow> uuid \<Rightarrow> heap \<times> pg_state \<Rightarrow> (error + addr) \<times> heap \<times> pg_state" where
  "pg_find_by_id lo i S = (case S of (h, s) \<Rightarrow> scan_row lo (pg_exec (sql_select (\<lambda>r. row_id r = i)) s) h)"

definition pg_find_by_email ::
  "pg_lib \<Rightarrow> (nat \<Rightarrow> nat) \<Rightarrow> email \<Rightarrow> heap \<times> pg_state \<Rightarrow> (error + addr) \<times> heap \<times> pg_state" where
  "pg_find_by_email P lo em S =
    (case S of (h, s) \<Rightarrow> scan_row lo (pg_exec (\<lambda>rows.
       if \<not> pg_text_ok P (email_string em) then (Inl invalid_text, rows)
       else sql_select (\<lambda>r. row_email r = email_string em) rows) s) h)"

definition exec_result :: "(pg_error + 'v) \<times> pg_state \<Rightarrow> heap \<Rightarrow> (error + 'v) \<times> heap \<times> pg_state" where
  "exec_result p h = (case p of (Inl e, s) \<Rightarrow> (Inl (pg_to_error e), h, s) | (Inr v, s) \<Rightarrow> (Inr v, h, s))"

definition pg_save :: "pg_lib \<Rightarrow> addr \<Rightarrow> heap \<times> pg_state \<Rightarrow> (error + unit) \<times> heap \<times> pg_state" where
  "pg_save P a S = (case S of (h, s) \<Rightarrow> exec_result (pg_exec (sql_upsert P (row_of_user P (h ! a))) s) h)"

definition pg_delete :: "uuid \<Rightarrow> heap \<times> pg_state \<Rightarrow> (error + unit) \<times> heap \<times> pg_state" where
  "pg_delete i S = (case S of (h, s) \<Rightarrow> exec_result (pg_exec (sql_delete i) s) h)"

definition pg_count :: "heap \<times> pg_state \<Rightarrow> (error + int) \<times> heap \<times> pg_state" where
  "pg_count S = (case S of (h, s) \<Rightarrow> exec_result (pg_exec sql_count s) h)"

definition pg_save_first_owner :: "pg_lib \<Rightarrow> addr \<Rightarrow> heap \<times> pg_state \<Rightarrow> (error + bool) \<times> heap \<times> pg_state" where
  "pg_save_first_owner P a S =
    (case S of (h, s) \<Rightarrow>
      (case pg_exec (sql_insert P ((row_of_user P (h ! a))\<lparr>row_role := ''owner''\<rparr>)) s of
         (Inr _, s) \<Rightarrow> (Inr True, h, s)
       | (Inl (PgError state msg), s) \<Rightarrow>
           if state = ''23505'' then (Inr False, h, s) else (Inl (External msg), h, s)
       | (Inl (ConnError msg), s) \<Rightarrow> (Inl (External msg), h, s)))"

primrec scan_rows :: "(nat \<Rightarrow> nat) \<Rightarrow> user_row list \<Rightarrow> heap \<Rightarrow> (error + addr list) \<times> heap" where
  "scan_rows lo [] h = (Inr [], h)"
| "scan_rows lo (r # rs) h =
    (case scanUser lo r of
       Inl e \<Rightarrow> (Inl e, h)
     | Inr u \<Rightarrow> (case alloc u h of (a, h) \<Rightarrow>
         (case scan_rows lo rs h of (Inl e, h) \<Rightarrow> (Inl e, h) | (Inr as, h) \<Rightarrow> (Inr (a # as), h))))"

definition pg_find_paginated ::
  "(nat \<Rightarrow> nat) \<Rightarrow> int \<Rightarrow> int \<Rightarrow> heap \<times> pg_state \<Rightarrow> (error + addr list \<times> int) \<times> heap \<times> pg_state" where
  "pg_find_paginated lo offset limit S =
    (case S of (h, s) \<Rightarrow>
      (case pg_exec (sql_page offset (clampLimit limit)) s of
         (Inl e, s) \<Rightarrow> (Inl (pg_to_error e), h, s)
       | (Inr rows, s) \<Rightarrow>
          (case scan_rows lo rows h of
             (Inl e, h) \<Rightarrow> (Inl e, h, s)
           | (Inr users, h) \<Rightarrow>
              (case pg_exec sql_count s of
                 (Inl e, s) \<Rightarrow> (Inl (pg_to_error e), h, s)
               | (Inr n, s) \<Rightarrow> (Inr (users, n), h, s)))))"

definition postgres_repository :: "pg_lib \<Rightarrow> (nat \<Rightarrow> nat) \<Rightarrow> pg_state user_repository" where
  "postgres_repository P lo = \<lparr>FindByID = pg_find_by_id lo, FindByEmail = pg_find_by_email P lo,
     Save = pg_save P, Delete = pg_delete, Count = pg_count, SaveFirstOwner = pg_save_first_owner P,
     FindPaginated = pg_find_paginated lo\<rparr>"

subsection \<open>The constraints of the schema\<close>

definition pg_constraints :: "user_row list \<Rightarrow> bool" where
  "pg_constraints rows \<longleftrightarrow> distinct (map row_id rows) \<and> distinct (map row_email rows) \<and>
     length (filter (\<lambda>r. row_role r = ''owner'') rows) \<le> 1"

definition pg_inv :: "(nat \<Rightarrow> nat) \<Rightarrow> heap \<times> pg_state \<Rightarrow> bool" where
  "pg_inv lo S \<longleftrightarrow> pg_constraints (users_table (snd S)) \<and>
     (\<forall>r \<in> set (users_table (snd S)). canonical_email lo (Email (row_email r)))"

definition user_of_row :: "user_row \<Rightarrow> user" where
  "user_of_row r = reconstitute (UserID (row_id r)) (Email (row_email r)) (PasswordHash (row_password_hash r))
     (row_name r) (row_role r) (row_is_active r) (row_created_at r) (row_updated_at r)"

definition pg_view :: "heap \<times> pg_state \<Rightarrow> uuid \<Rightarrow> user option" where
  "pg_view S i = map_option user_of_row (find (\<lambda>r. row_id r = i) (users_table (snd S)))"

lemma user_of_row_simps [simp]:
  "usr_id (user_of_row r) = UserID (row_id r)" "usr_email (user_of_row r) = Email (row_email r)"
  "usr_role (user_of_row r) = row_role r" "user_key (user_of_row r) = row_id r"
  by (simp_all add: user_of_row_def reconstitute_def user_key_def)

lemma row_of_user_simps [simp]:
  "row_id (row_of_user P u) = user_key u" "row_email (row_of_user P u) = email_string (usr_email u)"
  "row_role (row_of_user P u) = usr_role u"
  by (simp_all add: row_of_user_def)

lemma content_row [simp]:
  "content (user_of_row (row_of_user P u)) = content u"
  "content (user_of_row (row_of_user P u\<lparr>row_created_at := t\<rparr>)) = content u"
  by (simp_all add: content_def user_of_row_def row_of_user_def reconstitute_def user_key_def)

lemma find_row:
  assumes "distinct (map row_id rows)"
  shows "find (\<lambda>r. row_id r = i) rows = Some r \<longleftrightarrow> r \<in> set rows \<and> row_id r = i"
  using assms by (induction rows) auto

lemma find_no_row: "find (\<lambda>r. row_id r = i) rows = None \<longleftrightarrow> i \<notin> row_id ` set rows"
  by (auto simp: find_None_iff)

lemma find_map_row:
  fixes rows :: "user_row list"
  assumes "\<And>r. row_id (g r) = row_id r"
  shows "find (\<lambda>r. row_id r = i) (map g rows) = map_option g (find (\<lambda>r. row_id r = i) rows)"
  using assms by (induction rows) auto

lemma find_append: "find p (xs @ ys) = (case find p xs of None \<Rightarrow> find p ys | Some x \<Rightarrow> Some x)"
  by (induction xs) auto

lemma scanUser_canonical: "canonical_email lo (Email (row_email r)) \<Longrightarrow> scanUser lo r = Inr (user_of_row r)"
  by (simp add: scanUser_def canonical_email_def user_of_row_def)

lemma one_filter: "length (filter p xs) \<le> 1 \<Longrightarrow> x \<in> set xs \<Longrightarrow> y \<in> set xs \<Longrightarrow> p x \<Longrightarrow> p y \<Longrightarrow> x = y"
  by (induction xs) (auto simp: filter_empty_conv split: if_splits)

text \<open>Replacing the row with a given key, or adding one.\<close>

lemma constraints_append:
  assumes "pg_constraints rows" "\<not> list_ex (\<lambda>r'. row_id r' = row_id r \<or> conflicts r r') rows"
  shows "pg_constraints (rows @ [r])"
proof -
  have "row_role r \<noteq> ''owner'' \<or> filter (\<lambda>r. row_role r = ''owner'') rows = []"
    using assms(2) by (auto simp: list_ex_iff conflicts_def filter_empty_conv)
  then show ?thesis using assms
    by (auto simp: pg_constraints_def list_ex_iff conflicts_def)
qed

lemma constraints_replace:
  assumes "pg_constraints rows" "\<not> list_ex (\<lambda>r'. row_id r' \<noteq> row_id r \<and> conflicts r r') rows"
    "\<And>r'. row_id (f r') = row_id r \<and> row_email (f r') = row_email r \<and> row_role (f r') = row_role r"
  shows "pg_constraints (map (\<lambda>r'. if row_id r' = row_id r then f r' else r') rows)"
  using assms(1,2)
proof (induction rows)
  case (Cons x xs)
  let ?g = "\<lambda>r'. if row_id r' = row_id r then f r' else r'"
  have ids: "map row_id (map ?g ys) = map row_id ys" for ys using assms(3) by (induction ys) auto
  have none: "map ?g xs = xs" if "row_id x = row_id r"
    using Cons.prems(1) that by (intro map_idI) (auto simp: pg_constraints_def image_iff)
  have xs: "pg_constraints xs" using Cons.prems(1) by (auto simp: pg_constraints_def split: if_splits)
  have ih: "pg_constraints (map ?g xs)" using Cons.IH xs Cons.prems(2) by simp
  show ?case
  proof (cases "row_id x = row_id r")
    case True
    have other: "\<not> conflicts r y" if "y \<in> set xs" for y
    proof -
      have "row_id x \<notin> row_id ` set xs" using Cons.prems(1) by (simp add: pg_constraints_def)
      then have "row_id y \<noteq> row_id r" using that True by (metis image_eqI)
      then show ?thesis using Cons.prems(2) that by (auto simp: list_ex_iff)
    qed
    then have "row_role r \<noteq> ''owner'' \<or> filter (\<lambda>r. row_role r = ''owner'') xs = []"
      by (auto simp: conflicts_def filter_empty_conv)
    moreover have "row_email r \<notin> row_email ` set xs" using other by (auto simp: conflicts_def)
    ultimately show ?thesis
      using True none xs assms(3) Cons.prems(1) by (auto simp: pg_constraints_def)
  next
    case False
    have nc: "\<not> conflicts r x" using Cons.prems(2) False by simp
    have "row_email x \<notin> row_email ` set (map ?g xs)"
      using Cons.prems(1) nc assms(3) by (auto simp: pg_constraints_def conflicts_def)
    moreover have "row_role x \<noteq> ''owner'' \<or> filter (\<lambda>r. row_role r = ''owner'') (map ?g xs) = []"
      using Cons.prems(1) nc assms(3)
      by (auto simp: pg_constraints_def conflicts_def filter_empty_conv split: if_splits)
    ultimately show ?thesis using False ih ids [of "x # xs"] Cons.prems(1) by (auto simp: pg_constraints_def)
  qed
qed simp

subsection \<open>The contract holds\<close>

lemma pg_exec_cases:
  assumes "pg_exec stmt s = (x, s')"
  shows "(\<exists>v t. x = Inr v \<and> stmt (users_table s) = (Inr v, t) \<and> users_table s' = t) \<or>
    (\<exists>e. x = Inl e \<and> (users_table s' = users_table s \<or> users_table s' = snd (stmt (users_table s))) \<and>
       (\<forall>st m. e = PgError st m \<longrightarrow> fst (stmt (users_table s)) = Inl e \<and> users_table s' = snd (stmt (users_table s))))"
  using assms by (auto simp: pg_exec_def Let_def split: list.splits fate.splits prod.splits)
    (metis sum.exhaust)

lemma pg_exec_read:
  assumes "pg_exec stmt s = (x, s')" "\<And>t. snd (stmt t) = t"
  shows "users_table s' = users_table s \<and> (\<forall>v. x = Inr v \<longrightarrow> fst (stmt (users_table s)) = Inr v)"
  using pg_exec_cases [OF assms(1)] assms(2) by (metis fst_conv snd_conv sum.distinct(1))

lemma pg_inv_cong:
  "users_table s' = users_table s \<Longrightarrow> pg_inv lo (h', s') = pg_inv lo (h, s)"
  "users_table s' = users_table s \<Longrightarrow> pg_view (h', s') = pg_view (h, s)"
  by (simp_all add: pg_inv_def pg_view_def fun_eq_iff)

lemma pg_view_Some:
  "pg_constraints (users_table s) \<Longrightarrow>
   pg_view (h, s) i = Some u \<longleftrightarrow> (\<exists>r \<in> set (users_table s). row_id r = i \<and> u = user_of_row r)"
  unfolding pg_view_def snd_conv pg_constraints_def by (auto simp: find_row)

lemma dom_pg_view: "dom (pg_view (h, s)) = row_id ` set (users_table s)"
  using find_no_row [of _ "users_table s"] by (auto simp: pg_view_def dom_def)

lemma pg_has_owner:
  "pg_constraints (users_table s) \<Longrightarrow>
   has_owner (pg_view (h, s)) \<longleftrightarrow> list_ex (\<lambda>r. row_role r = ''owner'') (users_table s)"
  by (fastforce simp: has_owner_def pg_view_Some list_ex_iff)

lemma scan_row_view:
  assumes "pg_inv lo (h, s)" "pg_exec stmt s = (p, s1)" "\<And>t. snd (stmt t) = t"
    "\<And>rs. fst (stmt (users_table s)) = Inr rs \<Longrightarrow> rs = filter q (users_table s)"
    "scan_row lo (p, s1) h = (x, h', s')"
  shows "pg_inv lo (h', s') \<and> pg_view (h', s') = pg_view (h, s) \<and> (\<exists>ext. h' = h @ ext) \<and>
    (case x of Inr a \<Rightarrow> a < length h' \<and> (\<exists>r \<in> set (users_table s). q r \<and> h' ! a = user_of_row r)
     | Inl e \<Rightarrow> e = ErrUserNotFound \<longrightarrow> (\<forall>r \<in> set (users_table s). \<not> q r))"
proof -
  have t: "users_table s1 = users_table s"
    and rs: "\<And>rs. p = Inr rs \<Longrightarrow> rs = filter q (users_table s)"
    using pg_exec_read [OF assms(2,3)] assms(4) by auto
  have s': "s' = s1"
    using assms(5) by (auto simp: scan_row_def split: sum.splits list.splits prod.splits)
  have same: "pg_inv lo (h', s') = pg_inv lo (h, s)" "pg_view (h', s') = pg_view (h, s)"
    using pg_inv_cong t s' by simp_all
  show ?thesis
  proof (cases p)
    case (Inl e)
    moreover have "pg_to_error e \<noteq> ErrUserNotFound" by (simp add: pg_to_error_def split: pg_error.split)
    ultimately show ?thesis using assms(1,5) same by (auto simp: scan_row_def)
  next
    case p: (Inr l)
    show ?thesis
    proof (cases l)
      case Nil
      then have "filter q (users_table s) = []" using rs p by simp
      then show ?thesis using assms(1,5) same p Nil by (auto simp: scan_row_def filter_empty_conv)
    next
      case (Cons r ls)
      then have "r \<in> set (filter q (users_table s))" using rs [OF p] by (metis list.set_intros(1))
      then have r: "r \<in> set (users_table s)" "q r" by auto
      then have "scanUser lo r = Inr (user_of_row r)"
        using assms(1) by (intro scanUser_canonical) (simp add: pg_inv_def)
      then have "x = Inr (length h)" "h' = h @ [user_of_row r]"
        using assms(5) p Cons by (auto simp: scan_row_def alloc_def)
      then show ?thesis using assms(1) same r by auto
    qed
  qed
qed

lemma scan_rows_view:
  assumes "\<forall>r \<in> set rs. canonical_email lo (Email (row_email r))"
  shows "scan_rows lo rs h = (Inr [length h..<length h + length rs], h @ map user_of_row rs)"
  using assms
proof (induction rs arbitrary: h)
  case (Cons r rs)
  then show ?case using Cons.IH [of "h @ [user_of_row r]"]
    by (simp add: scanUser_canonical alloc_def upt_conv_Cons del: upt_Suc)
qed simp

lemma upsert_written:
  assumes "pg_inv lo (h, s)" "canonical_email lo (usr_email u)"
    "sql_upsert P (row_of_user P u) (users_table s) = (x, t)" "users_table s' = t"
  shows "pg_inv lo (h', s') \<and> (if x = Inr () then written (pg_view (h, s)) u (pg_view (h', s'))
      else is_err x \<and> pg_view (h', s') = pg_view (h, s))"
proof -
  let ?rows = "users_table s" and ?r = "row_of_user P u"
  have c: "pg_constraints ?rows" and em: "\<forall>r \<in> set ?rows. canonical_email lo (Email (row_email r))"
    using assms(1) by (simp_all add: pg_inv_def)
  have cr: "canonical_email lo (Email (row_email ?r))" using assms(2) by simp
  have x: "x = Inr () \<or> is_err x \<and> t = ?rows"
    using assms(3) by (auto simp: sql_upsert_def split: if_splits)
  show ?thesis
  proof (cases "x = Inr ()")
    case False
    then have "t = ?rows" "is_err x" using x by auto
    then show ?thesis using assms(1,4) False pg_inv_cong [of s' s] by auto
  next
    case True
    have nc: "\<not> list_ex (\<lambda>r'. row_id r' \<noteq> row_id ?r \<and> conflicts ?r r') ?rows"
      using assms(3) True by (auto simp: sql_upsert_def split: if_splits)
    show ?thesis
    proof (cases "list_ex (\<lambda>r'. row_id r' = row_id ?r) ?rows")
      case False
      then have t: "t = ?rows @ [?r]" using assms(3) True nc by (auto simp: sql_upsert_def split: if_splits)
      have "\<not> list_ex (\<lambda>r'. row_id r' = row_id ?r \<or> conflicts ?r r') ?rows"
        using False nc by (auto simp: list_ex_iff)
      then have c': "pg_constraints t" unfolding t by (rule constraints_append [OF c])
      have "pg_view (h', s') = (pg_view (h, s))(user_key u \<mapsto> user_of_row ?r)"
        using False assms(4) find_no_row [of "user_key u" ?rows] t
        by (auto simp: fun_eq_iff pg_view_def list_ex_iff image_iff find_append split: option.splits)
      moreover have "content (user_of_row ?r) = content u" by simp
      ultimately have "written (pg_view (h, s)) u (pg_view (h', s'))" unfolding written_def by blast
      then show ?thesis using True c' em cr assms(4) t by (auto simp: pg_inv_def)
    next
      case ex: True
      define f where "f = (\<lambda>r' :: user_row. ?r\<lparr>row_created_at := row_created_at r'\<rparr>)"
      have t: "t = map (\<lambda>r'. if row_id r' = row_id ?r then f r' else r') ?rows"
        using assms(3) True nc ex by (auto simp: sql_upsert_def f_def split: if_splits)
      have f: "row_id (f r') = row_id ?r \<and> row_email (f r') = row_email ?r \<and> row_role (f r') = row_role ?r" for r'
        by (simp add: f_def row_of_user_def)
      have c': "pg_constraints t" unfolding t by (rule constraints_replace [OF c nc f])
      obtain r0 where r0: "r0 \<in> set ?rows" "row_id r0 = user_key u" using ex by (auto simp: list_ex_iff)
      have find': "find (\<lambda>r. row_id r = i) t =
          map_option (\<lambda>r' :: user_row. if row_id r' = user_key u then f r' else r')
            (find (\<lambda>r. row_id r = i) ?rows)" for i
        unfolding t using f by (subst find_map_row) auto
      have hit: "find (\<lambda>r. row_id r = user_key u) ?rows = Some r0"
        using find_row [of ?rows] c r0 by (simp add: pg_constraints_def)
      have key: "find (\<lambda>r. row_id r = i) ?rows = Some r' \<Longrightarrow> row_id r' = i" for i r'
        using find_row [of ?rows] c by (simp add: pg_constraints_def)
      have "pg_view (h', s') i = ((pg_view (h, s))(user_key u \<mapsto> user_of_row (f r0))) i" for i
      proof (cases "i = user_key u")
        case True
        then show ?thesis using assms(4) find' [of i] hit r0(2) by (simp add: pg_view_def)
      next
        case False
        show ?thesis
        proof (cases "find (\<lambda>r. row_id r = i) ?rows")
          case None
          then show ?thesis using assms(4) find' [of i] False by (simp add: pg_view_def)
        next
          case (Some r')
          then have "row_id r' = i" by (rule key)
          then show ?thesis using assms(4) find' [of i] False Some by (simp add: pg_view_def)
        qed
      qed
      then have "pg_view (h', s') = (pg_view (h, s))(user_key u \<mapsto> user_of_row (f r0))" by blast
      moreover have "content (user_of_row (f r0)) = content u" by (simp add: f_def)
      ultimately have "written (pg_view (h, s)) u (pg_view (h', s'))" unfolding written_def by blast
      moreover have "canonical_email lo (Email (row_email r))" if "r \<in> set t" for r
      proof -
        obtain r' where r': "r' \<in> set ?rows" "r = (if row_id r' = row_id ?r then f r' else r')"
          using \<open>r \<in> set t\<close> unfolding t by auto
        then have "row_email r = row_email ?r \<or> row_email r = row_email r'" using f [of r'] by auto
        then show ?thesis using em cr r'(1) by metis
      qed
      ultimately show ?thesis using True c' assms(4) by (simp add: pg_inv_def)
    qed
  qed
qed

lemma insert_owner_written:
  assumes "pg_inv lo (h, s)" "canonical_email lo (usr_email u)" "usr_role u = RoleOwner"
    "sql_insert P (row_of_user P u) (users_table s) = (x, t)" "users_table s' = t"
  shows "pg_inv lo (h', s') \<and> (if x = Inr () then
      \<not> has_owner (pg_view (h, s)) \<and> written (pg_view (h, s)) u (pg_view (h', s'))
    else is_err x \<and> pg_view (h', s') = pg_view (h, s))"
proof (cases "x = Inr ()")
  case False
  then have "t = users_table s" "is_err x" using assms(4) by (auto simp: sql_insert_def split: if_splits)
  then show ?thesis using assms(1,5) False pg_inv_cong [of s' s] by auto
next
  case True
  let ?rows = "users_table s" and ?r = "row_of_user P u"
  have nc: "\<not> list_ex (\<lambda>r'. row_id r' = row_id ?r \<or> conflicts ?r r') ?rows"
    and ok: "row_text_ok P ?r" "t = ?rows @ [?r]"
    using assms(4) True by (auto simp: sql_insert_def split: if_splits)
  then have "sql_upsert P ?r ?rows = (Inr (), t)"
    by (auto simp: sql_upsert_def list_ex_iff)
  from upsert_written [OF assms(1,2) this assms(5), of h'] True have
    "pg_inv lo (h', s')" "written (pg_view (h, s)) u (pg_view (h', s'))" by auto
  moreover have "\<not> has_owner (pg_view (h, s))"
    using nc assms(1,3) by (auto simp: pg_has_owner pg_inv_def list_ex_iff conflicts_def)
  ultimately show ?thesis using True by simp
qed

lemma sql_reads: "snd (sql_select p t) = t" "snd (sql_count t) = t" "snd (sql_page off lim t) = t"
  by (simp_all add: sql_select_def sql_count_def sql_page_def)

lemma set_insert_row [simp]: "set (insert_row r rs) = insert r (set rs)"
  by (induction rs) auto

lemma set_sorted_rows: "set (foldr insert_row rs []) = set rs"
  by (induction rs) auto

text \<open>An executed statement, with \<open>Q\<close> what holds when it ran and \<open>N\<close> when it did not.\<close>

lemma pg_exec_write:
  assumes "pg_exec stmt s = (x, s')" "stmt (users_table s) = (y, t)"
    "\<And>s'. users_table s' = t \<Longrightarrow> Q y s'" "\<And>s'. users_table s' = users_table s \<Longrightarrow> N s'"
  shows "x = y \<and> Q y s' \<or> (\<exists>e. x = Inl (ConnError e)) \<and> (Q y s' \<or> N s')"
  using assms by (auto simp: pg_exec_def Let_def split: list.splits fate.splits prod.splits)

lemma first_owner_pg:
  assumes "pg_inv lo (h, s)" "canonical_email lo (usr_email (h ! a))" "usr_role (h ! a) = RoleOwner"
    "pg_save_first_owner P a (h, s) = (b, h', s')"
  shows "h' = h \<and> pg_inv lo (h', s') \<and>
    (\<not> has_owner (pg_view (h, s)) \<and> written (pg_view (h, s)) (h ! a) (pg_view (h', s')) \<and> b \<noteq> Inr False \<or>
     b \<noteq> Inr True \<and> pg_view (h', s') = pg_view (h, s))"
proof -
  let ?r = "row_of_user P (h ! a)"
  have r: "?r\<lparr>row_role := ''owner''\<rparr> = ?r" using assms(3) by (simp add: row_of_user_def)
  obtain y t where st: "sql_insert P ?r (users_table s) = (y, t)" by fastforce
  obtain x s1 where ex: "pg_exec (sql_insert P ?r) s = (x, s1)" by fastforce
  define Q where "Q = (\<lambda>(y :: pg_error + unit) s'. pg_inv lo (h, s') \<and> (if y = Inr () then
      \<not> has_owner (pg_view (h, s)) \<and> written (pg_view (h, s)) (h ! a) (pg_view (h, s'))
    else is_err y \<and> pg_view (h, s') = pg_view (h, s)))"
  define N where "N = (\<lambda>s'. pg_inv lo (h, s') \<and> pg_view (h, s') = pg_view (h, s))"
  have "Q y s'" if "users_table s' = t" for s'
    using insert_owner_written [OF assms(1,2,3) st that] by (simp add: Q_def)
  moreover have "N s'" if "users_table s' = users_table s" for s'
    using pg_inv_cong(1) [OF that, of lo h h] assms(1) pg_inv_cong(2) [OF that, of h h] by (simp add: N_def)
  ultimately have q: "x = y \<and> Q y s1 \<or> (\<exists>e. x = Inl (ConnError e)) \<and> (Q y s1 \<or> N s1)"
    by (rule pg_exec_write [OF ex st])
  have res: "h' = h \<and> s' = s1 \<and> (b = Inr True \<longrightarrow> x = Inr ()) \<and> (b = Inr False \<longrightarrow> (\<exists>st m. x = Inl (PgError st m)))"
    using assms(4) r ex
    by (auto simp: pg_save_first_owner_def split: sum.splits pg_error.splits if_splits)
  show ?thesis
  proof (cases "y = Inr ()")
    case True
    then show ?thesis using q res by (auto simp: Q_def N_def)
  next
    case False
    then show ?thesis using q res by (auto simp: Q_def N_def)
  qed
qed

lemma constraints_filter: "pg_constraints rows \<Longrightarrow> pg_constraints (filter p rows)"
proof -
  assume c: "pg_constraints rows"
  have "length (filter q (filter p rows)) \<le> length (filter q rows)" for q
    by (induction rows) auto
  then have "length (filter (\<lambda>r. row_role r = ''owner'') (filter p rows)) \<le> 1"
    using c order_trans unfolding pg_constraints_def by blast
  then show ?thesis using c by (simp add: pg_constraints_def distinct_map_filter)
qed

lemma delete_pg:
  assumes "pg_inv lo (h, s)" "users_table s' = filter (\<lambda>r. row_id r \<noteq> i) (users_table s)"
  shows "pg_inv lo (h, s') \<and> pg_view (h, s') = (pg_view (h, s))(i := None)"
proof
  show "pg_inv lo (h, s')" using assms constraints_filter by (auto simp: pg_inv_def)
  have "find (\<lambda>r. row_id r = j) (filter (\<lambda>r. row_id r \<noteq> i) rows) =
      (if j = i then None else find (\<lambda>r. row_id r = j) rows)" for j and rows :: "user_row list"
    by (induction rows) auto
  then show "pg_view (h, s') = (pg_view (h, s))(i := None)" using assms(2) by (auto simp: pg_view_def)
qed

lemma find_paginated_pg:
  assumes "pg_inv lo (h, s)" "pg_find_paginated lo off lim (h, s) = (pg, h', s')"
  shows "pg_inv lo (h', s') \<and> pg_view (h', s') = pg_view (h, s) \<and>
    (case pg of Inr (page, n) \<Rightarrow> n = int (card (dom (pg_view (h, s)))) \<and>
       (\<forall>a \<in> set page. a < length h' \<and> pg_view (h, s) (user_key (h' ! a)) = Some (h' ! a))
     | Inl _ \<Rightarrow> True)"
proof -
  have c: "pg_constraints (users_table s)" using assms(1) by (simp add: pg_inv_def)
  have card: "card (dom (pg_view (h, s))) = length (users_table s)"
    using c distinct_card [of "map row_id (users_table s)"] by (simp add: dom_pg_view pg_constraints_def)
  obtain p s1 where ex: "pg_exec (sql_page off (clampLimit lim)) s = (p, s1)" by fastforce
  have s1: "users_table s1 = users_table s"
    and rows: "\<And>rs. p = Inr rs \<Longrightarrow> fst (sql_page off (clampLimit lim) (users_table s)) = Inr rs"
    using pg_exec_read [OF ex sql_reads(3)] by auto
  obtain n s2 where ex2: "pg_exec sql_count s1 = (n, s2)" by fastforce
  have s2: "users_table s2 = users_table s" and n: "\<And>k. n = Inr k \<Longrightarrow> k = int (length (users_table s))"
    using pg_exec_read [OF ex2 sql_reads(2)] s1 by (auto simp: sql_count_def)
  show ?thesis
  proof (cases p)
    case (Inl e)
    then have "s' = s1" "is_err pg" using assms(2) ex by (auto simp: pg_find_paginated_def)
    then show ?thesis
      using pg_inv_cong(1) [OF s1, of lo h' h] pg_inv_cong(2) [OF s1, of h' h] assms(1) by (auto split: sum.splits)
  next
    case (Inr rs)
    have sub: "set rs \<subseteq> set (users_table s)"
    proof -
      have "rs = take (nat (clampLimit lim)) (drop (nat off) (foldr insert_row (users_table s) []))"
        using rows [OF Inr] by (auto simp: sql_page_def split: if_splits)
      then have "set rs \<subseteq> set (foldr insert_row (users_table s) [])"
        by (auto dest!: in_set_takeD in_set_dropD)
      then show ?thesis by (simp add: set_sorted_rows)
    qed
    have scan: "scan_rows lo rs h = (Inr [length h..<length h + length rs], h @ map user_of_row rs)"
      using sub assms(1) by (intro scan_rows_view) (auto simp: pg_inv_def)
    have res: "h' = h @ map user_of_row rs" "s' = s2"
      "pg = (case n of Inl e \<Rightarrow> Inl (pg_to_error e) | Inr k \<Rightarrow> Inr ([length h..<length h + length rs], k))"
      using assms(2) ex Inr scan ex2 by (auto simp: pg_find_paginated_def split: sum.splits)
    have "h' ! a = user_of_row (rs ! (a - length h)) \<and> rs ! (a - length h) \<in> set (users_table s)"
      if "length h \<le> a" "a < length h + length rs" for a
      using that sub res(1) by (auto simp: nth_append)
    then have "\<forall>a \<in> set [length h..<length h + length rs]. a < length h' \<and>
        pg_view (h, s) (user_key (h' ! a)) = Some (h' ! a)"
      using res(1) c by (auto simp: pg_view_Some)
    then show ?thesis
      using pg_inv_cong(1) [OF s2, of lo h' h] pg_inv_cong(2) [OF s2, of h' h] assms(1) res n card
      by (auto split: sum.splits)
  qed
qed

interpretation pg: user_store "postgres_repository P lo" lo "pg_inv lo" pg_view for P lo
proof (unfold_locales, goal_cases)
  case (1 S i u)
  obtain h s where S: "S = (h, s)" by fastforce
  then show ?case using 1 by (auto simp: pg_inv_def pg_view_Some)
next
  case (2 S)
  then show ?case by (cases S) (simp add: dom_pg_view)
next
  case (3 h r us)
  then show ?case using pg_inv_cong(1) [of r r lo "h @ us" h] pg_inv_cong(2) [of r r "h @ us" h] by simp
next
  case (4 h s i x h' s')
  obtain p s1 where ex: "pg_exec (sql_select (\<lambda>r. row_id r = i)) s = (p, s1)" by fastforce
  have sc: "scan_row lo (p, s1) h = (x, h', s')"
    using 4(2) ex by (simp add: postgres_repository_def pg_find_by_id_def)
  have v: "pg_inv lo (h', s') \<and> pg_view (h', s') = pg_view (h, s) \<and> (\<exists>ext. h' = h @ ext) \<and>
    (case x of Inr a \<Rightarrow> a < length h' \<and> (\<exists>r \<in> set (users_table s). row_id r = i \<and> h' ! a = user_of_row r)
     | Inl e \<Rightarrow> e = ErrUserNotFound \<longrightarrow> (\<forall>r \<in> set (users_table s). row_id r \<noteq> i))"
    by (rule scan_row_view [OF 4(1) ex _ _ sc]) (auto simp: sql_select_def)
  have c: "pg_constraints (users_table s)" using 4(1) by (simp add: pg_inv_def)
  have none: "\<forall>r \<in> set (users_table s). row_id r \<noteq> i \<Longrightarrow> pg_view (h, s) i = None"
    using find_no_row [of i "users_table s"] by (auto simp: pg_view_def)
  show ?case using v c none by (cases x) (auto simp: pg_view_Some)
next
  case (5 h s em x h' s')
  let ?stmt = "\<lambda>rows. if \<not> pg_text_ok P (email_string em) then (Inl invalid_text, rows)
      else sql_select (\<lambda>r. row_email r = email_string em) rows"
  obtain p s1 where ex: "pg_exec ?stmt s = (p, s1)" by fastforce
  have sc: "scan_row lo (p, s1) h = (x, h', s')"
    using 5(2) ex by (simp add: postgres_repository_def pg_find_by_email_def)
  have v: "pg_inv lo (h', s') \<and> pg_view (h', s') = pg_view (h, s) \<and> (\<exists>ext. h' = h @ ext) \<and>
    (case x of Inr a \<Rightarrow> a < length h' \<and>
        (\<exists>r \<in> set (users_table s). row_email r = email_string em \<and> h' ! a = user_of_row r)
     | Inl e \<Rightarrow> e = ErrUserNotFound \<longrightarrow> (\<forall>r \<in> set (users_table s). row_email r \<noteq> email_string em))"
    by (rule scan_row_view [OF 5(1) ex _ _ sc]) (auto simp: sql_select_def split: if_splits)
  have c: "pg_constraints (users_table s)" using 5(1) by (simp add: pg_inv_def)
  show ?case using v c by (cases x) (auto simp: pg_view_Some)
next
  case (6 h s a u y h' s')
  obtain z t where st: "sql_upsert P (row_of_user P u) (users_table s) = (z, t)" by fastforce
  obtain x s1 where ex: "pg_exec (sql_upsert P (row_of_user P u)) s = (x, s1)" by fastforce
  define Q where "Q = (\<lambda>(z :: pg_error + unit) s'. pg_inv lo (h[a := u], s') \<and>
    (if z = Inr () then written (pg_view (h, s)) u (pg_view (h[a := u], s'))
     else is_err z \<and> pg_view (h[a := u], s') = pg_view (h, s)))"
  define N where "N = (\<lambda>s'. pg_inv lo (h[a := u], s') \<and> pg_view (h[a := u], s') = pg_view (h, s))"
  have "Q z s'" if "users_table s' = t" for s'
    using upsert_written [OF 6(1,4) st that] by (simp add: Q_def)
  moreover have "N s'" if "users_table s' = users_table s" for s'
    using pg_inv_cong(1) [OF that, of lo "h[a := u]" h] 6(1) pg_inv_cong(2) [OF that, of "h[a := u]" h]
    by (simp add: N_def)
  ultimately have q: "x = z \<and> Q z s1 \<or> (\<exists>e. x = Inl (ConnError e)) \<and> (Q z s1 \<or> N s1)"
    by (rule pg_exec_write [OF ex st])
  have "h' = h[a := u] \<and> s' = s1 \<and> (is_err x \<longrightarrow> is_err y)"
    using 6(2,5) ex by (auto simp: postgres_repository_def pg_save_def exec_result_def split: sum.splits)
  then show ?case using q by (auto simp: Q_def N_def split: if_splits)
next
  case (7 h s a b h' s')
  then show ?case using first_owner_pg [of lo h s a P b h' s'] by (auto simp: postgres_repository_def)
next
  case (8 h s i y h' s')
  obtain x s1 where ex: "pg_exec (sql_delete i) s = (x, s1)" by fastforce
  define Q where "Q = (\<lambda>(z :: pg_error + unit) s'. pg_inv lo (h, s') \<and> pg_view (h, s') = (pg_view (h, s))(i := None))"
  define N where "N = (\<lambda>s'. pg_inv lo (h, s') \<and> pg_view (h, s') = pg_view (h, s))"
  have del: "sql_delete i (users_table s) = (Inr (), filter (\<lambda>r. row_id r \<noteq> i) (users_table s))"
    by (simp add: sql_delete_def)
  have "Q (Inr ()) s'" if "users_table s' = filter (\<lambda>r. row_id r \<noteq> i) (users_table s)" for s'
    using delete_pg [OF 8(1) that] by (simp add: Q_def)
  moreover have "N s'" if "users_table s' = users_table s" for s'
    using pg_inv_cong(1) [OF that, of lo h h] 8(1) pg_inv_cong(2) [OF that, of h h] by (simp add: N_def)
  ultimately have q: "x = Inr () \<and> Q (Inr ()) s1 \<or> (\<exists>e. x = Inl (ConnError e)) \<and> (Q (Inr ()) s1 \<or> N s1)"
    by (rule pg_exec_write [OF ex del])
  have "h' = h \<and> s' = s1 \<and> (is_err x \<longrightarrow> is_err y)"
    using 8(2) ex by (auto simp: postgres_repository_def pg_delete_def exec_result_def split: sum.splits)
  then show ?case using q by (auto simp: Q_def N_def)
next
  case (9 h s off lim pg h' s')
  then show ?case using find_paginated_pg by (simp add: postgres_repository_def)
qed

subsection \<open>Properties\<close>

lemma pg_save_Inr:
  assumes "pg_inv lo (h, s)" "a < length h" "canonical_email lo (usr_email (h ! a))"
    "pg_save P a (h, s) = (Inr v, h', s')"
  shows "pg_inv lo (h', s') \<and> (\<exists>r \<in> set (users_table s'). user_of_row r =
    (h ! a)\<lparr>usr_updated_at := pg_timestamptz P (usr_updated_at (h ! a)),
       usr_created_at := (case pg_view (h, s) (user_key (h ! a)) of
          Some u \<Rightarrow> usr_created_at u | None \<Rightarrow> pg_timestamptz P (usr_created_at (h ! a)))\<rparr>)"
proof -
  let ?u = "h ! a" and ?rows = "users_table s" and ?r = "row_of_user P (h ! a)"
  have c: "pg_constraints ?rows" using assms(1) by (simp add: pg_inv_def)
  have up: "sql_upsert P ?r ?rows = (Inr (), users_table s')"
    using assms(4) pg_exec_cases [of "sql_upsert P ?r" s]
    by (auto simp: pg_save_def exec_result_def split: sum.splits prod.splits)
  have inv': "pg_inv lo (h', s')" using upsert_written [OF assms(1,3) up refl, of h'] by simp
  have id: "UserID (user_key ?u) = usr_id ?u" by (simp add: user_key_def)
  show ?thesis
  proof (cases "list_ex (\<lambda>r'. row_id r' = row_id ?r) ?rows")
    case False
    then have "users_table s' = ?rows @ [?r]"
      using up by (auto simp: sql_upsert_def split: if_splits)
    then have "?r \<in> set (users_table s')" by simp
    moreover have "pg_view (h, s) (user_key ?u) = None"
      using False find_no_row [of "user_key ?u" ?rows] by (auto simp: pg_view_def list_ex_iff)
    moreover have "user_of_row ?r = ?u\<lparr>usr_updated_at := pg_timestamptz P (usr_updated_at ?u),
        usr_created_at := pg_timestamptz P (usr_created_at ?u)\<rparr>"
      using id by (simp add: user_of_row_def reconstitute_def row_of_user_def)
    ultimately show ?thesis using inv' by auto
  next
    case True
    then obtain r0 where r0: "r0 \<in> set ?rows" "row_id r0 = user_key ?u" by (auto simp: list_ex_iff)
    then have v: "pg_view (h, s) (user_key ?u) = Some (user_of_row r0)"
      using pg_view_Some [OF c] by auto
    have "users_table s' = map (\<lambda>r'. if row_id r' = row_id ?r then ?r\<lparr>row_created_at := row_created_at r'\<rparr> else r') ?rows"
      using up True by (auto simp: sql_upsert_def split: if_splits)
    then have "?r\<lparr>row_created_at := row_created_at r0\<rparr> \<in> set (users_table s')" using r0 by force
    moreover have "user_of_row (?r\<lparr>row_created_at := row_created_at r0\<rparr>) =
        ?u\<lparr>usr_updated_at := pg_timestamptz P (usr_updated_at ?u), usr_created_at := usr_created_at (user_of_row r0)\<rparr>"
      using id by (simp add: user_of_row_def reconstitute_def row_of_user_def)
    ultimately show ?thesis using inv' v by auto
  qed
qed

lemma filter_one_row:
  fixes rows :: "user_row list"
  shows "distinct (map row_id rows) \<Longrightarrow> r \<in> set rows \<Longrightarrow> filter (\<lambda>x. row_id x = row_id r) rows = [r]"
  by (induction rows) (auto simp: filter_empty_conv image_iff)

text \<open>\<^bold>\<open>C24\<close>. Saving and reading back with PostgreSQL: after a successful \<open>Save\<close>, any later
  delivered \<open>FindByID\<close> of that id succeeds and returns a new object equal to the saved user, but
  for the timestamps: the update time has the precision of the column, and the creation time is
  the one first stored.\<close>

theorem pg_save_find_roundtrip:
  assumes "pg_inv lo (h, s)" and "a < length h" and "canonical_email lo (usr_email (h ! a))"
    and "pg_save P a (h, s) = (Inr (), h', s')"
    and "users_table s2 = users_table s'" and "pg_net s2 = Delivered # rest"
  shows "pg_find_by_id lo (user_key (h ! a)) (h', s2) = (Inr (length h'),
    h' @ [(h ! a)\<lparr>usr_updated_at := pg_timestamptz P (usr_updated_at (h ! a)),
      usr_created_at := (case pg_view (h, s) (user_key (h ! a)) of
         Some u \<Rightarrow> usr_created_at u | None \<Rightarrow> pg_timestamptz P (usr_created_at (h ! a)))\<rparr>],
    s2\<lparr>pg_net := rest\<rparr>)"
proof -
  obtain r where r: "r \<in> set (users_table s')" "user_of_row r =
    (h ! a)\<lparr>usr_updated_at := pg_timestamptz P (usr_updated_at (h ! a)),
       usr_created_at := (case pg_view (h, s) (user_key (h ! a)) of
          Some u \<Rightarrow> usr_created_at u | None \<Rightarrow> pg_timestamptz P (usr_created_at (h ! a)))\<rparr>"
    and i: "pg_inv lo (h', s')"
    using pg_save_Inr [OF assms(1-4)] by blast
  have id: "row_id r = user_key (h ! a)"
    using arg_cong [OF r(2), of user_key] by (simp add: user_key_def)
  have "distinct (map row_id (users_table s'))" using i by (simp add: pg_inv_def pg_constraints_def)
  then have "filter (\<lambda>r. row_id r = user_key (h ! a)) (users_table s') = [r]"
    using filter_one_row r(1) id by metis
  then show ?thesis
    using assms(5,6) r i scanUser_canonical [of lo r]
    by (auto simp: pg_find_by_id_def pg_exec_def sql_select_def scan_row_def alloc_def pg_inv_def)
qed

definition demo_pg_lib :: pg_lib where
  "demo_pg_lib = \<lparr>pg_timestamptz = (\<lambda>t. t div 1000 * 1000), pg_text_ok = (\<lambda>s. CHR 0x00 \<notin> set s)\<rparr>"

definition demo_user :: "uuid \<Rightarrow> string \<Rightarrow> role \<Rightarrow> time \<Rightarrow> user" where
  "demo_user i em role t = \<lparr>usr_id = UserID i, usr_email = Email em, usr_password_hash = PasswordHash ''h'',
     usr_name = ''Bob'', usr_role = role, usr_is_active = True, usr_created_at = t, usr_updated_at = t\<rparr>"

lemma demo_email_canonical: "canonical_email (\<lambda>r. r) (Email ''bob@e.com'')"
  by (simp add: canonical_email_def new_email_def go_string_eval is_valid_email_def)

lemma pg_save_find_roundtrip_witness:
  "\<exists>s2. pg_find_by_id (\<lambda>r. r) 7 ([demo_user 7 ''bob@e.com'' RoleUser 1500], s2) =
    (Inr 1, [demo_user 7 ''bob@e.com'' RoleUser 1500, demo_user 7 ''bob@e.com'' RoleUser 1000],
     s2\<lparr>pg_net := []\<rparr>)"
proof -
  let ?u = "demo_user 7 ''bob@e.com'' RoleUser 1500"
  let ?s = "\<lparr>users_table = [], pg_net = [Delivered]\<rparr>"
  let ?s' = "\<lparr>users_table = [row_of_user demo_pg_lib ?u], pg_net = []\<rparr>"
  let ?s2 = "\<lparr>users_table = [row_of_user demo_pg_lib ?u], pg_net = [Delivered]\<rparr>"
  have inv: "pg_inv (\<lambda>r. r) ([?u], ?s)" by (simp add: pg_inv_def pg_constraints_def)
  have em: "canonical_email (\<lambda>r. r) (usr_email ([?u] ! 0))"
    using demo_email_canonical by (simp add: demo_user_def)
  have sv: "pg_save demo_pg_lib 0 ([?u], ?s) = (Inr (), [?u], ?s')"
    by (simp add: pg_save_def exec_result_def pg_exec_def sql_upsert_def row_text_ok_def demo_pg_lib_def
        demo_user_def row_of_user_def)
  show ?thesis
    using pg_save_find_roundtrip [OF inv _ em sv, of ?s2 "[]"]
    by (intro exI [of _ ?s2]) (simp add: demo_user_def user_key_def pg_view_def demo_pg_lib_def)
qed

text \<open>\<^bold>\<open>C40\<close>. \<open>SaveFirstOwner\<close> answers "an owner already exists" for any unique violation: when
  there is no owner but a row has the candidate's email, the answer is \<open>(false, nil)\<close> as well,
  nothing is stored, and the \<open>Save\<close> of the same candidate as a plain user that the registration
  then tries fails with the database's own error instead of \<open>ErrEmailAlreadyExists\<close>.\<close>

theorem first_owner_email_conflict:
  assumes "\<not> list_ex (\<lambda>r. row_role r = ''owner'') (users_table s)"
    and "r \<in> set (users_table s)" and "row_email r = email_string (usr_email (h ! a))"
    and "row_id r \<noteq> user_key (h ! a)" and "row_text_ok P ((row_of_user P (h ! a))\<lparr>row_role := ''owner''\<rparr>)"
    and "row_text_ok P (row_of_user P (h ! b))" and "pg_net s = Delivered # Delivered # rest"
    and "usr_email (h ! b) = usr_email (h ! a)" and "row_id r \<noteq> user_key (h ! b)"
  shows "pg_save_first_owner P a (h, s) = (Inr False, h, s\<lparr>pg_net := Delivered # rest\<rparr>) \<and>
    pg_save P b (h, s\<lparr>pg_net := Delivered # rest\<rparr>) =
      (Inl (External ''duplicate key value violates unique constraint''), h, s\<lparr>pg_net := rest\<rparr>)"
proof -
  have "list_ex (\<lambda>r'. row_id r' = user_key (h ! a) \<or>
      conflicts ((row_of_user P (h ! a))\<lparr>row_role := ''owner''\<rparr>) r') (users_table s)"
    "list_ex (\<lambda>r'. row_id r' \<noteq> user_key (h ! b) \<and> conflicts (row_of_user P (h ! b)) r') (users_table s)"
    using assms(2,3,8,9) by (force simp: list_ex_iff conflicts_def)+
  then show ?thesis
    using assms(5-7)
    by (simp add: pg_save_first_owner_def pg_save_def exec_result_def pg_exec_def sql_insert_def sql_upsert_def
        unique_violation_def pg_to_error_def)
qed

lemma first_owner_email_conflict_witness:
  "\<exists>s'. pg_save_first_owner demo_pg_lib 0 ([demo_user 7 ''bob@e.com'' RoleOwner 0, demo_user 8 ''bob@e.com'' RoleUser 0],
      \<lparr>users_table = [row_of_user demo_pg_lib (demo_user 1 ''bob@e.com'' RoleAdmin 0)],
       pg_net = [Delivered, Delivered]\<rparr>) =
    (Inr False, [demo_user 7 ''bob@e.com'' RoleOwner 0, demo_user 8 ''bob@e.com'' RoleUser 0], s')"
proof -
  let ?h = "[demo_user 7 ''bob@e.com'' RoleOwner 0, demo_user 8 ''bob@e.com'' RoleUser 0]"
  let ?r = "row_of_user demo_pg_lib (demo_user 1 ''bob@e.com'' RoleAdmin 0)"
  let ?s = "\<lparr>users_table = [?r], pg_net = [Delivered, Delivered]\<rparr>"
  have p: "\<not> list_ex (\<lambda>r. row_role r = ''owner'') (users_table ?s)" "?r \<in> set (users_table ?s)"
    "row_email ?r = email_string (usr_email (?h ! 0))" "row_id ?r \<noteq> user_key (?h ! 0)"
    "row_text_ok demo_pg_lib ((row_of_user demo_pg_lib (?h ! 0))\<lparr>row_role := ''owner''\<rparr>)"
    "row_text_ok demo_pg_lib (row_of_user demo_pg_lib (?h ! 1))" "pg_net ?s = Delivered # Delivered # []"
    "usr_email (?h ! 1) = usr_email (?h ! 0)" "row_id ?r \<noteq> user_key (?h ! 1)"
    by (simp_all add: demo_user_def user_key_def row_text_ok_def demo_pg_lib_def row_of_user_def)
  from first_owner_email_conflict [OF p] show ?thesis by blast
qed

end
