(* ===== verification/JwtService.thy ===== *)
theory JwtService
  imports Ports UuidText
begin

section \<open>The JWT and refresh-token service\<close>

text \<open>
  \<^verbatim>\<open>internal/infrastructure/security/jwt_service.go\<close>. Parameters: the JWT library (\<open>jwt_lib\<close>:
  PEM parsing, \<^verbatim>\<open>NewNumericDate\<close>, EdDSA signing, \<^verbatim>\<open>ParseWithClaims\<close>) and the Redis server
  (\<open>redis_lib\<close>: GET, SET with an expiry, DEL and SCAN, each at the server's time). The Lua
  script, the transactions, the key names and the whole client side are the code's.

  Every command is one round trip of the connection state: the next entry of \<open>net\<close> says at which
  server time it runs and whether its reply arrives (\<open>Delivered\<close>), the request never reaches the
  server (\<open>Unsent\<close>) or the server runs it and the reply is lost (\<open>ReplyLost\<close>). When \<open>net\<close> is used
  up the request's context is over and the call fails, so every call of the model returns; the
  same holds for the waits between retries.
\<close>

subsection \<open>Libraries\<close>

record jwt_claims =
  jwt_subject :: string
  jwt_issued_at :: time
  jwt_expires_at :: time
  jwt_role :: role

datatype signing_method = SigningMethodEd25519 | OtherMethod string

record ('sk, 'pk) jwt_lib =
  ParseEdPrivateKeyFromPEM :: "string \<Rightarrow> error + 'sk"
  ParseEdPublicKeyFromPEM :: "string \<Rightarrow> error + 'pk"
  NewNumericDate :: "time \<Rightarrow> time"
  SignedString :: "jwt_claims \<Rightarrow> 'sk \<Rightarrow> error + string"
  ParseWithClaims :: "string \<Rightarrow> (signing_method \<Rightarrow> error + 'pk) \<Rightarrow> time \<Rightarrow> error + jwt_claims \<times> bool"

text \<open>
  What the library documents: a numeric date is its time truncated to seconds; a token signed
  with the private key parses, as valid, with the claims it was signed with, until it expires,
  when the key function accepts its method and returns the matching public key; a token past
  its expiry does not parse.
\<close>

definition jwt_laws :: "('sk, 'pk) jwt_lib \<Rightarrow> 'sk \<Rightarrow> 'pk \<Rightarrow> bool" where
  "jwt_laws J sk pk \<longleftrightarrow>
     (\<forall>t. NewNumericDate J t \<le> t \<and> t < NewNumericDate J t + 10 ^ 9) \<and>
     (\<forall>c tok kf now. SignedString J c sk = Inr tok \<longrightarrow> kf SigningMethodEd25519 = Inr pk \<longrightarrow>
        (if now < jwt_expires_at c then ParseWithClaims J tok kf now = Inr (c, True)
         else is_err (ParseWithClaims J tok kf now)))"

record 'db redis_lib =
  redis_get :: "time \<Rightarrow> string \<Rightarrow> 'db \<Rightarrow> string option"
  redis_set :: "time \<Rightarrow> string \<Rightarrow> string \<Rightarrow> duration \<Rightarrow> 'db \<Rightarrow> 'db"
  redis_del :: "time \<Rightarrow> string \<Rightarrow> 'db \<Rightarrow> 'db"
  redis_scan :: "time \<Rightarrow> 64 word \<Rightarrow> string \<Rightarrow> int \<Rightarrow> 'db \<Rightarrow> string list \<times> 64 word"

text \<open>
  A full iteration of SCAN: from cursor 0 until the server returns cursor 0, each scan on the
  database as it is then. The guarantee of the Redis manual is that it returns every matching
  key that was present all along.
\<close>

fun full_scan ::
  "'db redis_lib \<Rightarrow> string \<Rightarrow> int \<Rightarrow> 64 word \<Rightarrow> (time \<times> 'db) list \<Rightarrow> string list option" where
  "full_scan L pat n cursor [] = None"
| "full_scan L pat n cursor ((t, d) # rest) =
    (case redis_scan L t cursor pat n d of (ks, next') \<Rightarrow>
       if next' = 0 then (if rest = [] then Some ks else None)
       else map_option (\<lambda>ks'. ks @ ks') (full_scan L pat n next' rest))"

definition glob_plain :: "char set" where
  "glob_plain = insert CHR '':'' (uuid_chars \<union> set ''fhersu'')"

definition redis_laws :: "'db redis_lib \<Rightarrow> bool" where
  "redis_laws L \<longleftrightarrow>
     (\<forall>t t' k v ttl d. 10 ^ 6 \<le> ttl \<longrightarrow> 10 ^ 6 dvd ttl \<longrightarrow> t \<le> t' \<longrightarrow>
        redis_get L t' k (redis_set L t k v ttl d) = (if t' < t + ttl then Some v else None)) \<and>
     (\<forall>t t' k k' v ttl d. k \<noteq> k' \<longrightarrow> redis_get L t' k (redis_set L t k' v ttl d) = redis_get L t' k d) \<and>
     (\<forall>t t' k k' d. redis_get L t' k (redis_del L t k' d) = (if k = k' then None else redis_get L t' k d)) \<and>
     (\<forall>p n ds ks k. set p \<subseteq> glob_plain \<longrightarrow> full_scan L (p @ ''*'') n 0 ds = Some ks \<longrightarrow> starts_with p k \<longrightarrow>
        (\<forall>(t, d) \<in> set ds. redis_get L t k d \<noteq> None) \<longrightarrow> k \<in> set ks)"

subsection \<open>The connection\<close>

record 'db redis_conn =
  redis_db :: 'db
  redis_breaker :: circuit_breaker
  net :: "(time \<times> fate) list"
  ctx_waits :: "error option list"

definition round_trip ::
  "(time \<Rightarrow> 'db \<Rightarrow> (error + 'v) \<times> 'db) \<Rightarrow> 'db redis_conn \<Rightarrow> (error + 'v) \<times> 'db redis_conn" where
  "round_trip command c =
    (case net c of
       [] \<Rightarrow> (Inl ctx_error, c)
     | (t, fate) # rest \<Rightarrow>
        (let c = c\<lparr>net := rest\<rparr> in
         case fate of
           Delivered \<Rightarrow> (case command t (redis_db c) of (r, d) \<Rightarrow> (r, c\<lparr>redis_db := d\<rparr>))
         | Unsent e \<Rightarrow> (Inl (External e), c)
         | ReplyLost e \<Rightarrow> (Inl (External e), c\<lparr>redis_db := snd (command t (redis_db c))\<rparr>)))"

definition ctx_wait :: "duration \<Rightarrow> gen \<times> 'db redis_conn \<Rightarrow> error option \<times> gen \<times> 'db redis_conn" where
  "ctx_wait d s =
    (case s of (g, c) \<Rightarrow>
      (case ctx_waits c of
         [] \<Rightarrow> (Some ctx_error, g, c)
       | x # rest \<Rightarrow> (x, g, c\<lparr>ctx_waits := rest\<rparr>)))"

definition isRedisRetryable :: "error \<Rightarrow> bool" where
  "isRedisRetryable err \<longleftrightarrow> err \<noteq> RedisNil"

definition resilient ::
  "retry_policy \<Rightarrow> ('db redis_conn \<Rightarrow> (error + 'v) \<times> 'db redis_conn) \<Rightarrow> gen \<times> 'db redis_conn \<Rightarrow>
   (error + 'v) \<times> gen \<times> 'db redis_conn" where
  "resilient policy operation s =
    (case call_with_resilience ctx_wait policy isRedisRetryable
            (\<lambda>(g, c). case operation c of (r, c) \<Rightarrow> (r, g, c)) (redis_breaker (snd s)) s of
       (r, b, g, c) \<Rightarrow> (r, g, c\<lparr>redis_breaker := b\<rparr>))"

subsection \<open>Keys\<close>

definition refreshKey :: "string \<Rightarrow> string" where
  "refreshKey token = ''refresh:'' @ token"

definition usedRefreshKey :: "string \<Rightarrow> string" where
  "usedRefreshKey token = ''used-refresh:'' @ token"

definition userRefreshKeyPrefix :: "uuid_lib \<Rightarrow> uuid \<Rightarrow> string" where
  "userRefreshKeyPrefix U user_id = ''user-refresh:'' @ uuid_String U user_id @ '':''"

definition userRefreshKey :: "uuid_lib \<Rightarrow> uuid \<Rightarrow> string \<Rightarrow> string" where
  "userRefreshKey U user_id token = userRefreshKeyPrefix U user_id @ token"

subsection \<open>The service\<close>

record ('sk, 'pk) jwt_service =
  privateKey :: 'sk
  publicKey :: 'pk
  accessTTL :: duration
  refreshTTL :: duration
  retryPolicy :: retry_policy

definition reuse_tombstone_ttl :: duration where
  "reuse_tombstone_ttl = 5 * 60 * 10 ^ 9"

definition NewJWTService ::
  "('sk, 'pk) jwt_lib \<Rightarrow> string \<Rightarrow> string \<Rightarrow> duration \<Rightarrow> duration \<Rightarrow> retry_policy \<Rightarrow>
   error + ('sk, 'pk) jwt_service" where
  "NewJWTService J private_pem public_pem access_ttl refresh_ttl policy =
    (case ParseEdPrivateKeyFromPEM J private_pem of
       Inl e \<Rightarrow> Inl (External (''parse JWT private key: '' @ error_message e))
     | Inr sk \<Rightarrow>
        (case ParseEdPublicKeyFromPEM J public_pem of
           Inl e \<Rightarrow> Inl (External (''parse JWT public key: '' @ error_message e))
         | Inr pk \<Rightarrow> Inr \<lparr>privateKey = sk, publicKey = pk, accessTTL = access_ttl,
             refreshTTL = refresh_ttl, retryPolicy = policy\<rparr>))"

definition redis_failure :: "error \<Rightarrow> error" where
  "redis_failure e = (if e = ErrServiceUnavailable then e else ErrInternal)"

text \<open>MULTI, the two SETs of a new refresh token, EXEC.\<close>

definition store_refresh ::
  "uuid_lib \<Rightarrow> 'db redis_lib \<Rightarrow> uuid \<Rightarrow> string \<Rightarrow> duration \<Rightarrow> time \<Rightarrow> 'db \<Rightarrow> (error + unit) \<times> 'db" where
  "store_refresh U L user_id token ttl t d =
     (Inr (), redis_set L t (userRefreshKey U user_id token) token ttl
        (redis_set L t (refreshKey token) (uuid_String U user_id) ttl d))"

definition jwt_generate_pair ::
  "('sk, 'pk) jwt_lib \<Rightarrow> uuid_lib \<Rightarrow> 'db redis_lib \<Rightarrow> ('sk, 'pk) jwt_service \<Rightarrow> uuid \<Rightarrow> role \<Rightarrow>
   gen \<times> 'db redis_conn \<Rightarrow> (error + token_pair) \<times> gen \<times> 'db redis_conn" where
  "jwt_generate_pair J U L s user_id role gc =
    (case gc of (g, c) \<Rightarrow> case time_now g of (now, g) \<Rightarrow>
     let claims = \<lparr>jwt_subject = uuid_String U user_id, jwt_issued_at = NewNumericDate J now,
            jwt_expires_at = NewNumericDate J (now + accessTTL s), jwt_role = role\<rparr>
     in case SignedString J claims (privateKey s) of
       Inl e \<Rightarrow> (Inl ErrInternal, g, c)
     | Inr access_token \<Rightarrow>
        (case uuid_new g of (i, g) \<Rightarrow>
         let refresh_token = uuid_String U i
         in case resilient (retryPolicy s)
                (round_trip (store_refresh U L user_id refresh_token (refreshTTL s))) (g, c) of
              (Inl e, g, c) \<Rightarrow> (Inl (redis_failure e), g, c)
            | (Inr _, g, c) \<Rightarrow> (Inr \<lparr>AccessToken = access_token, RefreshToken = refresh_token\<rparr>, g, c)))"

definition ed25519_only :: "'pk \<Rightarrow> signing_method \<Rightarrow> error + 'pk" where
  "ed25519_only pk m =
    (if m \<noteq> SigningMethodEd25519 then Inl (External ''unexpected signing method'') else Inr pk)"

definition jwt_validate_access_token ::
  "('sk, 'pk) jwt_lib \<Rightarrow> uuid_lib \<Rightarrow> ('sk, 'pk) jwt_service \<Rightarrow> string \<Rightarrow> gen \<Rightarrow>
   (error + access_token_claims) \<times> gen" where
  "jwt_validate_access_token J U s token g =
    (case time_now g of (now, g) \<Rightarrow>
      (case ParseWithClaims J token (ed25519_only (publicKey s)) now of
         Inl e \<Rightarrow> (Inl ErrTokenInvalid, g)
       | Inr (claims, valid) \<Rightarrow>
          if \<not> valid then (Inl ErrTokenInvalid, g)
          else case uuid_Parse U (jwt_subject claims) of
              None \<Rightarrow> (Inl ErrTokenInvalid, g)
            | Some user_id \<Rightarrow> (Inr \<lparr>claim_user_id = user_id, claim_role = jwt_role claims\<rparr>, g)))"

definition get_command :: "'db redis_lib \<Rightarrow> string \<Rightarrow> time \<Rightarrow> 'db \<Rightarrow> (error + string) \<times> 'db" where
  "get_command L k t d = (case redis_get L t k d of None \<Rightarrow> (Inl RedisNil, d) | Some v \<Rightarrow> (Inr v, d))"

definition del_command :: "'db redis_lib \<Rightarrow> string \<Rightarrow> time \<Rightarrow> 'db \<Rightarrow> (error + unit) \<times> 'db" where
  "del_command L k t d = (Inr (), redis_del L t k d)"

definition jwt_find_user_id_by_refresh_token ::
  "uuid_lib \<Rightarrow> 'db redis_lib \<Rightarrow> ('sk, 'pk) jwt_service \<Rightarrow> string \<Rightarrow> gen \<times> 'db redis_conn \<Rightarrow>
   (error + uuid \<times> bool) \<times> gen \<times> 'db redis_conn" where
  "jwt_find_user_id_by_refresh_token U L s token gc =
    (case resilient (retryPolicy s) (round_trip (get_command L (refreshKey token))) gc of
       (Inl e, gc) \<Rightarrow> if e = RedisNil then (Inr (0, False), gc) else (Inl (redis_failure e), gc)
     | (Inr stored, gc) \<Rightarrow>
        (case uuid_Parse U stored of
           None \<Rightarrow> (Inl ErrTokenInvalid, gc)
         | Some user_id \<Rightarrow> (Inr (user_id, True), gc)))"

text \<open>The Lua script, run atomically by the server.\<close>

definition redeem_script ::
  "'db redis_lib \<Rightarrow> string \<Rightarrow> string \<Rightarrow> int \<Rightarrow> time \<Rightarrow> 'db \<Rightarrow> string list \<times> 'db" where
  "redeem_script L key1 key2 ttl_ms t d =
    (case redis_get L t key1 d of
       Some used_val \<Rightarrow> ([''REUSED'', used_val], d)
     | None \<Rightarrow>
        (case redis_get L t key2 d of
           None \<Rightarrow> ([''INVALID''], d)
         | Some user_id \<Rightarrow>
            ([''OK'', user_id], redis_set L t key1 user_id (ttl_ms * 10 ^ 6) (redis_del L t key2 d))))"

definition redeem_command :: "'db redis_lib \<Rightarrow> string \<Rightarrow> time \<Rightarrow> 'db \<Rightarrow> (error + string list) \<times> 'db" where
  "redeem_command L token t d =
    (case redeem_script L (usedRefreshKey token) (refreshKey token)
            (reuse_tombstone_ttl div 10 ^ 6) t d of (items, d) \<Rightarrow> (Inr items, d))"

definition parseRedeemUserID :: "uuid_lib \<Rightarrow> string list \<Rightarrow> error + uuid" where
  "parseRedeemUserID U result =
    (if length result < 2 then Inl ErrInternal
     else case uuid_Parse U (result ! 1) of None \<Rightarrow> Inl ErrTokenInvalid | Some u \<Rightarrow> Inr u)"

definition jwt_redeem_refresh_token ::
  "uuid_lib \<Rightarrow> 'db redis_lib \<Rightarrow> ('sk, 'pk) jwt_service \<Rightarrow> string \<Rightarrow> gen \<times> 'db redis_conn \<Rightarrow>
   (error + redemption_result) \<times> gen \<times> 'db redis_conn" where
  "jwt_redeem_refresh_token U L s token gc =
    (case resilient (retryPolicy s) (round_trip (redeem_command L token)) gc of
       (Inl e, gc) \<Rightarrow> (Inl (redis_failure e), gc)
     | (Inr result, gc) \<Rightarrow>
        if length result = 0 then (Inl ErrInternal, gc)
        else if result ! 0 = ''REUSED'' then
          (case parseRedeemUserID U result of
             Inl e \<Rightarrow> (Inl e, gc)
           | Inr user_id \<Rightarrow> (Inr \<lparr>outcome = RedemptionReused, red_user_id = user_id\<rparr>, gc))
        else if result ! 0 = ''OK'' then
          (case parseRedeemUserID U result of
             Inl e \<Rightarrow> (Inl e, gc)
           | Inr user_id \<Rightarrow>
              (case resilient (retryPolicy s) (round_trip (del_command L (userRefreshKey U user_id token))) gc of
                 (ignored, gc) \<Rightarrow> (Inr \<lparr>outcome = RedemptionOK, red_user_id = user_id\<rparr>, gc)))
        else (Inr \<lparr>outcome = RedemptionInvalid, red_user_id = 0\<rparr>, gc))"

definition jwt_rotate_refresh_token ::
  "('sk, 'pk) jwt_lib \<Rightarrow> uuid_lib \<Rightarrow> 'db redis_lib \<Rightarrow> ('sk, 'pk) jwt_service \<Rightarrow> string \<Rightarrow> uuid \<Rightarrow> role \<Rightarrow>
   gen \<times> 'db redis_conn \<Rightarrow> (error + token_pair) \<times> gen \<times> 'db redis_conn" where
  "jwt_rotate_refresh_token J U L s old_token user_id role gc =
    try_do (jwt_redeem_refresh_token U L s old_token gc) (\<lambda>result gc.
      if outcome result \<noteq> RedemptionOK \<or> red_user_id result \<noteq> user_id then (Inl ErrTokenInvalid, gc)
      else jwt_generate_pair J U L s user_id role gc)"

definition jwt_revoke_refresh_token ::
  "'db redis_lib \<Rightarrow> ('sk, 'pk) jwt_service \<Rightarrow> string \<Rightarrow> gen \<times> 'db redis_conn \<Rightarrow>
   (error + unit) \<times> gen \<times> 'db redis_conn" where
  "jwt_revoke_refresh_token L s token gc =
     resilient (retryPolicy s) (round_trip (del_command L (refreshKey token))) gc"

text \<open>The scan loop of \<^verbatim>\<open>RevokeAllRefreshTokens\<close>.\<close>

definition scan_command ::
  "'db redis_lib \<Rightarrow> 64 word \<Rightarrow> string \<Rightarrow> int \<Rightarrow> time \<Rightarrow> 'db \<Rightarrow> (error + string list \<times> 64 word) \<times> 'db" where
  "scan_command L cursor pattern count t d = (Inr (redis_scan L t cursor pattern count d), d)"

definition revoke_command :: "'db redis_lib \<Rightarrow> string \<Rightarrow> string \<Rightarrow> time \<Rightarrow> 'db \<Rightarrow> (error + unit) \<times> 'db" where
  "revoke_command L token index_key t d =
     (Inr (), redis_del L t index_key (redis_del L t (refreshKey token) d))"

primrec revoke_keys ::
  "'db redis_lib \<Rightarrow> string \<Rightarrow> string list \<Rightarrow> 'db redis_conn \<Rightarrow> (error + unit) \<times> 'db redis_conn" where
  "revoke_keys L prefix [] c = (Inr (), c)"
| "revoke_keys L prefix (k # ks) c =
    try_do (round_trip (revoke_command L (trim_prefix k prefix) k) c) (\<lambda>_ c. revoke_keys L prefix ks c)"

lemma round_trip_net: "round_trip f c = (Inr v, c') \<Longrightarrow> length (net c') < length (net c)"
  by (auto simp: round_trip_def Let_def split: list.splits prod.splits fate.splits)

lemma round_trip_net_le: "round_trip f c = (r, c') \<Longrightarrow> length (net c') \<le> length (net c)"
  by (auto simp: round_trip_def Let_def split: list.splits prod.splits fate.splits)

lemma revoke_keys_net: "revoke_keys L p ks c = (r, c') \<Longrightarrow> length (net c') \<le> length (net c)"
  by (induction ks arbitrary: c) (fastforce split: try_do_splits dest: round_trip_net_le)+

function revoke_scan ::
  "'db redis_lib \<Rightarrow> string \<Rightarrow> 64 word \<Rightarrow> 'db redis_conn \<Rightarrow> (error + unit) \<times> 'db redis_conn" where
  "revoke_scan L prefix cursor c =
    (case round_trip (scan_command L cursor (prefix @ ''*'') 100) c of
       (Inl e, c) \<Rightarrow> (Inl e, c)
     | (Inr (keys, next'), c) \<Rightarrow>
        (case revoke_keys L prefix keys c of
           (Inl e, c) \<Rightarrow> (Inl e, c)
         | (Inr _, c) \<Rightarrow> if next' = 0 then (Inr (), c) else revoke_scan L prefix next' c))"
  by pat_completeness auto
termination
  by (relation "measure (\<lambda>(L, p, cur, c). length (net c))")
    (auto dest!: round_trip_net [OF sym] revoke_keys_net [OF sym])

declare revoke_scan.simps [simp del]

definition jwt_revoke_all_refresh_tokens ::
  "uuid_lib \<Rightarrow> 'db redis_lib \<Rightarrow> ('sk, 'pk) jwt_service \<Rightarrow> uuid \<Rightarrow> gen \<times> 'db redis_conn \<Rightarrow>
   (error + unit) \<times> gen \<times> 'db redis_conn" where
  "jwt_revoke_all_refresh_tokens U L s user_id gc =
     resilient (retryPolicy s) (revoke_scan L (userRefreshKeyPrefix U user_id) 0) gc"

definition jwt_token_service ::
  "('sk, 'pk) jwt_lib \<Rightarrow> uuid_lib \<Rightarrow> 'db redis_lib \<Rightarrow> ('sk, 'pk) jwt_service \<Rightarrow> 'db redis_conn token_service" where
  "jwt_token_service J U L s = \<lparr>GeneratePair = jwt_generate_pair J U L s,
     ValidateAccessToken = jwt_validate_access_token J U s,
     FindUserIDByRefreshToken = jwt_find_user_id_by_refresh_token U L s,
     RedeemRefreshToken = jwt_redeem_refresh_token U L s,
     RotateRefreshToken = jwt_rotate_refresh_token J U L s,
     RevokeRefreshToken = jwt_revoke_refresh_token L s,
     RevokeAllRefreshTokens = jwt_revoke_all_refresh_tokens U L s\<rparr>"

subsection \<open>What a resilient call does to the connection\<close>

lemma retry_rel:
  fixes P :: "'s \<Rightarrow> 's \<Rightarrow> bool"
  assumes P: "\<And>s. P s s" "\<And>s s' s''. P s s' \<Longrightarrow> P s' s'' \<Longrightarrow> P s s''"
    and op: "\<And>s r s'. operation s = (r, s') \<Longrightarrow> P s s'"
    and wt: "\<And>d s x s'. wait d s = (x, s') \<Longrightarrow> P s s'"
  shows "retry_with_backoff wait policy isr operation n s = (r, s') \<Longrightarrow>
    P s s' \<and> (\<forall>v. r = Inr v \<longrightarrow> (\<exists>s1. P s s1 \<and> operation s1 = (Inr v, s')))"
proof (induction "nat (max_attempts policy - int n)" arbitrary: n s rule: less_induct)
  case less
  obtain x s1 where o1: "operation s = (x, s1)" by fastforce
  have p1: "P s s1" using op [OF o1] .
  show ?case
  proof (cases "\<exists>e. x = Inl e \<and> \<not> (max_attempts policy \<le> int n + 1 \<or> \<not> isr e)")
    case False
    then have "r = x" "s' = s1"
      using less.prems o1 by (auto simp: retry_with_backoff.simps [of wait policy isr operation n] split: sum.splits if_splits)
    then show ?thesis using p1 o1 P(1) by auto
  next
    case True
    then obtain e where e: "x = Inl e" "int n + 1 < max_attempts policy" "isr e" by auto
    obtain y s2 where w: "wait (backoff_for_attempt policy n) s1 = (y, s2)" by fastforce
    have p2: "P s s2" using P(2) [OF p1 wt [OF w]] .
    have eq: "(r, s') = (case y of Some ctx_err \<Rightarrow> (Inl ctx_err, s2)
        | None \<Rightarrow> retry_with_backoff wait policy isr operation (Suc n) s2)"
      using less.prems o1 e w by (simp add: retry_with_backoff.simps [of wait policy isr operation n])
    show ?thesis
    proof (cases y)
      case (Some _)
      then show ?thesis using eq p2 by simp
    next
      case None
      then have rec: "retry_with_backoff wait policy isr operation (Suc n) s2 = (r, s')" using eq by simp
      have "nat (max_attempts policy - int (Suc n)) < nat (max_attempts policy - int n)" using e(2) by simp
      from less.hyps [OF this rec] show ?thesis using P(2) [OF p2] by blast
    qed
  qed
qed

lemma allow_request_later:
  "allow_request b g = (r, b', g') \<Longrightarrow> gen_later g g'"
  by (auto simp: allow_request_def state_locked_def time_now_def gen_later_def
      split: circuit_state.splits if_splits)

lemma record_failure_later: "record_failure b g = (b', g') \<Longrightarrow> gen_later g g'"
  by (auto simp: record_failure_def Let_def time_now_def gen_later_def split: if_splits)

text \<open>
  A relation that the operation keeps, and that ignores the breaker, the waits and later draws,
  is kept by the resilient call; a value comes from a run of the operation.
\<close>

lemma resilient_rel:
  fixes P :: "gen \<times> 'db redis_conn \<Rightarrow> gen \<times> 'db redis_conn \<Rightarrow> bool"
  assumes P: "\<And>s. P s s" "\<And>s s' s''. P s s' \<Longrightarrow> P s' s'' \<Longrightarrow> P s s''"
    and op: "\<And>g c r c'. operation c = (r, c') \<Longrightarrow> P (g, c) (g, c')"
    and later: "\<And>g g' c. gen_later g g' \<Longrightarrow> P (g, c) (g', c)"
    and waits: "\<And>g c w. P (g, c) (g, c\<lparr>ctx_waits := w\<rparr>)"
    and brk: "\<And>g c b. P (g, c) (g, c\<lparr>redis_breaker := b\<rparr>)"
    and run: "resilient policy operation s = (r, s')"
  shows "P s s' \<and> (\<forall>v. r = Inr v \<longrightarrow>
    (\<exists>g c c'. P s (g, c) \<and> operation c = (Inr v, c') \<and> P (g, c') s'))"
proof -
  obtain g c where s: "s = (g, c)" by fastforce
  let ?op = "\<lambda>(g, c). case operation c of (r, c) \<Rightarrow> (r, g :: gen, c)"
  obtain al b g1 where a: "allow_request (redis_breaker c) g = (al, b, g1)" by (metis prod_cases3)
  have p1: "P (g, c) (g1, c)" using later [OF allow_request_later [OF a]] .
  show ?thesis
  proof (cases al)
    case False
    then show ?thesis
      using run a p1 P(2) brk by (fastforce simp: resilient_def call_with_resilience_def s)
  next
    case True
    obtain x g2 c2 where rt: "retry_with_backoff ctx_wait policy isRedisRetryable ?op 0 (g1, c) = (x, g2, c2)"
      by (metis prod_cases3)
    have "P (g1, c) (g2, c2) \<and> (\<forall>v. x = Inr v \<longrightarrow> (\<exists>s1. P (g1, c) s1 \<and> ?op s1 = (Inr v, (g2, c2))))"
    proof (rule retry_rel [OF P _ _ rt])
      show "P s s'" if "?op s = (r, s')" for s r s'
        using that op by (auto split: prod.splits)
      show "P s s'" if "ctx_wait d s = (x, s')" for d s x s'
        using that waits P(1) by (auto simp: ctx_wait_def split: prod.splits list.splits)
    qed
    then have p2: "P (g, c) (g2, c2)"
      and v: "\<And>v. x = Inr v \<Longrightarrow> \<exists>s1. P (g, c) s1 \<and> ?op s1 = (Inr v, (g2, c2))"
      using P(2) [OF p1] by blast+
    obtain b' g3 where fin: "r = x" "s' = (g3, c2\<lparr>redis_breaker := b'\<rparr>)" "gen_later g2 g3"
      using run a True rt
      by (auto simp: resilient_def call_with_resilience_def s record_failure_later
          split: sum.splits if_splits prod.splits)
    have p3: "P (g2, c2) s'" using later [OF fin(3)] brk P(2) fin(2) by blast
    show ?thesis
    proof (intro conjI allI impI)
      show "P s s'" using P(2) [OF p2 p3] s by simp
      fix v assume "r = Inr v"
      then obtain g' c' where "P (g, c) (g', c')" "?op (g', c') = (Inr v, (g2, c2))"
        using v [of v] fin(1) by auto
      then show "\<exists>g c c'. P s (g, c) \<and> operation c = (Inr v, c') \<and> P (g, c') s'"
        using p3 s by (auto split: prod.splits)
    qed
  qed
qed

lemma resilient_delivered:
  assumes "cb_state (redis_breaker c) = StateClosed" "operation c = (Inr v, c')"
  shows "resilient policy operation (g, c) =
    (Inr v, g, c'\<lparr>redis_breaker := record_success (redis_breaker c)\<rparr>)"
  using assms
  by (simp add: resilient_def call_with_resilience_def allow_request_def state_locked_def
      retry_with_backoff.simps)

subsection \<open>Refresh tokens that are alive\<close>

definition alive :: "'db redis_lib \<Rightarrow> 'db \<Rightarrow> string set" where
  "alive L d = {tok. \<exists>t. redis_get L t (refreshKey tok) d \<noteq> None}"

definition fewer :: "'db redis_lib \<Rightarrow> string set \<Rightarrow> gen \<times> 'db redis_conn \<Rightarrow> gen \<times> 'db redis_conn \<Rightarrow> bool" where
  "fewer L new s s' \<longleftrightarrow> gen_later (fst s) (fst s') \<and>
     alive L (redis_db (snd s')) \<subseteq> alive L (redis_db (snd s)) \<union> new"

lemma redis_get_set:
  assumes "redis_laws L" "10 ^ 6 \<le> ttl" "10 ^ 6 dvd ttl" "t \<le> t'"
  shows "redis_get L t' k (redis_set L t k v ttl d) = (if t' < t + ttl then Some v else None)"
  using conjunct1 [OF assms(1) [unfolded redis_laws_def]] assms(2-4) by simp

lemma redis_get_set_other:
  "redis_laws L \<Longrightarrow> k \<noteq> k' \<Longrightarrow> redis_get L t' k (redis_set L t k' v ttl d) = redis_get L t' k d"
  unfolding redis_laws_def by (elim conjE) simp

lemma redis_get_del:
  "redis_laws L \<Longrightarrow> redis_get L t' k (redis_del L t k' d) = (if k = k' then None else redis_get L t' k d)"
  unfolding redis_laws_def by (elim conjE) simp

lemma key_simps [simp]:
  "refreshKey a = refreshKey b \<longleftrightarrow> a = b" "usedRefreshKey a = usedRefreshKey b \<longleftrightarrow> a = b"
  "refreshKey a \<noteq> usedRefreshKey b" "usedRefreshKey b \<noteq> refreshKey a"
  "refreshKey a \<noteq> userRefreshKey U u b" "userRefreshKey U u b \<noteq> refreshKey a"
  "usedRefreshKey a \<noteq> userRefreshKey U u b" "userRefreshKey U u b \<noteq> usedRefreshKey a"
  by (auto simp: refreshKey_def usedRefreshKey_def userRefreshKey_def userRefreshKeyPrefix_def)

lemma alive_set_other: "redis_laws L \<Longrightarrow> (\<And>tok. refreshKey tok \<noteq> k) \<Longrightarrow> alive L (redis_set L t k v ttl d) = alive L d"
  by (simp add: alive_def redis_get_set_other)

lemma alive_set: "redis_laws L \<Longrightarrow> alive L (redis_set L t (refreshKey tok) v ttl d) \<subseteq> insert tok (alive L d)"
  by (auto simp: alive_def) (metis key_simps(1) option.distinct(1) redis_get_set_other)

lemma alive_del: "redis_laws L \<Longrightarrow> alive L (redis_del L t k d) \<subseteq> alive L d"
  by (auto simp: alive_def redis_get_del split: if_splits)

lemma alive_del_self: "redis_laws L \<Longrightarrow> tok \<notin> alive L (redis_del L t (refreshKey tok) d)"
  by (auto simp: alive_def redis_get_del)

lemma fewer_refl [simp]: "fewer L new s s"
  by (auto simp: fewer_def)

lemma fewer_trans: "fewer L new s s' \<Longrightarrow> fewer L new s' s'' \<Longrightarrow> fewer L new s s''"
  by (auto simp: fewer_def intro: gen_later_trans)

lemma fewer_round_trip:
  assumes "\<And>t d. alive L (snd (command t d)) \<subseteq> alive L d \<union> new" "round_trip command c = (r, c')"
  shows "fewer L new (g, c) (g, c')"
  using assms(2) assms(1) [of "fst (hd (net c))" "redis_db c"]
  by (auto simp: round_trip_def fewer_def Let_def split: list.splits fate.splits prod.splits)

lemma resilient_fewer:
  assumes "\<And>g c r c'. operation c = (r, c') \<Longrightarrow> fewer L new (g, c) (g, c')"
    "resilient policy operation s = (r, s')"
  shows "fewer L new s s' \<and> (\<forall>v. r = Inr v \<longrightarrow>
    (\<exists>g c c'. fewer L new s (g, c) \<and> operation c = (Inr v, c') \<and> fewer L new (g, c') s'))"
  by (rule resilient_rel [where P = "fewer L new", OF _ fewer_trans assms(1) _ _ _ assms(2)])
    (auto simp: fewer_def)

lemmas command_defs = store_refresh_def get_command_def del_command_def redeem_command_def
  redeem_script_def scan_command_def revoke_command_def

lemma command_fewer:
  assumes "redis_laws L"
  shows "alive L (snd (store_refresh U L u tok ttl t d)) \<subseteq> alive L d \<union> {tok}"
    and "alive L (snd (get_command L k t d)) \<subseteq> alive L d \<union> new"
    and "alive L (snd (del_command L k t d)) \<subseteq> alive L d \<union> new"
    and "alive L (snd (redeem_command L tok t d)) \<subseteq> alive L d \<union> new"
    and "alive L (snd (scan_command L cur pat n t d)) \<subseteq> alive L d \<union> new"
    and "alive L (snd (revoke_command L tok k t d)) \<subseteq> alive L d \<union> new"
proof -
  have uk: "alive L (redis_set L t (userRefreshKey U u tok) v ttl d) = alive L d" for v d
    by (rule alive_set_other [OF assms]) simp
  show "alive L (snd (store_refresh U L u tok ttl t d)) \<subseteq> alive L d \<union> {tok}"
    using alive_set [OF assms] by (auto simp: store_refresh_def uk)
  have used: "alive L (redis_set L t (usedRefreshKey tok) v x d) = alive L d" for v x d
    by (rule alive_set_other [OF assms]) simp
  show "alive L (snd (redeem_command L tok t d)) \<subseteq> alive L d \<union> new"
    using alive_del [OF assms] by (auto simp: redeem_command_def redeem_script_def used split: option.splits)
  show "alive L (snd (get_command L k t d)) \<subseteq> alive L d \<union> new"
    by (auto simp: get_command_def split: option.splits)
  show "alive L (snd (del_command L k t d)) \<subseteq> alive L d \<union> new"
    using alive_del [OF assms] by (auto simp: del_command_def)
  show "alive L (snd (revoke_command L tok k t d)) \<subseteq> alive L d \<union> new"
    using alive_del [OF assms, of t k] alive_del [OF assms, of t "refreshKey tok" d]
    by (fastforce simp: revoke_command_def)
qed (simp add: scan_command_def)

lemma revoke_keys_fewer:
  assumes "redis_laws L"
  shows "revoke_keys L p ks c = (r, c') \<Longrightarrow> fewer L new (g, c) (g, c')"
proof (induction ks arbitrary: c)
  case (Cons k ks)
  obtain x c1 where rt: "round_trip (revoke_command L (trim_prefix k p) k) c = (x, c1)" by fastforce
  have "fewer L new (g, c) (g, c1)" by (rule fewer_round_trip [OF command_fewer(6) [OF assms] rt])
  then show ?case using Cons rt fewer_trans [of L new "(g, c)" "(g, c1)" "(g, c')"] by (cases x) auto
qed simp

lemma revoke_scan_fewer:
  assumes "redis_laws L"
  shows "revoke_scan L p cur c = (r, c') \<Longrightarrow> fewer L new (g, c) (g, c')"
proof (induction "length (net c)" arbitrary: cur c rule: less_induct)
  case less
  obtain x c1 where rt: "round_trip (scan_command L cur (p @ ''*'') 100) c = (x, c1)" by fastforce
  have f1: "fewer L new (g, c) (g, c1)" by (rule fewer_round_trip [OF command_fewer(5) [OF assms] rt])
  show ?case
  proof (cases x)
    case (Inl e)
    then show ?thesis using less.prems rt f1 by (simp add: revoke_scan.simps [of L p cur])
  next
    case (Inr kn)
    obtain ks next' where kn: "kn = (ks, next')" by fastforce
    obtain y c2 where rk: "revoke_keys L p ks c1 = (y, c2)" by fastforce
    have f2: "fewer L new (g, c) (g, c2)" using fewer_trans [OF f1 revoke_keys_fewer [OF assms rk]] .
    have len: "length (net c2) < length (net c)"
      using round_trip_net [of _ c] rt Inr revoke_keys_net [OF rk] by fastforce
    show ?thesis
    proof (cases "is_err y \<or> next' = 0")
      case True
      then show ?thesis
        using less.prems rt Inr kn rk f2 by (cases y) (auto simp: revoke_scan.simps [of L p cur])
    next
      case False
      then have "revoke_scan L p next' c2 = (r, c')"
        using less.prems rt Inr kn rk by (cases y) (auto simp: revoke_scan.simps [of L p cur])
      from less.hyps [OF len this] show ?thesis using fewer_trans [OF f2] by blast
    qed
  qed
qed

lemma generate_pair_fewer:
  assumes "redis_laws L" "jwt_generate_pair J U L s uid r (g, c) = (p, g', c')"
  shows "gen_later g g' \<and> (alive L (redis_db c') \<subseteq> alive L (redis_db c) \<or>
    (\<exists>n. uuid_pos g \<le> n \<and> n < uuid_pos g' \<and>
       alive L (redis_db c') \<subseteq> insert (uuid_String U (uuid_source g n)) (alive L (redis_db c))))"
proof -
  obtain now g1 where tn: "time_now g = (now, g1)" by fastforce
  have g1: "g1 = g\<lparr>clock_pos := Suc (clock_pos g)\<rparr>" using tn by (simp add: time_now_def)
  let ?claims = "\<lparr>jwt_subject = uuid_String U uid, jwt_issued_at = NewNumericDate J now,
    jwt_expires_at = NewNumericDate J (now + accessTTL s), jwt_role = r\<rparr>"
  show ?thesis
  proof (cases "SignedString J ?claims (privateKey s)")
    case (Inl e)
    then have "g' = g1" "c' = c" using assms(2) tn by (auto simp: jwt_generate_pair_def Let_def)
    then show ?thesis using g1 by (auto simp: gen_later_def)
  next
    case (Inr signed)
    let ?tok = "uuid_String U (uuid_source g (uuid_pos g))"
    define g2 where "g2 = g1\<lparr>uuid_pos := Suc (uuid_pos g)\<rparr>"
    have un: "uuid_new g1 = (uuid_source g (uuid_pos g), g2)" by (simp add: uuid_new_def g1 g2_def)
    obtain x g3 c3 where rs: "resilient (retryPolicy s)
        (round_trip (store_refresh U L uid ?tok (refreshTTL s))) (g2, c) = (x, g3, c3)"
      by (metis prod_cases3)
    have "fewer L {?tok} (g2, c) (g3, c3)"
      by (rule conjunct1 [OF resilient_fewer [OF _ rs]], rule fewer_round_trip)
        (rule command_fewer(1) [OF assms(1)])
    moreover have "g' = g3" "c' = c3"
      using assms(2) tn Inr un rs by (auto simp: jwt_generate_pair_def Let_def split: sum.splits)
    moreover have "uuid_pos g2 = Suc (uuid_pos g)" "uuid_source g2 = uuid_source g" "clock g2 = clock g"
        "clock_pos g2 = Suc (clock_pos g)"
      by (simp_all add: g1 g2_def)
    ultimately have "gen_later g g'" "uuid_pos g < uuid_pos g'"
      "alive L (redis_db c') \<subseteq> insert ?tok (alive L (redis_db c))"
      by (auto simp: fewer_def gen_later_def)
    then show ?thesis by blast
  qed
qed

lemma redeem_fewer:
  assumes "redis_laws L" "jwt_redeem_refresh_token U L s tok gc = (z, gc')"
  shows "fewer L {} gc gc' \<and> (\<forall>res. z = Inr res \<and> outcome res = RedemptionOK \<longrightarrow>
    tok \<in> alive L (redis_db (snd gc)) \<and> tok \<notin> alive L (redis_db (snd gc')))"
proof -
  obtain x gc1 where rs: "resilient (retryPolicy s) (round_trip (redeem_command L tok)) gc = (x, gc1)"
    by (metis surj_pair)
  have f: "fewer L {} gc gc1 \<and> (\<forall>v. x = Inr v \<longrightarrow> (\<exists>g c c'. fewer L {} gc (g, c) \<and>
      round_trip (redeem_command L tok) c = (Inr v, c') \<and> fewer L {} (g, c') gc1))"
    by (rule resilient_fewer [OF _ rs]) (rule fewer_round_trip [OF command_fewer(4) [OF assms(1)]])
  show ?thesis
  proof (cases "\<exists>res. z = Inr res \<and> outcome res = RedemptionOK")
    case False
    have "fewer L {} gc gc'"
    proof (cases x)
      case (Inr items)
      have *: "resilient (retryPolicy s) (round_trip (del_command L k)) gc1 = (y, gc2) \<Longrightarrow> fewer L {} gc1 gc2"
        for k y gc2
        by (rule conjunct1 [OF resilient_fewer]) (rule fewer_round_trip [OF command_fewer(3) [OF assms(1)]])
      have "gc' = gc1 \<or> (\<exists>k y. resilient (retryPolicy s) (round_trip (del_command L k)) gc1 = (y, gc'))"
        using assms(2) rs Inr by (auto simp: jwt_redeem_refresh_token_def split: if_splits sum.splits prod.splits)
      then show ?thesis using * f fewer_trans by blast
    qed (use assms(2) rs f in \<open>auto simp: jwt_redeem_refresh_token_def\<close>)
    then show ?thesis using False by blast
  next
    case True
    then obtain items y k where x: "x = Inr items" "0 < length items" "items ! 0 = ''OK''"
      "resilient (retryPolicy s) (round_trip (del_command L k)) gc1 = (y, gc')"
      using assms(2) rs
      by (auto simp: jwt_redeem_refresh_token_def split: if_splits sum.splits prod.splits)
    have f2: "fewer L {} gc1 gc'"
      by (rule conjunct1 [OF resilient_fewer [OF _ x(4)]]) (rule fewer_round_trip [OF command_fewer(3) [OF assms(1)]])
    obtain g c c' where run: "fewer L {} gc (g, c)" "round_trip (redeem_command L tok) c = (Inr items, c')"
      "fewer L {} (g, c') gc1" using f x(1) by blast
    obtain t where cmd: "redeem_command L tok t (redis_db c) = (Inr items, redis_db c')"
      using run(2) by (auto simp: round_trip_def Let_def split: list.splits fate.splits prod.splits)
    have d: "redis_get L t (refreshKey tok) (redis_db c) \<noteq> None"
      "\<exists>v. redis_db c' = redis_set L t (usedRefreshKey tok) v (reuse_tombstone_ttl div 10 ^ 6 * 10 ^ 6)
         (redis_del L t (refreshKey tok) (redis_db c))"
      using cmd x(3) by (auto simp: redeem_command_def redeem_script_def split: option.splits) metis
    then have "tok \<in> alive L (redis_db c)" "tok \<notin> alive L (redis_db c')"
      by (auto simp: alive_def redis_get_set_other [OF assms(1)] redis_get_del [OF assms(1)])
    moreover have "alive L (redis_db c) \<subseteq> alive L (redis_db (snd gc))"
      "alive L (redis_db (snd gc')) \<subseteq> alive L (redis_db c')"
      using run(1,3) f2 by (auto simp: fewer_def)
    moreover have "fewer L {} gc gc'" using f f2 fewer_trans by blast
    ultimately show ?thesis by blast
  qed
qed

lemma revoke_fewer:
  assumes "redis_laws L"
  shows "jwt_revoke_refresh_token L s tok gc = (y, gc') \<Longrightarrow> fewer L {} gc gc'"
    and "jwt_revoke_all_refresh_tokens U L s uid gc = (y, gc') \<Longrightarrow> fewer L {} gc gc'"
proof -
  show "fewer L {} gc gc'" if "jwt_revoke_refresh_token L s tok gc = (y, gc')"
    by (rule conjunct1 [OF resilient_fewer [OF _ that [unfolded jwt_revoke_refresh_token_def]]])
      (rule fewer_round_trip [OF command_fewer(3) [OF assms]])
  show "fewer L {} gc gc'" if "jwt_revoke_all_refresh_tokens U L s uid gc = (y, gc')"
    by (rule conjunct1 [OF resilient_fewer [OF _ that [unfolded jwt_revoke_all_refresh_tokens_def]]])
      (rule revoke_scan_fewer [OF assms])
qed

subsection \<open>The contract of the token service holds\<close>

text \<open>
  A refresh token is spent when it was drawn before and its key is gone from the server.
  The invariant: every living refresh token was drawn from the UUID source. Between two requests
  the transport, the waits and the breaker are arbitrary and the server may lose keys
  (expiry, eviction, a restart), but gains none.
\<close>

definition issued :: "uuid_lib \<Rightarrow> gen \<Rightarrow> string set" where
  "issued U g = {uuid_String U (uuid_source g n) | n. n < uuid_pos g}"

lemma issued_later: "gen_later g g' \<Longrightarrow> issued U g \<subseteq> issued U g'"
  by (auto simp: issued_def gen_later_def)

lemma issued_new: "n < uuid_pos g \<Longrightarrow> uuid_String U (uuid_source g n) \<in> issued U g"
  by (auto simp: issued_def)

lemma issued_not_drawn:
  "uuid_laws U \<Longrightarrow> distinct_draws g' \<Longrightarrow> gen_later g g' \<Longrightarrow> tok \<in> issued U g \<Longrightarrow> uuid_pos g \<le> n \<Longrightarrow>
   n < uuid_pos g' \<Longrightarrow> tok \<noteq> uuid_String U (uuid_source g n)"
  using distinct_draws_eq [of g']
  by (fastforce simp: issued_def uuid_String_inject gen_later_def)

definition jwt_inv :: "uuid_lib \<Rightarrow> 'db redis_lib \<Rightarrow> gen \<times> 'db redis_conn \<Rightarrow> bool" where
  "jwt_inv U L s \<longleftrightarrow> alive L (redis_db (snd s)) \<subseteq> issued U (fst s)"

definition jwt_spent :: "uuid_lib \<Rightarrow> 'db redis_lib \<Rightarrow> gen \<times> 'db redis_conn \<Rightarrow> string \<Rightarrow> bool" where
  "jwt_spent U L s tok \<longleftrightarrow> tok \<in> issued U (fst s) \<and> tok \<notin> alive L (redis_db (snd s))"

definition jwt_env :: "'db redis_lib \<Rightarrow> 'db redis_conn \<Rightarrow> 'db redis_conn \<Rightarrow> bool" where
  "jwt_env L c c' \<longleftrightarrow> (\<forall>t k v. redis_get L t k (redis_db c') = Some v \<longrightarrow> redis_get L t k (redis_db c) = Some v)"

lemma jwt_fewer:
  assumes "jwt_inv U L s" "fewer L {} s s'"
  shows "jwt_inv U L s' \<and> gen_later (fst s) (fst s') \<and> (jwt_spent U L s tok \<longrightarrow> jwt_spent U L s' tok)"
proof -
  have a: "alive L (redis_db (snd s')) \<subseteq> alive L (redis_db (snd s))" and g: "gen_later (fst s) (fst s')"
    using assms(2) by (auto simp: fewer_def)
  then show ?thesis using assms(1) issued_later [OF g, of U] unfolding jwt_inv_def jwt_spent_def by blast
qed

lemma jwt_generate:
  assumes "uuid_laws U" "redis_laws L" "jwt_inv U L s" "jwt_generate_pair J U L svc uid r s = (p, s')"
  shows "jwt_inv U L s' \<and> gen_later (fst s) (fst s') \<and>
    (jwt_spent U L s tok \<longrightarrow> distinct_draws (fst s') \<longrightarrow> jwt_spent U L s' tok)"
proof -
  obtain g c g' c' where s: "s = (g, c)" "s' = (g', c')" by fastforce
  have gl: "gen_later g g'"
    and al: "alive L (redis_db c') \<subseteq> alive L (redis_db c) \<or> (\<exists>n. uuid_pos g \<le> n \<and> n < uuid_pos g' \<and>
       alive L (redis_db c') \<subseteq> insert (uuid_String U (uuid_source g n)) (alive L (redis_db c)))"
    using generate_pair_fewer [OF assms(2) assms(4) [unfolded s]] by auto
  show ?thesis
  proof (cases "alive L (redis_db c') \<subseteq> alive L (redis_db c)")
    case True
    then have "fewer L {} s s'" using gl s by (simp add: fewer_def)
    then show ?thesis using jwt_fewer [OF assms(3)] by blast
  next
    case False
    then obtain n where n: "uuid_pos g \<le> n" "n < uuid_pos g'"
      "alive L (redis_db c') \<subseteq> insert (uuid_String U (uuid_source g n)) (alive L (redis_db c))"
      using al by blast
    have "issued U g \<subseteq> issued U g'" "uuid_String U (uuid_source g n) \<in> issued U g'"
      using issued_later [OF gl] issued_new [OF n(2), of U] gl by (auto simp: gen_later_def)
    then have "jwt_inv U L s'" using assms(3) n(3) unfolding jwt_inv_def s by auto
    moreover have "jwt_spent U L s' tok" if "jwt_spent U L s tok" "distinct_draws g'"
    proof -
      have "tok \<noteq> uuid_String U (uuid_source g n)"
        using issued_not_drawn [OF assms(1) that(2) gl _ n(1,2)] that(1) by (simp add: jwt_spent_def s)
      then show ?thesis using n(3) that(1) \<open>issued U g \<subseteq> issued U g'\<close> by (auto simp: jwt_spent_def s)
    qed
    ultimately show ?thesis using gl s by simp
  qed
qed

locale token_backend =
  fixes J :: "('sk, 'pk) jwt_lib" and U :: uuid_lib and L :: "'db redis_lib" and svc :: "('sk, 'pk) jwt_service"
  assumes uuid: "uuid_laws U" and redis: "redis_laws L"

sublocale token_backend \<subseteq> jwt: single_use_tokens "jwt_token_service J U L svc" "jwt_inv U L" "jwt_spent U L" "jwt_env L"
proof (unfold_locales, goal_cases)
  case (1 g t g' tok)
  have "fewer L {} (g, t) (g', t)" using 1(2) by (simp add: fewer_def)
  then show ?case using jwt_fewer [OF 1(1)] by blast
next
  case (2 g t t' tok)
  have "alive L (redis_db t') \<subseteq> alive L (redis_db t)" using 2(2) by (fastforce simp: jwt_env_def alive_def)
  then have "fewer L {} (g, t) (g, t')" by (auto simp: fewer_def)
  then show ?case using jwt_fewer [OF 2(1)] by blast
next
  case (3 s uid r p s' tok)
  then have "jwt_generate_pair J U L svc uid r s = (p, s')" by (simp add: jwt_token_service_def)
  then show ?case by (rule jwt_generate [OF uuid redis 3(1)])
next
  case (4 x g c g')
  then show ?case
    by (auto simp: jwt_token_service_def jwt_validate_access_token_def time_now_def gen_later_def
        split: sum.splits if_splits option.splits prod.splits)
next
  case (5 s x y s' tok)
  then have "fewer L {} s s'" using revoke_fewer(1) [OF redis, of svc x s y s'] by (simp add: jwt_token_service_def)
  then show ?case using jwt_fewer [OF 5(1)] by blast
next
  case (6 s uid y s' tok)
  then have "fewer L {} s s'" using revoke_fewer(2) [OF redis, of U svc uid s y s'] by (simp add: jwt_token_service_def)
  then show ?case using jwt_fewer [OF 6(1)] by blast
next
  case (7 s x z s' tok)
  then have run: "jwt_redeem_refresh_token U L svc x s = (z, s')" by (simp add: jwt_token_service_def)
  have f: "fewer L {} s s'" and ok: "\<And>res. z = Inr res \<Longrightarrow> outcome res = RedemptionOK \<Longrightarrow>
      x \<in> alive L (redis_db (snd s)) \<and> x \<notin> alive L (redis_db (snd s'))"
    using redeem_fewer [OF redis run] by blast+
  note st = jwt_fewer [OF 7(1) f]
  have "\<not> jwt_spent U L s x \<and> jwt_spent U L s' x"
    if "x \<in> alive L (redis_db (snd s))" "x \<notin> alive L (redis_db (snd s'))"
    using that 7(1) issued_later [of "fst s" "fst s'" U] st unfolding jwt_spent_def jwt_inv_def by blast
  then show ?case using st ok by (auto split: sum.splits)
qed

subsection \<open>Revoking every token of a user\<close>

text \<open>
  \<open>swept L p tok s s'\<close>: the index entry \<open>p @ tok\<close> is as it was, or the refresh token is dead; no
  refresh token came alive and the transport script only got shorter.
\<close>

definition swept :: "'db redis_lib \<Rightarrow> string \<Rightarrow> string \<Rightarrow> gen \<times> 'db redis_conn \<Rightarrow> gen \<times> 'db redis_conn \<Rightarrow> bool" where
  "swept L p tok s s' \<longleftrightarrow> fewer L {} s s' \<and> set (net (snd s')) \<subseteq> set (net (snd s)) \<and>
     ((\<forall>t. redis_get L t (p @ tok) (redis_db (snd s')) = redis_get L t (p @ tok) (redis_db (snd s))) \<or>
      tok \<notin> alive L (redis_db (snd s')))"

lemma swept_refl [simp]: "swept L p tok s s"
  by (simp add: swept_def)

lemma swept_trans:
  assumes "swept L p tok s s'" "swept L p tok s' s''"
  shows "swept L p tok s s''"
proof -
  have "fewer L {} s s''" using assms fewer_trans [of L "{}" s s' s''] unfolding swept_def by blast
  moreover have "alive L (redis_db (snd s'')) \<subseteq> alive L (redis_db (snd s'))"
    using assms(2) by (auto simp: swept_def fewer_def)
  ultimately show ?thesis using assms unfolding swept_def by fastforce
qed

lemma swept_alive: "swept L p tok s s' \<Longrightarrow> tok \<in> alive L (redis_db (snd s')) \<Longrightarrow> tok \<in> alive L (redis_db (snd s))"
  by (auto simp: swept_def fewer_def)

definition index_prefix :: "string \<Rightarrow> bool" where
  "index_prefix p \<longleftrightarrow> (\<forall>tok tok'. p @ tok \<noteq> refreshKey tok')"

lemma index_prefix: "index_prefix (userRefreshKeyPrefix U uid)"
  by (simp add: index_prefix_def userRefreshKeyPrefix_def refreshKey_def)

lemma round_trip_set_net: "round_trip f c = (r, c') \<Longrightarrow> set (net c') \<subseteq> set (net c)"
  by (auto simp: round_trip_def Let_def split: list.splits prod.splits fate.splits)

lemma revoke_command_swept:
  assumes "redis_laws L" "index_prefix p"
    "round_trip (revoke_command L (trim_prefix k p) k) c = (r, c')"
  shows "swept L p tok (g, c) (g, c')" and "r = Inr v \<Longrightarrow> k = p @ tok \<Longrightarrow> tok \<notin> alive L (redis_db c')"
proof -
  have f: "fewer L {} (g, c) (g, c')" by (rule fewer_round_trip [OF command_fewer(6) [OF assms(1)] assms(3)])
  have dead: "tok \<notin> alive L (redis_del L t k (redis_del L t (refreshKey (trim_prefix k p)) d))"
    if "k = p @ tok" for t d
    using that by (simp add: alive_def redis_get_del [OF assms(1)])
  have same: "redis_get L t' (p @ tok) (redis_del L t k (redis_del L t (refreshKey (trim_prefix k p)) d)) =
      redis_get L t' (p @ tok) d" if "k \<noteq> p @ tok" for t t' d
    using that assms(2) by (auto simp: redis_get_del [OF assms(1)] index_prefix_def)
  have db: "redis_db c' = redis_db c \<and> is_err r \<or>
      (\<exists>t. redis_db c' = redis_del L t k (redis_del L t (refreshKey (trim_prefix k p)) (redis_db c)))"
    using assms(3)
    by (auto simp: round_trip_def revoke_command_def Let_def split: list.splits fate.splits, blast+)
  show "swept L p tok (g, c) (g, c')"
    using f round_trip_set_net [OF assms(3)] db dead same
    by (cases "k = p @ tok") (auto simp: swept_def)
  show "tok \<notin> alive L (redis_db c')" if "r = Inr v" "k = p @ tok"
    using db dead that by auto
qed

lemma revoke_keys_swept:
  assumes "redis_laws L" "index_prefix p"
  shows "revoke_keys L p ks c = (r, c') \<Longrightarrow> swept L p tok (g, c) (g, c') \<and>
    (r = Inr () \<and> p @ tok \<in> set ks \<longrightarrow> tok \<notin> alive L (redis_db c'))"
proof (induction ks arbitrary: c)
  case (Cons k ks)
  obtain x c1 where rt: "round_trip (revoke_command L (trim_prefix k p) k) c = (x, c1)" by fastforce
  note s = revoke_command_swept [OF assms rt, where tok = tok]
  show ?case
  proof (cases x)
    case (Inl e)
    then show ?thesis using Cons.prems rt s(1) by auto
  next
    case (Inr u)
    then have "revoke_keys L p ks c1 = (r, c')" using Cons.prems rt by simp
    from Cons.IH [OF this] show ?thesis
      using s Inr swept_trans [OF s(1)] swept_alive [of L p tok "(g, c1)" "(g, c')"] by auto
  qed
qed simp

lemma revoke_scan_sweeps:
  assumes "redis_laws L" "index_prefix p"
  shows "revoke_scan L p cur c = (r, c') \<Longrightarrow> swept L p tok (g, c) (g, c') \<and>
    (r = Inr () \<longrightarrow> (\<exists>ds ks. full_scan L (p @ ''*'') 100 cur ds = Some ks \<and>
       (p @ tok \<in> set ks \<longrightarrow> tok \<notin> alive L (redis_db c')) \<and>
       (\<forall>(t, d) \<in> set ds. t \<in> fst ` set (net c) \<and>
          (redis_get L t (p @ tok) d = redis_get L t (p @ tok) (redis_db c) \<or> tok \<notin> alive L (redis_db c')))))"
proof (induction "length (net c)" arbitrary: cur c rule: less_induct)
  case less
  obtain x c1 where rt: "round_trip (scan_command L cur (p @ ''*'') 100) c = (x, c1)" by fastforce
  have db1: "redis_db c1 = redis_db c"
    using rt by (auto simp: round_trip_def scan_command_def Let_def split: list.splits fate.splits)
  have s1: "swept L p tok (g, c) (g, c1)"
    using fewer_round_trip [OF command_fewer(5) [OF assms(1)] rt] round_trip_set_net [OF rt] db1
    by (simp add: swept_def)
  show ?case
  proof (cases x)
    case (Inl e)
    then show ?thesis using less.prems rt s1 by (auto simp: revoke_scan.simps [of L p cur])
  next
    case (Inr kn)
    obtain ks next' where kn: "kn = (ks, next')" by fastforce
    obtain t where t: "redis_scan L t cur (p @ ''*'') 100 (redis_db c) = (ks, next')" "t \<in> fst ` set (net c)"
      using rt Inr kn by (force simp: round_trip_def scan_command_def Let_def split: list.splits fate.splits)
    obtain y c2 where rk: "revoke_keys L p ks c1 = (y, c2)" by fastforce
    note s2 = revoke_keys_swept [OF assms rk, where tok = tok and g = g]
    have s12: "swept L p tok (g, c) (g, c2)" using swept_trans [OF s1] s2 by blast
    have len: "length (net c2) < length (net c)"
      using round_trip_net [of _ c] rt Inr revoke_keys_net [OF rk] by fastforce
    consider "is_err y" | "y = Inr ()" "next' = 0" | "y = Inr ()" "next' \<noteq> 0" by (cases y) auto
    then show ?thesis
    proof cases
      case 1
      then show ?thesis
        using less.prems rt Inr kn rk s12 by (cases y) (auto simp: revoke_scan.simps [of L p cur])
    next
      case 2
      then have "r = Inr ()" "c' = c2"
        using less.prems rt Inr kn rk by (auto simp: revoke_scan.simps [of L p cur])
      moreover have "full_scan L (p @ ''*'') 100 cur [(t, redis_db c)] = Some ks" using t(1) 2(2) by simp
      ultimately show ?thesis using s12 s2 2 t(2)
        by (intro conjI impI exI [of _ "[(t, redis_db c)]"] exI [of _ ks]) auto
    next
      case 3
      then have run: "revoke_scan L p next' c2 = (r, c')"
        using less.prems rt Inr kn rk by (auto simp: revoke_scan.simps [of L p cur])
      note ih = less.hyps [OF len run]
      have s: "swept L p tok (g, c) (g, c')" using swept_trans [OF s12] ih by blast
      show ?thesis
      proof (intro conjI impI s)
        assume "r = Inr ()"
        then obtain ds ks' where ds: "full_scan L (p @ ''*'') 100 next' ds = Some ks'"
          "p @ tok \<in> set ks' \<longrightarrow> tok \<notin> alive L (redis_db c')"
          "\<forall>(t, d) \<in> set ds. t \<in> fst ` set (net c2) \<and>
             (redis_get L t (p @ tok) d = redis_get L t (p @ tok) (redis_db c2) \<or> tok \<notin> alive L (redis_db c'))"
          using ih by blast
        have full: "full_scan L (p @ ''*'') 100 cur ((t, redis_db c) # ds) = Some (ks @ ks')"
          using t(1) 3(2) ds(1) by simp
        have dead2: "tok \<notin> alive L (redis_db c')" if "tok \<notin> alive L (redis_db c2)"
          using ih that swept_alive [of L p tok "(g, c2)" "(g, c')"] by auto
        have found: "p @ tok \<in> set (ks @ ks') \<longrightarrow> tok \<notin> alive L (redis_db c')"
          using ds(2) dead2 s2 3 by auto
        have sub: "fst ` set (net c2) \<subseteq> fst ` set (net c)"
          and same: "(\<forall>t. redis_get L t (p @ tok) (redis_db c2) = redis_get L t (p @ tok) (redis_db c)) \<or>
            tok \<notin> alive L (redis_db c')"
          using s12 dead2 by (auto simp: swept_def)
        have "t' \<in> fst ` set (net c) \<and> (redis_get L t' (p @ tok) d = redis_get L t' (p @ tok) (redis_db c) \<or>
            tok \<notin> alive L (redis_db c'))" if "(t', d) \<in> set ds" for t' d
        proof -
          have "t' \<in> fst ` set (net c2)" "redis_get L t' (p @ tok) d = redis_get L t' (p @ tok) (redis_db c2) \<or>
              tok \<notin> alive L (redis_db c')" using ds(3) that by auto
          then show ?thesis using sub same by auto
        qed
        then have all: "\<forall>(t', d) \<in> set ((t, redis_db c) # ds). t' \<in> fst ` set (net c) \<and>
            (redis_get L t' (p @ tok) d = redis_get L t' (p @ tok) (redis_db c) \<or> tok \<notin> alive L (redis_db c'))"
          using t(2) by auto
        show "\<exists>ds ks. full_scan L (p @ ''*'') 100 cur ds = Some ks \<and>
            (p @ tok \<in> set ks \<longrightarrow> tok \<notin> alive L (redis_db c')) \<and>
            (\<forall>(t, d) \<in> set ds. t \<in> fst ` set (net c) \<and>
              (redis_get L t (p @ tok) d = redis_get L t (p @ tok) (redis_db c) \<or> tok \<notin> alive L (redis_db c')))"
          by (intro exI conjI) (rule full, rule found, rule all)
      qed
    qed
  qed
qed

lemma full_scan_complete:
  assumes "redis_laws L" "set p \<subseteq> glob_plain" "full_scan L (p @ ''*'') n 0 ds = Some ks"
    "starts_with p k" "\<forall>(t, d) \<in> set ds. redis_get L t k d \<noteq> None"
  shows "k \<in> set ks"
proof -
  have "\<forall>p n ds ks k. set p \<subseteq> glob_plain \<longrightarrow> full_scan L (p @ ''*'') n 0 ds = Some ks \<longrightarrow> starts_with p k \<longrightarrow>
      (\<forall>(t, d) \<in> set ds. redis_get L t k d \<noteq> None) \<longrightarrow> k \<in> set ks"
    using assms(1) unfolding redis_laws_def by (elim conjE)
  note this [THEN spec, of p, THEN spec, of n, THEN spec, of ds, THEN spec, of ks, THEN spec, of k]
  then show ?thesis using assms(2-5) by blast
qed

lemma userRefreshKeyPrefix_plain: "uuid_laws U \<Longrightarrow> set (userRefreshKeyPrefix U uid) \<subseteq> glob_plain"
proof -
  assume "uuid_laws U"
  then have "set (uuid_String U uid) \<subseteq> glob_plain"
    using uuid_laws_String(3) [of U uid] unfolding glob_plain_def by blast
  moreover have "set ''user-refresh:'' \<subseteq> glob_plain" "set '':'' \<subseteq> glob_plain"
    by (simp_all add: glob_plain_def uuid_chars_def)
  ultimately show ?thesis unfolding userRefreshKeyPrefix_def set_append by blast
qed

lemma revoke_scan_kills:
  assumes "redis_laws L" "uuid_laws U" "revoke_scan L (userRefreshKeyPrefix U uid) 0 c = (Inr (), c')"
    "\<forall>(t, f) \<in> set (net c). redis_get L t (userRefreshKey U uid tok) (redis_db c) \<noteq> None"
  shows "tok \<notin> alive L (redis_db c')"
proof
  assume a: "tok \<in> alive L (redis_db c')"
  let ?p = "userRefreshKeyPrefix U uid"
  obtain ds ks where ds: "full_scan L (?p @ ''*'') 100 0 ds = Some ks"
    "?p @ tok \<in> set ks \<longrightarrow> tok \<notin> alive L (redis_db c')"
    "\<forall>(t, d) \<in> set ds. t \<in> fst ` set (net c) \<and>
       (redis_get L t (?p @ tok) d = redis_get L t (?p @ tok) (redis_db c) \<or> tok \<notin> alive L (redis_db c'))"
    using revoke_scan_sweeps [OF assms(1) index_prefix assms(3), where tok = tok] by blast
  have "\<forall>(t, d) \<in> set ds. redis_get L t (?p @ tok) d \<noteq> None"
    using ds(3) a assms(4) by (fastforce simp: userRefreshKey_def)
  then have "?p @ tok \<in> set ks"
    by (intro full_scan_complete [OF assms(1) userRefreshKeyPrefix_plain [OF assms(2)] ds(1)]) auto
  then show False using ds(2) a by blast
qed

lemma revoke_all_kills:
  assumes "redis_laws L" "uuid_laws U"
    "jwt_revoke_all_refresh_tokens U L s uid gc = (Inr (), gc')"
    "\<forall>(t, f) \<in> set (net (snd gc)). redis_get L t (userRefreshKey U uid tok) (redis_db (snd gc)) \<noteq> None"
  shows "tok \<notin> alive L (redis_db (snd gc'))"
proof -
  let ?p = "userRefreshKeyPrefix U uid"
  have "swept L ?p tok gc gc' \<and> (\<forall>v. Inr () = (Inr v :: error + unit) \<longrightarrow> (\<exists>g c c'. swept L ?p tok gc (g, c) \<and>
      revoke_scan L ?p 0 c = (Inr v, c') \<and> swept L ?p tok (g, c') gc'))"
    by (rule resilient_rel [where P = "swept L ?p tok", OF _ swept_trans _ _ _ _
          assms(3) [unfolded jwt_revoke_all_refresh_tokens_def]])
      (use revoke_scan_sweeps [OF assms(1) index_prefix] in \<open>auto simp: swept_def fewer_def\<close>)
  then obtain g c c' where run: "swept L ?p tok gc (g, c)" "revoke_scan L ?p 0 c = (Inr (), c')"
    "swept L ?p tok (g, c') gc'" by blast
  have "tok \<notin> alive L (redis_db c')"
  proof (cases "tok \<in> alive L (redis_db c)")
    case True
    then have "\<forall>(t, f) \<in> set (net c). redis_get L t (userRefreshKey U uid tok) (redis_db c) \<noteq> None"
      using run(1) assms(4) by (fastforce simp: swept_def userRefreshKey_def)
    then show ?thesis using revoke_scan_kills [OF assms(1,2) run(2)] by blast
  next
    case False
    then show ?thesis
      using revoke_scan_sweeps [OF assms(1) index_prefix run(2), where tok = tok and g = g]
        swept_alive [of L ?p tok "(g, c)" "(g, c')"] by auto
  qed
  then show ?thesis using swept_alive [OF run(3)] by auto
qed

subsection \<open>Libraries of the model, for the witnesses\<close>

type_synonym demo_db = "(string \<times> string \<times> time) list"

definition demo_redis :: "demo_db redis_lib" where
  "demo_redis = \<lparr>
     redis_get = (\<lambda>t k d. case map_of d k of Some (v, e) \<Rightarrow> if t < e then Some v else None | None \<Rightarrow> None),
     redis_set = (\<lambda>t k v ttl d. AList.update k (v, t + ttl) d),
     redis_del = (\<lambda>t k d. AList.delete k d),
     redis_scan = (\<lambda>t cursor pat n d. (filter (starts_with (butlast pat)) (map fst d), 0))\<rparr>"

lemma demo_redis_laws: "redis_laws demo_redis"
proof -
  have "k \<in> set ks" if "full_scan demo_redis (p @ ''*'') n 0 ds = Some ks" "starts_with p k"
    "\<forall>(t, d) \<in> set ds. redis_get demo_redis t k d \<noteq> None" for p n ds ks k
  proof (cases ds)
    case (Cons td rest)
    obtain t d where td: "td = (t, d)" by fastforce
    have "rest = []" "ks = filter (starts_with p) (map fst d)"
      using that(1) Cons td by (auto simp: demo_redis_def split: if_splits)
    moreover have "map_of d k \<noteq> None"
      using that(3) Cons td by (auto simp: demo_redis_def split: option.splits)
    then have "k \<in> fst ` set d" by (simp add: map_of_eq_None_iff)
    ultimately show ?thesis using that(2) by auto
  qed (use that in simp)
  then show ?thesis
    unfolding redis_laws_def by (intro conjI allI impI) (auto simp: demo_redis_def delete_conv')
qed

interpretation demo_tokens: token_backend J rfc_uuid demo_redis svc for J svc
  by unfold_locales (rule rfc_uuid_laws, rule demo_redis_laws)

definition enc_int :: "int \<Rightarrow> string" where
  "enc_int i = (if i < 0 then CHR ''-'' else CHR ''+'') # replicate (nat \<bar>i\<bar>) CHR ''x'' @ ''.''"

definition dec_int :: "string \<Rightarrow> int \<times> string" where
  "dec_int s = (let n = length (takeWhile (\<lambda>c. c = CHR ''x'') (tl s)) in
     (if hd s = CHR ''-'' then - int n else int n, drop (n + 1) (tl s)))"

lemma dec_enc_int: "dec_int (enc_int i @ s) = (i, s)"
proof -
  have "takeWhile (\<lambda>c. c = CHR ''x'') (replicate n CHR ''x'' @ CHR ''.'' # s) = replicate n CHR ''x''" for n
    by (simp add: takeWhile_append)
  then show ?thesis by (simp add: dec_int_def enc_int_def)
qed

definition demo_encode :: "jwt_claims \<Rightarrow> string" where
  "demo_encode c = enc_int (jwt_issued_at c) @ enc_int (jwt_expires_at c) @
     enc_int (int (length (jwt_role c))) @ jwt_role c @ jwt_subject c"

definition demo_decode :: "string \<Rightarrow> jwt_claims" where
  "demo_decode s = (case dec_int s of (i, s) \<Rightarrow> case dec_int s of (e, s) \<Rightarrow> case dec_int s of (n, s) \<Rightarrow>
     \<lparr>jwt_subject = drop (nat n) s, jwt_issued_at = i, jwt_expires_at = e, jwt_role = take (nat n) s\<rparr>)"

definition demo_jwt :: "(unit, unit) jwt_lib" where
  "demo_jwt = \<lparr>ParseEdPrivateKeyFromPEM = (\<lambda>_. Inr ()), ParseEdPublicKeyFromPEM = (\<lambda>_. Inr ()),
     NewNumericDate = (\<lambda>t. t div 10 ^ 9 * 10 ^ 9), SignedString = (\<lambda>c _. Inr (demo_encode c)),
     ParseWithClaims = (\<lambda>tok kf now. case kf SigningMethodEd25519 of Inl e \<Rightarrow> Inl e
       | Inr _ \<Rightarrow> if now < jwt_expires_at (demo_decode tok) then Inr (demo_decode tok, True)
                 else Inl ErrTokenInvalid)\<rparr>"

lemma demo_jwt_laws: "jwt_laws demo_jwt () ()"
proof -
  have "demo_decode (demo_encode c) = c" for c
    by (simp add: demo_decode_def demo_encode_def dec_enc_int)
  moreover have "t div 10 ^ 9 * 10 ^ 9 \<le> t \<and> t < t div 10 ^ 9 * 10 ^ 9 + 10 ^ 9" for t :: int
  proof -
    have "(10 :: int) ^ 9 = 1000000000" by simp
    then show ?thesis by (simp only:) presburger
  qed
  ultimately show ?thesis by (simp add: jwt_laws_def demo_jwt_def)
qed

definition demo_service :: "(unit, unit) jwt_service" where
  "demo_service = \<lparr>privateKey = (), publicKey = (), accessTTL = 900 * 10 ^ 9, refreshTTL = 604800 * 10 ^ 9,
     retryPolicy = new_retry_policy 3 (10 ^ 8) 2\<rparr>"

definition demo_conn :: "(time \<times> fate) list \<Rightarrow> demo_db \<Rightarrow> demo_db redis_conn" where
  "demo_conn n d = \<lparr>redis_db = d, redis_breaker = new_circuit_breaker 5 (10 ^ 9), net = n,
     ctx_waits = [None, None]\<rparr>"

subsection \<open>Properties\<close>

text \<open>\<^bold>\<open>C22\<close>. The access token of a generated pair is accepted until it expires, which is the
  issue time plus the configured lifetime rounded down to a second, and then gives the user id
  and role it was issued for; from that second on it is refused as invalid.\<close>

theorem access_token_lifetime:
  assumes "jwt_laws J (privateKey s) (publicKey s)" and "uuid_laws U"
    and "jwt_generate_pair J U L s uid role (g, c) = (Inr pair, gc')"
    and "now = clock g' (clock_pos g')"
  shows "fst (jwt_validate_access_token J U s (AccessToken pair) g') =
    (if now < NewNumericDate J (clock g (clock_pos g) + accessTTL s)
     then Inr \<lparr>claim_user_id = uid, claim_role = role\<rparr> else Inl ErrTokenInvalid)"
proof -
  define claims where "claims = \<lparr>jwt_subject = uuid_String U uid,
    jwt_issued_at = NewNumericDate J (clock g (clock_pos g)),
    jwt_expires_at = NewNumericDate J (clock g (clock_pos g) + accessTTL s), jwt_role = role\<rparr>"
  have signed: "SignedString J claims (privateKey s) = Inr (AccessToken pair)"
    using assms(3)
    by (auto simp: jwt_generate_pair_def time_now_def Let_def claims_def split: sum.splits prod.splits)
  have kf: "ed25519_only (publicKey s) SigningMethodEd25519 = Inr (publicKey s)"
    by (simp add: ed25519_only_def)
  have law: "if now < jwt_expires_at claims
    then ParseWithClaims J (AccessToken pair) (ed25519_only (publicKey s)) now = Inr (claims, True)
    else is_err (ParseWithClaims J (AccessToken pair) (ed25519_only (publicKey s)) now)"
    using assms(1) signed kf unfolding jwt_laws_def by blast
  have "jwt_subject claims = uuid_String U uid" "jwt_role claims = role"
    "jwt_expires_at claims = NewNumericDate J (clock g (clock_pos g) + accessTTL s)"
    by (simp_all add: claims_def)
  then show ?thesis
    using law uuid_laws_String(1) [OF assms(2), of uid] assms(4)
    by (auto simp: jwt_validate_access_token_def time_now_def is_err_def split: sum.splits if_splits)
qed

lemma access_token_lifetime_witness:
  "\<exists>pair :: token_pair. fst (jwt_validate_access_token demo_jwt rfc_uuid demo_service (AccessToken pair)
     (demo_gen\<lparr>clock_pos := 899\<rparr>)) = Inr \<lparr>claim_user_id = 7, claim_role = RoleAdmin\<rparr>"
proof -
  obtain pair gc' where p: "jwt_generate_pair demo_jwt rfc_uuid demo_redis demo_service 7 RoleAdmin
      (demo_gen, demo_conn [(0, Delivered)] []) = (Inr pair, gc')"
    by (simp add: jwt_generate_pair_def time_now_def uuid_new_def demo_jwt_def resilient_delivered
        demo_conn_def round_trip_def store_refresh_def new_circuit_breaker_def Let_def)
  have "jwt_laws demo_jwt (privateKey demo_service) (publicKey demo_service)"
    using demo_jwt_laws by (simp add: demo_service_def)
  from access_token_lifetime [OF this rfc_uuid_laws p refl, of "demo_gen\<lparr>clock_pos := 899\<rparr>"] show ?thesis
    by (intro exI [of _ pair]) (simp add: demo_gen_def demo_jwt_def demo_service_def)
qed

text \<open>\<^bold>\<open>C6\<close>. Replay detection: on a healthy connection a living refresh token of user \<open>uid\<close> is
  redeemed once, with outcome OK and that user; a second redemption within the five minutes of
  the tombstone, over any later connection to the same database, reports the reuse and names
  the same user.\<close>

theorem replay_detected:
  fixes L :: "'db redis_lib"
  assumes "uuid_laws U" and "redis_laws L" and "cb_state (redis_breaker c) = StateClosed"
    and "net c = (t, Delivered) # rest"
    and "redis_get L t (usedRefreshKey tok) (redis_db c) = None"
    and "redis_get L t (refreshKey tok) (redis_db c) = Some (uuid_String U uid)"
    and "jwt_redeem_refresh_token U L s tok (g, c) = (r, g1, c1)"
    and "redis_db c2 = redis_db c1" and "cb_state (redis_breaker c2) = StateClosed"
    and "net c2 = (t2, Delivered) # rest2" and "t \<le> t2" and "t2 < t + 5 * 60 * 10 ^ 9"
  shows "r = Inr \<lparr>outcome = RedemptionOK, red_user_id = uid\<rparr> \<and>
    fst (jwt_redeem_refresh_token U L s tok (g2, c2)) = Inr \<lparr>outcome = RedemptionReused, red_user_id = uid\<rparr>"
proof -
  define d where "d = redis_set L t (usedRefreshKey tok) (uuid_String U uid) reuse_tombstone_ttl
    (redis_del L t (refreshKey tok) (redis_db c))"
  define ca where "ca = c\<lparr>net := rest, redis_db := d\<rparr>"
  have run: "round_trip (redeem_command L tok) c = (Inr [''OK'', uuid_String U uid], ca)"
    using assms(4-6)
    by (simp add: round_trip_def redeem_command_def redeem_script_def d_def ca_def reuse_tombstone_ttl_def)
  define cb where "cb = ca\<lparr>redis_breaker := record_success (redis_breaker c)\<rparr>"
  obtain y g3 c3 where del: "resilient (retryPolicy s)
      (round_trip (del_command L (userRefreshKey U uid tok))) (g, cb) = (y, g3, c3)" by (metis prod_cases3)
  have first: "r = Inr \<lparr>outcome = RedemptionOK, red_user_id = uid\<rparr> \<and> c1 = c3"
    using assms(7) del uuid_laws_String(1) [OF assms(1)]
      resilient_delivered [where operation = "round_trip (redeem_command L tok)", OF assms(3) run]
    by (simp add: jwt_redeem_refresh_token_def parseRedeemUserID_def cb_def)
  define P where "P = (\<lambda>(s :: gen \<times> 'db redis_conn) (s' :: gen \<times> 'db redis_conn).
    redis_get L t2 (usedRefreshKey tok) (redis_db (snd s')) = redis_get L t2 (usedRefreshKey tok) (redis_db (snd s)))"
  have "P (g, cb) (g3, c3)"
  proof (rule conjunct1 [OF resilient_rel [where P = P, OF _ _ _ _ _ _ del]])
    show "P (g, c) (g, c')" if "round_trip (del_command L (userRefreshKey U uid tok)) c = (r, c')" for g c r c'
      using that redis_get_del [OF assms(2)]
      by (auto simp: P_def round_trip_def del_command_def Let_def split: list.splits fate.splits)
  qed (auto simp: P_def)
  then have "redis_get L t2 (usedRefreshKey tok) (redis_db c1) = redis_get L t2 (usedRefreshKey tok) d"
    using first by (simp add: P_def cb_def ca_def)
  also have "\<dots> = Some (uuid_String U uid)"
    using redis_get_set [OF assms(2), of reuse_tombstone_ttl t t2] assms(11,12)
    by (simp add: d_def reuse_tombstone_ttl_def)
  finally have "round_trip (redeem_command L tok) c2 = (Inr [''REUSED'', uuid_String U uid], c2\<lparr>net := rest2\<rparr>)"
    using assms(8,10) by (simp add: round_trip_def redeem_command_def redeem_script_def)
  then show ?thesis
    using first uuid_laws_String(1) [OF assms(1)]
      resilient_delivered [where operation = "round_trip (redeem_command L tok)", OF assms(9)]
    by (simp add: jwt_redeem_refresh_token_def parseRedeemUserID_def)
qed

lemma replay_detected_witness:
  "\<exists>c2. fst (jwt_redeem_refresh_token rfc_uuid demo_redis demo_service ''tok'' (demo_gen, c2)) =
     Inr \<lparr>outcome = RedemptionReused, red_user_id = 7\<rparr>"
proof -
  let ?c = "demo_conn [(0, Delivered)] [(refreshKey ''tok'', uuid_String rfc_uuid 7, 100)]"
  obtain r g1 c1 where r: "jwt_redeem_refresh_token rfc_uuid demo_redis demo_service ''tok'' (demo_gen, ?c) = (r, g1, c1)"
    by (metis prod_cases3)
  let ?c2 = "demo_conn [(60, Delivered)] (redis_db c1)"
  have "cb_state (redis_breaker ?c) = StateClosed" "net ?c = (0, Delivered) # []"
    "redis_get demo_redis 0 (usedRefreshKey ''tok'') (redis_db ?c) = None"
    "redis_get demo_redis 0 (refreshKey ''tok'') (redis_db ?c) = Some (uuid_String rfc_uuid 7)"
    "redis_db ?c2 = redis_db c1" "cb_state (redis_breaker ?c2) = StateClosed" "net ?c2 = (60, Delivered) # []"
    by (simp_all add: demo_conn_def new_circuit_breaker_def demo_redis_def)
  from replay_detected [OF rfc_uuid_laws demo_redis_laws this(1-4) r this(5-7)] show ?thesis by auto
qed

lemma resilient_second_try:
  assumes "cb_state (redis_breaker c) = StateClosed" "1 < max_attempts policy"
    "operation c = (Inl e, c1)" "isRedisRetryable e" "ctx_waits c1 = None # ws"
    "operation (c1\<lparr>ctx_waits := ws\<rparr>) = (Inr v, c2)"
  shows "resilient policy operation (g, c) =
    (Inr v, g, c2\<lparr>redis_breaker := record_success (redis_breaker c)\<rparr>)"
  using assms
  by (simp add: resilient_def call_with_resilience_def allow_request_def state_locked_def ctx_wait_def
      retry_with_backoff.simps [of _ _ _ _ 0] retry_with_backoff.simps [of _ _ _ _ "Suc 0"])

text \<open>\<^bold>\<open>C39\<close>. A lost reply turns a legitimate refresh into a theft alarm: when the server runs the
  redeem script but its reply is lost on the way, the retry of the same call meets the tombstone
  the first run left and reports the token as reused, although it was redeemed once, by its
  owner. (The use case then revokes all the sessions of that user.)\<close>

theorem lost_reply_reports_reuse:
  fixes L :: "'db redis_lib"
  assumes "uuid_laws U" and "redis_laws L" and "cb_state (redis_breaker c) = StateClosed"
    and "net c = (t, ReplyLost e) # (t2, Delivered) # rest" and "ctx_waits c = None # ws"
    and "1 < max_attempts (retryPolicy s)"
    and "redis_get L t (usedRefreshKey tok) (redis_db c) = None"
    and "redis_get L t (refreshKey tok) (redis_db c) = Some (uuid_String U uid)"
    and "t \<le> t2" and "t2 < t + 5 * 60 * 10 ^ 9"
  shows "fst (jwt_redeem_refresh_token U L s tok (g, c)) =
    Inr \<lparr>outcome = RedemptionReused, red_user_id = uid\<rparr>"
proof -
  define d where "d = redis_set L t (usedRefreshKey tok) (uuid_String U uid) reuse_tombstone_ttl
    (redis_del L t (refreshKey tok) (redis_db c))"
  define c1 where "c1 = c\<lparr>net := (t2, Delivered) # rest, redis_db := d\<rparr>"
  have first: "round_trip (redeem_command L tok) c = (Inl (External e), c1)"
    using assms(4,7,8)
    by (simp add: round_trip_def redeem_command_def redeem_script_def d_def c1_def reuse_tombstone_ttl_def)
  have w: "ctx_waits c1 = None # ws" using assms(5) by (simp add: c1_def)
  have "redis_get L t2 (usedRefreshKey tok) d = Some (uuid_String U uid)"
    using redis_get_set [OF assms(2), of reuse_tombstone_ttl t t2] assms(9,10)
    by (simp add: d_def reuse_tombstone_ttl_def)
  then have second: "round_trip (redeem_command L tok) (c1\<lparr>ctx_waits := ws\<rparr>) =
      (Inr [''REUSED'', uuid_String U uid], c1\<lparr>ctx_waits := ws, net := rest\<rparr>)"
    by (simp add: round_trip_def redeem_command_def redeem_script_def c1_def)
  show ?thesis
    using resilient_second_try [where operation = "round_trip (redeem_command L tok)",
        OF assms(3,6) first _ w second, of g] uuid_laws_String(1) [OF assms(1)]
    by (simp add: jwt_redeem_refresh_token_def parseRedeemUserID_def isRedisRetryable_def)
qed

lemma lost_reply_reports_reuse_witness:
  "fst (jwt_redeem_refresh_token rfc_uuid demo_redis demo_service ''tok'' (demo_gen,
      demo_conn [(0, ReplyLost ''EOF''), (1, Delivered)]
        [(refreshKey ''tok'', uuid_String rfc_uuid 7, 100)])) =
    Inr \<lparr>outcome = RedemptionReused, red_user_id = 7\<rparr>"
proof -
  let ?c = "demo_conn [(0, ReplyLost ''EOF''), (1, Delivered)]
        [(refreshKey ''tok'', uuid_String rfc_uuid 7, 100)]"
  have "cb_state (redis_breaker ?c) = StateClosed"
    "net ?c = (0, ReplyLost ''EOF'') # (1, Delivered) # []" "ctx_waits ?c = None # [None]"
    "1 < max_attempts (retryPolicy demo_service)"
    "redis_get demo_redis 0 (usedRefreshKey ''tok'') (redis_db ?c) = None"
    "redis_get demo_redis 0 (refreshKey ''tok'') (redis_db ?c) = Some (uuid_String rfc_uuid 7)"
    by (simp_all add: demo_conn_def new_circuit_breaker_def demo_redis_def
        demo_service_def new_retry_policy_def)
  from lost_reply_reports_reuse [OF rfc_uuid_laws demo_redis_laws this, of demo_gen] show ?thesis by simp
qed

text \<open>\<^bold>\<open>C8\<close>. Revoking all sessions works: when \<open>RevokeAllRefreshTokens\<close> reports success, whatever
  retries and lost replies it met, every refresh token whose index entry was live at the times of
  the scan can no longer be redeemed, on any later connection to that database.\<close>

theorem revoke_all_revokes:
  assumes "uuid_laws U" and "redis_laws L"
    and "jwt_revoke_all_refresh_tokens U L s uid (g, c) = (Inr (), g1, c1)"
    and "\<forall>(t, f) \<in> set (net c). redis_get L t (userRefreshKey U uid tok) (redis_db c) \<noteq> None"
    and "redis_db c2 = redis_db c1"
    and "jwt_redeem_refresh_token U L s2 tok (g2, c2) = (Inr res, gc3)"
  shows "outcome res \<noteq> RedemptionOK"
proof
  assume "outcome res = RedemptionOK"
  then have "tok \<in> alive L (redis_db c2)" using redeem_fewer [OF assms(2,6)] by simp
  then show False using revoke_all_kills [OF assms(2,1,3), of tok] assms(4,5) by simp
qed

lemma revoke_all_revokes_witness:
  "\<exists>c1 res. fst (jwt_redeem_refresh_token rfc_uuid demo_redis demo_service ''tok'' (demo_gen, c1)) = Inr res \<and>
     outcome res \<noteq> RedemptionOK"
proof -
  let ?d = "[(refreshKey ''tok'', uuid_String rfc_uuid 7, 100), (userRefreshKey rfc_uuid 7 ''tok'', ''tok'', 100)]"
  let ?c = "demo_conn [(0, Delivered), (1, Delivered)] ?d"
  let ?p = "userRefreshKeyPrefix rfc_uuid 7"
  have sw: "\<not> starts_with ?p (refreshKey ''tok'')"
    by (simp add: userRefreshKeyPrefix_def refreshKey_def)
  have scan: "round_trip (scan_command demo_redis 0 (?p @ ''*'') 100) ?c =
      (Inr ([?p @ ''tok''], 0), ?c\<lparr>net := [(1, Delivered)]\<rparr>)"
    using sw by (simp add: round_trip_def scan_command_def demo_conn_def demo_redis_def userRefreshKey_def
        butlast_append)
  have rev: "revoke_scan demo_redis ?p 0 ?c = (Inr (), ?c\<lparr>net := [], redis_db := []\<rparr>)"
  proof -
    have "round_trip (revoke_command demo_redis ''tok'' (?p @ ''tok'')) (?c\<lparr>net := [(1, Delivered)]\<rparr>) =
        (Inr (), ?c\<lparr>net := [], redis_db := []\<rparr>)"
      by (simp add: round_trip_def revoke_command_def demo_conn_def demo_redis_def userRefreshKey_def)
    then show ?thesis using scan by (subst revoke_scan.simps) simp
  qed
  have closed: "cb_state (redis_breaker (demo_conn n d)) = StateClosed" for n d
    by (simp add: demo_conn_def new_circuit_breaker_def)
  obtain g1 c1 where r: "jwt_revoke_all_refresh_tokens rfc_uuid demo_redis demo_service 7 (demo_gen, ?c) = (Inr (), g1, c1)"
    using resilient_delivered [where operation = "revoke_scan demo_redis ?p 0", OF closed rev]
    by (simp add: jwt_revoke_all_refresh_tokens_def)
  have live: "\<forall>(t, f) \<in> set (net ?c). redis_get demo_redis t (userRefreshKey rfc_uuid 7 ''tok'') (redis_db ?c) \<noteq> None"
    by (simp add: demo_conn_def demo_redis_def)
  let ?c2 = "demo_conn [(2, Delivered)] (redis_db c1)"
  have db: "redis_db ?c2 = redis_db c1" by (simp add: demo_conn_def)
  have "redis_db c1 = []"
    using r resilient_delivered [where operation = "revoke_scan demo_redis ?p 0", OF closed rev]
    by (auto simp: jwt_revoke_all_refresh_tokens_def)
  then have "round_trip (redeem_command demo_redis ''tok'') ?c2 = (Inr [''INVALID''], ?c2\<lparr>net := []\<rparr>)"
    by (simp add: round_trip_def redeem_command_def redeem_script_def demo_conn_def demo_redis_def)
  then obtain res gc3 where res: "jwt_redeem_refresh_token rfc_uuid demo_redis demo_service ''tok'' (demo_gen, ?c2) = (Inr res, gc3)"
    using resilient_delivered [where operation = "round_trip (redeem_command demo_redis ''tok'')", OF closed]
    by (simp add: jwt_redeem_refresh_token_def)
  from revoke_all_revokes [OF rfc_uuid_laws demo_redis_laws r live db res] res show ?thesis
    by (intro exI [of _ ?c2] exI [of _ res]) simp
qed

end
