(* ===== verification/Argon2Hasher.thy ===== *)
theory Argon2Hasher
  imports Domain
begin

section \<open>The Argon2id password hasher and its PHC strings\<close>

text \<open>
  \<^verbatim>\<open>internal/infrastructure/security/argon2_hasher.go\<close>, with what it uses of the standard
  library: unpadded base64, \<^verbatim>\<open>fmt.Sprintf\<close> of decimals, \<^verbatim>\<open>strings.Split\<close>, \<^verbatim>\<open>fmt.Sscanf\<close> of
  the format \<^verbatim>\<open>m=%d,t=%d,p=%d\<close> into two uint32 and a uint8, and \<^verbatim>\<open>ConstantTimeCompare\<close>. The
  key derivation \<^verbatim>\<open>argon2.IDKey\<close> and \<^verbatim>\<open>argon2.Version\<close> of golang.org/x/crypto are the
  parameter \<open>argon2_lib\<close>; \<open>argon2_laws\<close> says what is documented of it: it yields a key of
  the requested length when the iteration count and the parallelism are positive (and
  panics otherwise).
\<close>

record argon2_lib =
  argon2_Version :: nat
  argon2_IDKey :: "string \<Rightarrow> string \<Rightarrow> nat \<Rightarrow> nat \<Rightarrow> nat \<Rightarrow> nat \<Rightarrow> error + string"

definition argon2_laws :: "argon2_lib \<Rightarrow> bool" where
  "argon2_laws lib \<longleftrightarrow> (\<forall>pw salt t m p len. 0 < t \<longrightarrow> 0 < p \<longrightarrow>
     (\<exists>k. argon2_IDKey lib pw salt t m p len = Inr k \<and> length k = len))"

subsection \<open>base64.RawStdEncoding\<close>

definition enc6 :: "nat \<Rightarrow> char" where
  "enc6 n = char_of (if n < 26 then n + 65 else if n < 52 then n + 71 else if n < 62 then n - 4
     else if n = 62 then 43 else 47)"

definition dec6 :: "char \<Rightarrow> nat option" where
  "dec6 c = (let n = of_char c :: nat in
     if 65 \<le> n \<and> n \<le> 90 then Some (n - 65) else if 97 \<le> n \<and> n \<le> 122 then Some (n - 71)
     else if 48 \<le> n \<and> n \<le> 57 then Some (n + 4) else if n = 43 then Some 62
     else if n = 47 then Some 63 else None)"

fun sextets :: "nat list \<Rightarrow> nat list" where
  "sextets (a # b # c # bs) =
     [a div 4, a mod 4 * 16 + b div 16, b mod 16 * 4 + c div 64, c mod 64] @ sextets bs"
| "sextets [a, b] = [a div 4, a mod 4 * 16 + b div 16, b mod 16 * 4]"
| "sextets [a] = [a div 4, a mod 4 * 16]"
| "sextets [] = []"

fun unsextets :: "nat list \<Rightarrow> nat list option" where
  "unsextets (w # x # y # z # s) =
     map_option (\<lambda>bs. [w * 4 + x div 16, x mod 16 * 16 + y div 4, y mod 4 * 64 + z] @ bs) (unsextets s)"
| "unsextets [w, x, y] = Some [w * 4 + x div 16, x mod 16 * 16 + y div 4]"
| "unsextets [w, x] = Some [w * 4 + x div 16]"
| "unsextets [w] = None"
| "unsextets [] = Some []"

definition base64_encode :: "string \<Rightarrow> string" where
  "base64_encode s = map enc6 (sextets (bytes s))"

text \<open>The decoder skips carriage returns and line feeds and refuses any other foreign byte.\<close>

definition base64_decode :: "string \<Rightarrow> string option" where
  "base64_decode s =
    (case those (map dec6 (filter (\<lambda>c. c \<noteq> CHR 0x0A \<and> c \<noteq> CHR 0x0D) s)) of
       None \<Rightarrow> None
     | Some ns \<Rightarrow> map_option unbytes (unsextets ns))"

subsection \<open>Decimal numbers\<close>

fun show_nat :: "nat \<Rightarrow> string" where
  "show_nat n = (if n < 10 then [char_of (48 + n)] else show_nat (n div 10) @ [char_of (48 + n mod 10)])"

declare show_nat.simps [simp del]

definition digit_val :: "char \<Rightarrow> nat option" where
  "digit_val c = (let n = of_char c :: nat in if 48 \<le> n \<and> n \<le> 57 then Some (n - 48) else None)"

fun scan_digits :: "nat \<Rightarrow> string \<Rightarrow> nat \<times> string" where
  "scan_digits acc [] = (acc, [])"
| "scan_digits acc (c # cs) =
    (case digit_val c of None \<Rightarrow> (acc, c # cs) | Some d \<Rightarrow> scan_digits (acc * 10 + d) cs)"

subsection \<open>Sscanf\<close>

text \<open>
  \<^verbatim>\<open>%d\<close> into an unsigned of \<open>w\<close> bits skips white space other than a line feed, needs a digit,
  reads all the digits and fails when the number does not fit.
\<close>

definition skip_space :: "string \<Rightarrow> string" where
  "skip_space s = unbytes (strip_front (map encode_rune (filter (\<lambda>r. r \<noteq> 10) space_runes)) (bytes s))"

definition scan_uint :: "nat \<Rightarrow> string \<Rightarrow> (nat \<times> string) option" where
  "scan_uint w s =
    (case skip_space s of
       [] \<Rightarrow> None
     | c # cs \<Rightarrow>
        (case digit_val c of
           None \<Rightarrow> None
         | Some _ \<Rightarrow> (let (n, rest) = scan_digits 0 (c # cs) in if n < 2 ^ w then Some (n, rest) else None)))"

definition scan_literal :: "string \<Rightarrow> string \<Rightarrow> string option" where
  "scan_literal l s = (if starts_with l s then Some (drop (length l) s) else None)"

definition scan_params :: "string \<Rightarrow> (nat \<times> nat \<times> nat) option" where
  "scan_params s =
    (case scan_literal ''m='' s of None \<Rightarrow> None | Some s \<Rightarrow>
    (case scan_uint 32 s of None \<Rightarrow> None | Some (memory, s) \<Rightarrow>
    (case scan_literal '',t='' s of None \<Rightarrow> None | Some s \<Rightarrow>
    (case scan_uint 32 s of None \<Rightarrow> None | Some (iterations, s) \<Rightarrow>
    (case scan_literal '',p='' s of None \<Rightarrow> None | Some s \<Rightarrow>
    (case scan_uint 8 s of None \<Rightarrow> None | Some (parallelism, s) \<Rightarrow>
       Some (memory, iterations, parallelism)))))))"

subsection \<open>Hash and Verify\<close>

definition argon2_memory :: nat where "argon2_memory = 64 * 1024"
definition argon2_iterations :: nat where "argon2_iterations = 3"
definition argon2_parallelism :: nat where "argon2_parallelism = 4"
definition argon2_key_len :: nat where "argon2_key_len = 32"

definition phc_string :: "nat \<Rightarrow> nat \<Rightarrow> nat \<Rightarrow> nat \<Rightarrow> string \<Rightarrow> string \<Rightarrow> string" where
  "phc_string version m t p salt key =
     ''$argon2id$v='' @ show_nat version @ ''$m='' @ show_nat m @ '',t='' @ show_nat t @ '',p='' @
     show_nat p @ ''$'' @ base64_encode salt @ ''$'' @ base64_encode key"

definition argon2_hash :: "argon2_lib \<Rightarrow> string \<Rightarrow> gen \<Rightarrow> (error + password_hash) \<times> gen" where
  "argon2_hash lib password g =
    (case rand_read g of
       (None, g) \<Rightarrow> (Inl ErrInternal, g)
     | (Some salt, g) \<Rightarrow>
        (case argon2_IDKey lib password salt argon2_iterations argon2_memory argon2_parallelism argon2_key_len of
           Inl e \<Rightarrow> (Inl e, g)
         | Inr key \<Rightarrow> (Inr (PasswordHash (phc_string (argon2_Version lib) argon2_memory
               argon2_iterations argon2_parallelism salt key)), g)))"

definition argon2_verify :: "argon2_lib \<Rightarrow> string \<Rightarrow> password_hash \<Rightarrow> error + bool" where
  "argon2_verify lib password hash =
    (let parts = split_on CHR ''$'' (phc hash) in
     if length parts \<noteq> 6 then Inr False
     else case scan_params (parts ! 3) of
       None \<Rightarrow> Inr False
     | Some (memory, iterations, parallelism) \<Rightarrow>
        (case base64_decode (parts ! 4) of
           None \<Rightarrow> Inr False
         | Some salt \<Rightarrow>
            (case base64_decode (parts ! 5) of
               None \<Rightarrow> Inr False
             | Some stored_key \<Rightarrow>
                (case argon2_IDKey lib password salt iterations memory parallelism
                        (length stored_key mod 2 ^ 32) of
                   Inl e \<Rightarrow> Inl e
                 | Inr candidate \<Rightarrow> Inr (candidate = stored_key)))))"

subsection \<open>base64 round trip\<close>

lemma dec6_enc6: "n < 64 \<Longrightarrow> dec6 (enc6 n) = Some n"
  by (auto simp: dec6_def enc6_def Let_def take_bit_eq_mod)

lemma enc6_not:
  assumes "n < 64"
  shows "enc6 n \<noteq> CHR 0x0A" "enc6 n \<noteq> CHR 0x0D" "enc6 n \<noteq> CHR ''$''"
  using dec6_enc6 [OF assms] by (auto simp: dec6_def Let_def)

lemma sextets_lt: "\<forall>b \<in> set bs. b < 256 \<Longrightarrow> n \<in> set (sextets bs) \<Longrightarrow> n < 64"
  by (induction bs rule: sextets.induct) auto

lemma split6: "b < 256 \<Longrightarrow> b div 4 * 4 + (b mod 4 * 16 + x) div 16 = b"
  and split4: "b < 256 \<Longrightarrow> (a mod 4 * 16 + b div 16) mod 16 * 16 + (b mod 16 * 4 + y) div 4 = b"
  and split2: "c < 256 \<Longrightarrow> (b mod 16 * 4 + c div 64) mod 4 * 64 + c mod 64 = c"
  if "x < 16" "y < 4" for a b c x y :: nat
proof -
  show "b < 256 \<Longrightarrow> b div 4 * 4 + (b mod 4 * 16 + x) div 16 = b" using that by simp
  assume "b < 256"
  then have "(a mod 4 * 16 + b div 16) mod 16 = b div 16"
    using mod_mult_self3 [of "a mod 4" 16 "b div 16"] by simp
  moreover have "(b mod 16 * 4 + y) div 4 = b mod 16" using that by simp
  ultimately show "(a mod 4 * 16 + b div 16) mod 16 * 16 + (b mod 16 * 4 + y) div 4 = b" by simp
next
  assume "c < 256"
  then have "(b mod 16 * 4 + c div 64) mod 4 = c div 64"
    using mod_mult_self3 [of "b mod 16" 4 "c div 64"] by simp
  then show "(b mod 16 * 4 + c div 64) mod 4 * 64 + c mod 64 = c" by simp
qed

lemma div16_div16: "b < 256 \<Longrightarrow> b div 16 div 16 = 0" for b :: nat
  by (simp flip: div_mult2_eq)

lemma unsextets_sextets: "\<forall>b \<in> set bs. b < 256 \<Longrightarrow> unsextets (sextets bs) = Some bs"
proof (induction bs rule: sextets.induct)
  case (1 a b c bs)
  then show ?case using split6 [of "b div 16" 0 a] split4 [of 0 "c div 64" b a] split2 [of 0 0 c b]
    by (simp add: div16_div16)
next
  case (2 a b)
  then show ?case using split6 [of "b div 16" 0 a] split4 [of 0 0 b a] by (simp add: div16_div16)
next
  case (3 a)
  then show ?case using split6 [of 0 0 a] by simp
qed simp

lemma bytes_lt: "b \<in> set (bytes s) \<Longrightarrow> b < 256"
  by (auto simp: bytes_def)

lemma those_map_Some: "(\<And>x. x \<in> set xs \<Longrightarrow> f (g x) = Some x) \<Longrightarrow> those (map f (map g xs)) = Some xs"
  by (induction xs) auto

lemma base64_roundtrip: "base64_decode (base64_encode s) = Some s"
proof -
  let ?ns = "sextets (bytes s)"
  have lt: "n < 64" if "n \<in> set ?ns" for n
    using sextets_lt [of "bytes s" n] bytes_lt that by blast
  then have "filter (\<lambda>c. c \<noteq> CHR 0x0A \<and> c \<noteq> CHR 0x0D) (map enc6 ?ns) = map enc6 ?ns"
    using enc6_not by (auto simp: filter_id_conv)
  moreover have "those (map dec6 (map enc6 ?ns)) = Some ?ns"
    using those_map_Some [of ?ns dec6 enc6] dec6_enc6 lt by blast
  moreover have "unsextets ?ns = Some (bytes s)" using unsextets_sextets bytes_lt by blast
  ultimately show ?thesis by (simp add: base64_decode_def base64_encode_def)
qed

lemma base64_no_dollar: "CHR ''$'' \<notin> set (base64_encode s)"
  using enc6_not(3) sextets_lt [of "bytes s"] bytes_lt by (fastforce simp: base64_encode_def)

subsection \<open>The PHC string parses back\<close>

lemma show_nat_no_dollar: "CHR ''$'' \<notin> set (show_nat n)"
proof (induction n rule: show_nat.induct)
  case (1 n)
  have *: "CHR ''$'' \<noteq> char_of (48 + d)" if "d < 10" for d :: nat
  proof
    assume "CHR ''$'' = char_of (48 + d)"
    then have "of_char CHR ''$'' = (of_char (char_of (48 + d)) :: nat)" by (rule arg_cong)
    then show False using that by simp
  qed
  show ?case
  proof (cases "n < 10")
    case True
    then show ?thesis using * [of n] by (subst show_nat.simps) (simp del: char_of_eq_iff)
  next
    case False
    then show ?thesis using 1 * [of "n mod 10"] by (subst show_nat.simps) (simp del: char_of_eq_iff)
  qed
qed

lemma param_field: "''m='' @ show_nat argon2_memory @ '',t='' @ show_nat argon2_iterations @ '',p='' @
    show_nat argon2_parallelism = ''m=65536,t=3,p=4''"
  by (simp add: argon2_memory_def argon2_iterations_def argon2_parallelism_def show_nat.simps
      char_of_eq_iff take_bit_eq_mod)

lemma scan_param_field: "scan_params ''m=65536,t=3,p=4'' = Some (65536, 3, 4)"
  by (simp add: scan_params_def scan_literal_def scan_uint_def skip_space_def digit_val_def
      go_string_eval starts_with_def)

lemma phc_string_fields:
  "split_on CHR ''$'' (phc_string v argon2_memory argon2_iterations argon2_parallelism salt key) =
    [[], ''argon2id'', ''v='' @ show_nat v, ''m=65536,t=3,p=4'', base64_encode salt, base64_encode key]"
proof -
  have phc: "phc_string v argon2_memory argon2_iterations argon2_parallelism salt key =
    [] @ CHR ''$'' # ''argon2id'' @ CHR ''$'' # (''v='' @ show_nat v) @ CHR ''$'' # ''m=65536,t=3,p=4'' @
    CHR ''$'' # base64_encode salt @ CHR ''$'' # base64_encode key"
    using param_field by (simp add: phc_string_def)
  show ?thesis
    unfolding phc using show_nat_no_dollar [of v] base64_no_dollar
    by (subst split_on_sep, simp)+ (simp add: split_on_no_sep)
qed

definition argon2_key :: "argon2_lib \<Rightarrow> string \<Rightarrow> string \<Rightarrow> string" where
  "argon2_key lib salt pw =
     (case argon2_IDKey lib pw salt argon2_iterations argon2_memory argon2_parallelism argon2_key_len of
        Inr k \<Rightarrow> k | Inl _ \<Rightarrow> [])"

lemma argon2_key:
  assumes "argon2_laws lib"
  shows "argon2_IDKey lib pw salt argon2_iterations argon2_memory argon2_parallelism argon2_key_len
      = Inr (argon2_key lib salt pw)" and "length (argon2_key lib salt pw) = argon2_key_len"
proof -
  have "0 < argon2_iterations" "0 < argon2_parallelism"
    by (simp_all add: argon2_iterations_def argon2_parallelism_def)
  then obtain k where "argon2_IDKey lib pw salt argon2_iterations argon2_memory argon2_parallelism
      argon2_key_len = Inr k" "length k = argon2_key_len"
    using assms unfolding argon2_laws_def by blast
  then show "argon2_IDKey lib pw salt argon2_iterations argon2_memory argon2_parallelism argon2_key_len
      = Inr (argon2_key lib salt pw)" "length (argon2_key lib salt pw) = argon2_key_len"
    by (simp_all add: argon2_key_def)
qed

lemma verify_phc:
  assumes "argon2_laws lib"
  shows "argon2_verify lib pw' (PasswordHash (phc_string v argon2_memory argon2_iterations
      argon2_parallelism salt (argon2_key lib salt pw))) =
    Inr (argon2_key lib salt pw' = argon2_key lib salt pw)"
proof -
  have c: "argon2_memory = 65536" "argon2_iterations = 3" "argon2_parallelism = 4" "argon2_key_len = 32"
    by (simp_all add: argon2_memory_def argon2_iterations_def argon2_parallelism_def argon2_key_len_def)
  have len: "length (argon2_key lib salt pw) mod 2 ^ 32 = 32" using argon2_key(2) [OF assms] c by simp
  have key: "argon2_IDKey lib pw' salt 3 65536 4 32 = Inr (argon2_key lib salt pw')"
    using argon2_key(1) [OF assms, of pw' salt] unfolding c .
  show ?thesis
    unfolding argon2_verify_def password_hash.sel phc_string_fields
    using len key by (simp add: scan_param_field base64_roundtrip)
qed

lemma argon2_hash_Inr:
  assumes "argon2_laws lib" "argon2_hash lib pw g = (Inr h, g')"
  obtains salt where "rand_read g = (Some salt, g')"
    "h = PasswordHash (phc_string (argon2_Version lib) argon2_memory argon2_iterations
       argon2_parallelism salt (argon2_key lib salt pw))"
  using assms(2) argon2_key(1) [OF assms(1)]
  by (auto simp: argon2_hash_def split: prod.splits option.splits)

subsection \<open>Properties\<close>

text \<open>\<^bold>\<open>C21\<close>. A stored hash verifies its password and nothing with another key: the PHC string
  that \<open>argon2_hash\<close> prints parses back (six fields, the three parameters, the salt and the key
  of the unpadded base64), so verification succeeds without error and accepts exactly the
  passwords whose derived key under the stored salt equals the original's; in particular the
  password itself.\<close>

theorem argon2_verify_hash:
  assumes "argon2_laws lib" and "argon2_hash lib pw g = (Inr h, g')"
  shows "\<exists>salt. rand_read g = (Some salt, g') \<and> argon2_verify lib pw h = Inr True \<and>
    (\<forall>pw'. argon2_verify lib pw' h = Inr (argon2_key lib salt pw' = argon2_key lib salt pw))"
  using argon2_hash_Inr [OF assms] verify_phc [OF assms(1)] by metis

definition demo_argon2 :: argon2_lib where
  "demo_argon2 = \<lparr>argon2_Version = 19,
     argon2_IDKey = (\<lambda>pw salt t m p len. if 0 < t \<and> 0 < p
        then Inr (take len (pw @ replicate len CHR ''-'')) else Inl RuntimePanic)\<rparr>"

lemma demo_argon2_laws: "argon2_laws demo_argon2"
  by (simp add: argon2_laws_def demo_argon2_def min_def)

lemma argon2_verify_hash_witness:
  "\<exists>h. argon2_verify demo_argon2 ''correct horse'' h = Inr True \<and>
       argon2_verify demo_argon2 ''wrong horse'' h = Inr False"
proof -
  obtain h g' where h: "argon2_hash demo_argon2 ''correct horse'' demo_gen = (Inr h, g')"
    by (simp add: argon2_hash_def rand_read_def demo_gen_def demo_argon2_def argon2_iterations_def
        argon2_parallelism_def)
  obtain salt where "argon2_verify demo_argon2 ''correct horse'' h = Inr True"
    "argon2_verify demo_argon2 ''wrong horse'' h =
       Inr (argon2_key demo_argon2 salt ''wrong horse'' = argon2_key demo_argon2 salt ''correct horse'')"
    using argon2_verify_hash [OF demo_argon2_laws h] by blast
  then show ?thesis
    by (intro exI [of _ h])
      (simp add: argon2_key_def demo_argon2_def argon2_iterations_def argon2_parallelism_def argon2_key_len_def)
qed

text \<open>Verification reports no error: whatever string is stored as a hash, the answer is a
  yes or no, except that a well-formed hash with a zero iteration count or parallelism makes
  the key derivation panic.\<close>

theorem argon2_verify_total:
  assumes "argon2_laws lib" and "argon2_verify lib pw h = Inl e"
  shows "\<exists>m t p. length (split_on CHR ''$'' (phc h)) = 6 \<and>
    scan_params (split_on CHR ''$'' (phc h) ! 3) = Some (m, t, p) \<and> (t = 0 \<or> p = 0)"
  using assms unfolding argon2_verify_def argon2_laws_def
  by (auto simp: Let_def split: if_splits option.splits sum.splits) (metis Inl_Inr_False neq0_conv)+

lemma argon2_verify_total_witness:
  "\<exists>m t p. scan_params ''m=1,t=0,p=1'' = Some (m, t, p) \<and> (t = 0 \<or> p = 0)"
proof -
  let ?h = "PasswordHash ''$argon2id$v=19$m=1,t=0,p=1$AA$AA''"
  have "argon2_verify demo_argon2 ''x'' ?h = Inl RuntimePanic"
    by (simp add: argon2_verify_def scan_params_def scan_literal_def scan_uint_def skip_space_def
        digit_val_def go_string_eval starts_with_def base64_decode_def dec6_def demo_argon2_def)
  from argon2_verify_total [OF demo_argon2_laws this] show ?thesis by simp
qed

end
