(* ===== verification/AuditLog.thy ===== *)
theory AuditLog
  imports Ports UuidText
begin

section \<open>The audit logs\<close>

text \<open>
  \<^verbatim>\<open>internal/infrastructure/audit\<close>: the log-only adapter and the PostgreSQL adapter with the
  schema of \<^verbatim>\<open>migrations/0002_create_audit_log.sql\<close>. The zap logger is the list of the entries
  written to it; the fields of an entry are the ones the code passes. The database is the table
  \<^verbatim>\<open>audit_log\<close> with its primary key, reached through the transport \<open>audit_net\<close>; an insert that
  fails is logged and never reported to the caller, as \<^verbatim>\<open>AuditPort\<close> demands.
\<close>

datatype log_entry =
    AuditRecorded string audit_event_type "uuid option" "uuid option" string time
  | AuditFailed string string

definition memory_audit_record :: "uuid_lib \<Rightarrow> log_entry list audit_port" where
  "memory_audit_record U ev log =
     log @ [AuditRecorded (uuid_String U (ev_id ev)) (ev_type ev) (ev_actor ev) (ev_target ev)
       (ev_detail ev) (ev_occurred_at ev)]"

record audit_db =
  audit_rows :: "audit_event list"
  audit_net :: "fate list"
  audit_logger :: "log_entry list"

definition sql_insert_audit ::
  "(time \<Rightarrow> time) \<Rightarrow> (string \<Rightarrow> bool) \<Rightarrow> audit_event \<Rightarrow> audit_event list \<Rightarrow> (string + unit) \<times> audit_event list" where
  "sql_insert_audit tz text_ok ev rows =
    (if \<not> text_ok (ev_type ev) \<or> \<not> text_ok (ev_detail ev) then (Inl ''invalid byte sequence'', rows)
     else if list_ex (\<lambda>r. ev_id r = ev_id ev) rows
     then (Inl ''duplicate key value violates unique constraint'', rows)
     else (Inr (), rows @ [ev\<lparr>ev_occurred_at := tz (ev_occurred_at ev)\<rparr>]))"

definition audit_exec ::
  "(audit_event list \<Rightarrow> (string + unit) \<times> audit_event list) \<Rightarrow> audit_db \<Rightarrow> (string + unit) \<times> audit_db" where
  "audit_exec stmt a =
    (case audit_net a of
       [] \<Rightarrow> (Inl ''context canceled'', a)
     | fate # rest \<Rightarrow>
        (let a = a\<lparr>audit_net := rest\<rparr> in
         case fate of
           Delivered \<Rightarrow> (case stmt (audit_rows a) of (x, rows) \<Rightarrow> (x, a\<lparr>audit_rows := rows\<rparr>))
         | Unsent msg \<Rightarrow> (Inl msg, a)
         | ReplyLost msg \<Rightarrow> (Inl msg, a\<lparr>audit_rows := snd (stmt (audit_rows a))\<rparr>)))"

definition postgres_audit_record ::
  "uuid_lib \<Rightarrow> (time \<Rightarrow> time) \<Rightarrow> (string \<Rightarrow> bool) \<Rightarrow> audit_db audit_port" where
  "postgres_audit_record U tz text_ok ev a =
    (case audit_exec (sql_insert_audit tz text_ok ev) a of
       (Inr _, a) \<Rightarrow> a
     | (Inl msg, a) \<Rightarrow> a\<lparr>audit_logger := audit_logger a @ [AuditFailed msg (uuid_String U (ev_id ev))]\<rparr>)"

subsection \<open>Properties\<close>



end
