(* ===== verification/Deployment.thy ===== *)
theory Deployment
  imports Application MemoryRepository PostgresRepository JwtService Argon2Hasher AuditLog
begin

section \<open>The application on its adapters\<close>

text \<open>
  \<^verbatim>\<open>cmd/server/main.go\<close> hands the use cases an Argon2id hasher, the JWT service and one of two
  repositories with its audit log. Here the contract of \<open>Application\<close> meets the adapters: under
  the laws of the third-party libraries both deployments are instances of \<open>application\<close>, so what
  it proves of every run holds of the program's own repositories and tokens. The properties of the
  section are stated over these adapters.
\<close>

definition argon2_hasher :: "argon2_lib \<Rightarrow> password_hasher" where
  "argon2_hasher lib = \<lparr>Hash = argon2_hash lib, Verify = argon2_verify lib\<rparr>"

lemma verify_own_hash:
  assumes "argon2_laws lib" "argon2_hash lib pw g = (Inr h, g')"
  shows "argon2_verify lib pw h = Inr True"
  using argon2_hash_Inr [OF assms] verify_phc [OF assms(1)] by metis

locale deployment = token_backend J U L svc
  for J :: "('sk, 'pk) jwt_lib" and U :: uuid_lib and L :: "'db redis_lib" and svc :: "('sk, 'pk) jwt_service" +
  fixes lib :: argon2_lib and lo :: "nat \<Rightarrow> nat" and P :: pg_lib
  assumes argon2: "argon2_laws lib" and lower: "lower_laws lo"

sublocale deployment \<subseteq> pw: hasher "argon2_hasher lib"
proof (unfold_locales, goal_cases)
  case (1 pw g h g')
  then show ?case using verify_own_hash [OF argon2, of pw g h g'] by (simp add: argon2_hasher_def)
next
  case (2 pw g x g')
  then show ?case
    by (auto simp: argon2_hasher_def argon2_hash_def rand_read_def gen_later_def split: sum.splits option.splits)
qed

sublocale deployment \<subseteq> memory: application "memory_repository U" lo "mem_inv lo" mem_view
    "jwt_token_service J U L svc" "jwt_inv U L" "jwt_spent U L" "jwt_env L" "argon2_hasher lib"
  by unfold_locales

sublocale deployment \<subseteq> postgres: application "postgres_repository P lo" lo "pg_inv lo" pg_view
    "jwt_token_service J U L svc" "jwt_inv U L" "jwt_spent U L" "jwt_env L" "argon2_hasher lib"
  by unfold_locales

interpretation demo: deployment demo_jwt rfc_uuid demo_redis demo_service demo_argon2 "\<lambda>r. r" demo_pg_lib
  by unfold_locales (rule demo_argon2_laws, rule lower_laws_id)

context deployment
begin

lemma memory_application:
  "application (memory_repository U) lo (mem_inv lo) mem_view
    (jwt_token_service J U L svc) (jwt_inv U L) (jwt_spent U L) (jwt_env L) (argon2_hasher lib)"
  by (rule memory.application_axioms)

lemma postgres_application:
  "application (postgres_repository P lo) lo (pg_inv lo) pg_view
    (jwt_token_service J U L svc) (jwt_inv U L) (jwt_spent U L) (jwt_env L) (argon2_hasher lib)"
  by (rule postgres.application_axioms)

end

lemma deploymentI:
  "uuid_laws U \<Longrightarrow> redis_laws L \<Longrightarrow> argon2_laws lib \<Longrightarrow> lower_laws lo \<Longrightarrow> deployment U L lib lo"
  by (simp add: deployment_def token_backend_def deployment_axioms_def)

subsection \<open>Over the in-memory repository\<close>

abbreviation memory_world ::
  "uuid_lib \<Rightarrow> 'db redis_lib \<Rightarrow> (nat \<Rightarrow> nat) \<Rightarrow> (memory_store, 'db redis_conn, 'a) world \<Rightarrow> bool" where
  "memory_world U L lo w \<equiv> app_inv (mem_inv lo) mem_view (jwt_inv U L) w"

abbreviation postgres_world ::
  "uuid_lib \<Rightarrow> 'db redis_lib \<Rightarrow> (nat \<Rightarrow> nat) \<Rightarrow> (pg_state, 'db redis_conn, 'a) world \<Rightarrow> bool" where
  "postgres_world U L lo w \<equiv> app_inv (pg_inv lo) pg_view (jwt_inv U L) w"

text \<open>In memory the owner's place is refused exactly when it is taken.\<close>

lemma mem_owner_refused:
  assumes "owner_refused (mem_inv lo) mem_view (memory_repository U) m"
  shows "has_owner m"
proof -
  obtain h r a S' where "mem_inv lo (h, r)" "mem_view (h, r) = m"
    "mem_save_first_owner a (h, r) = (Inr False, S')"
    using assms by (auto simp: owner_refused_def memory_repository_def)
  then show ?thesis using mem_has_owner [of lo h r] by (auto simp: mem_save_first_owner_def split: if_splits)
qed

text \<open>A lookup by email in memory fails for one reason only.\<close>

lemma mem_find_by_email_cases:
  assumes "on_repo (FindByEmail (memory_repository U) em) w = (x, w')"
  shows "w' = w \<and> (\<exists>a. x = Inr a) \<or> w' = w \<and> x = Inl ErrUserNotFound"
  using assms by (auto simp: on_repo_eq memory_repository_def mem_find_by_email_def split: option.splits)

lemma memory_laws:
  assumes "uuid_laws U" "redis_laws L" "argon2_laws lib" "lower_laws lo"
  shows "application (memory_repository U) lo (mem_inv lo) mem_view
    (jwt_token_service J U L svc) (jwt_inv U L) (jwt_spent U L) (jwt_env L) (argon2_hasher lib)"
  by (rule deployment.memory_application [OF deploymentI [OF assms]])

lemma postgres_laws:
  assumes "uuid_laws U" "redis_laws L" "argon2_laws lib" "lower_laws lo"
  shows "application (postgres_repository P lo) lo (pg_inv lo) pg_view
    (jwt_token_service J U L svc) (jwt_inv U L) (jwt_spent U L) (jwt_env L) (argon2_hasher lib)"
  by (rule deployment.postgres_application [OF deploymentI [OF assms]])

lemma registered_account:
  fixes L :: "'db redis_lib" and w w' :: "(memory_store, 'db redis_conn, 'a) world"
  assumes "uuid_laws U" and "redis_laws L" and "argon2_laws lib" and "lower_laws lo"
    and "memory_world U L lo w" and "distinct_draws (sources w')"
    and "register_execute lo (memory_repository U) (argon2_hasher lib) (jwt_token_service J U L svc) A inp w = (Inr out, w')"
  shows "\<exists>u v. new_email lo (reg_email inp) = Inr (usr_email u) \<and> usr_name u = trim_space (reg_name inp) \<and>
    usr_is_active u \<and> argon2_verify lib (reg_password inp) (usr_password_hash u) = Inr True \<and>
    usr_role u = (if has_owner (mem_view (objects w, repo w)) then RoleUser else RoleOwner) \<and>
    auth_user out = user_summary_of u \<and>
    mem_view (objects w, repo w) (user_key u) = None \<and>
    (\<forall>i v. mem_view (objects w, repo w) i = Some v \<longrightarrow> usr_email v \<noteq> usr_email u) \<and>
    content v = content u \<and>
    mem_view (objects w', repo w') = (mem_view (objects w, repo w))(user_key u \<mapsto> v) \<and>
    memory_world U L lo w'"
proof -
  note step = application.register_step [OF memory_laws [OF assms(1-4)] assms(4,5,7)]
  then obtain u pair where u: "out = auth_output_of pair u" "mem_view (objects w, repo w) (user_key u) = None"
      "new_email lo (reg_email inp) = Inr (usr_email u)"
      "\<forall>i v. mem_view (objects w, repo w) i = Some v \<longrightarrow> usr_email v \<noteq> usr_email u"
      "written (mem_view (objects w, repo w)) u (mem_view (objects w', repo w'))" "usr_is_active u"
      "usr_name u = trim_space (reg_name inp)"
      "Verify (argon2_hasher lib) (reg_password inp) (usr_password_hash u) = Inr True"
      "usr_role u = RoleOwner \<and> \<not> has_owner (mem_view (objects w, repo w)) \<or>
       usr_role u = RoleUser \<and> owner_refused (mem_inv lo) mem_view (memory_repository U) (mem_view (objects w, repo w))"
    using assms(6) by (simp only: sum.case) blast
  moreover have "memory_world U L lo w'" using step evolves_inv by blast
  moreover obtain v where "content v = content u"
      "mem_view (objects w', repo w') = (mem_view (objects w, repo w))(user_key u \<mapsto> v)"
    using u(5) by (auto simp: written_def)
  ultimately show ?thesis
    using mem_owner_refused [of lo U "mem_view (objects w, repo w)"]
    by (intro exI [of _ u] exI [of _ v]) (auto simp: auth_output_of_def argon2_hasher_def)
qed

subsection \<open>A small deployment, for the witnesses\<close>

abbreviation demo_R :: "memory_store user_repository" where "demo_R \<equiv> memory_repository rfc_uuid"
abbreviation demo_H :: password_hasher where "demo_H \<equiv> argon2_hasher demo_argon2"
abbreviation demo_T :: "demo_db redis_conn token_service" where
  "demo_T \<equiv> jwt_token_service demo_jwt rfc_uuid demo_redis demo_service"
abbreviation demo_A :: "log_entry list audit_port" where "demo_A \<equiv> memory_audit_record rfc_uuid"

type_synonym demo_state = "(memory_store, demo_db redis_conn, log_entry list) world"

text \<open>A store with the given users, a database that answers \<open>n\<close> commands and knows no token.\<close>

definition demo_world :: "user list \<Rightarrow> nat \<Rightarrow> demo_state" where
  "demo_world us n = \<lparr>objects = us, repo = map (\<lambda>a. (user_key (us ! a), a)) [0..<length us],
     tokens = demo_conn (replicate n (0, Delivered)) [], audit = [],
     sources = demo_gen\<lparr>uuid_pos := 100\<rparr>\<rparr>"

lemma demo_draws:
  assumes "uuid_source g = of_nat" "uuid_pos g \<le> 1000"
  shows "distinct_draws g"
proof -
  have "unat (of_nat n :: uuid) = n" if "n < 1000" for n
    using that by (simp add: unsigned_of_nat take_bit_nat_eq_self)
  then show ?thesis
    using assms by (auto simp: distinct_draws_def distinct_map intro!: inj_on_inverseI [of _ unat])
qed

lemma demo_world_inv:
  assumes "distinct (map user_key us)" "\<forall>u \<in> set us. canonical_email (\<lambda>r. r) (usr_email u) \<and> unat (user_key u) < 100"
  shows "memory_world rfc_uuid demo_redis (\<lambda>r. r) (demo_world us n)"
proof -
  let ?m = "map (\<lambda>a. (user_key (us ! a), a)) [0..<length us]"
  have m: "map fst ?m = map user_key us" by (rule nth_equalityI) simp_all
  have "mem_inv (\<lambda>r. r) (us, ?m)"
    unfolding mem_inv_def snd_conv fst_conv m using assms by auto
  moreover have "dom (mem_view (us, ?m)) = user_key ` set us"
    unfolding dom_mem_view using arg_cong [OF m, of set] by (simp only: set_map)
  moreover have "jwt_inv rfc_uuid demo_redis (g, demo_conn n [])" for g n
    by (simp add: jwt_inv_def alive_def demo_redis_def demo_conn_def)
  moreover have "\<exists>n < 100. user_key u = of_nat n" if "u \<in> set us" for u
    using assms(2) that by (intro exI [of _ "unat (user_key u)"]) simp
  ultimately show ?thesis
    by (auto simp: demo_world_def app_inv_def ids_issued_def demo_gen_def)
qed

definition demo_input :: register_input where
  "demo_input = \<lparr>reg_email = ''bob@e.com'', reg_password = ''correct horse'', reg_name = '' Bob ''\<rparr>"

lemma demo_email: "new_email (\<lambda>r. r) ''bob@e.com'' = Inr (Email ''bob@e.com'')"
  using demo_email_canonical by (simp add: canonical_email_def)

lemma demo_pair:
  assumes "cb_state (redis_breaker c) = StateClosed" "net c = (t, Delivered) # rest"
  obtains p c' where "GeneratePair demo_T uid r (g, c) = (Inr p, g\<lparr>clock_pos := Suc (clock_pos g), uuid_pos := Suc (uuid_pos g)\<rparr>, c')"
    "net c' = rest" "redis_breaker c' = record_success (redis_breaker c)"
  using assms
  by (simp add: jwt_token_service_def jwt_generate_pair_def time_now_def uuid_new_def demo_jwt_def
      resilient_delivered round_trip_def store_refresh_def Let_def)

lemma demo_check:
  "register_check (\<lambda>r. r) demo_R demo_input (demo_world [] n) = (Inr (Email ''bob@e.com''), demo_world [] n)"
  by (simp add: register_check_def user_by_email_def demo_input_def demo_email validate_password_def min_password_length_def
      max_password_length_def on_repo_def memory_repository_def mem_find_by_email_def demo_world_def)

lemma demo_hash:
  "\<exists>h. \<forall>g. rand_source g = (\<lambda>_. Some (replicate 16 CHR ''s'')) \<longrightarrow>
     Hash demo_H pw g = (Inr h, g\<lparr>rand_pos := Suc (rand_pos g)\<rparr>)"
  by (simp add: argon2_hasher_def argon2_hash_def rand_read_def demo_argon2_def
      argon2_iterations_def argon2_parallelism_def)

lemma demo_store:
  obtains a w where "register_store demo_R demo_H demo_input (Email ''bob@e.com'') (demo_world [] n) = (Inr a, w)"
    "uuid_source (sources w) = of_nat" "uuid_pos (sources w) = 101"
    "tokens w = demo_conn (replicate n (0, Delivered)) []"
proof -
  obtain h where h: "\<And>g. rand_source g = (\<lambda>_. Some (replicate 16 CHR ''s'')) \<Longrightarrow>
     Hash demo_H ''correct horse'' g = (Inr h, g\<lparr>rand_pos := Suc (rand_pos g)\<rparr>)" using demo_hash by metis
  have nm: "validate_name '' Bob '' = Inr ()" by (simp add: validate_name_def Let_def go_string_eval)
  have "\<exists>a w. register_store demo_R demo_H demo_input (Email ''bob@e.com'') (demo_world [] n) = (Inr a, w) \<and>
      uuid_source (sources w) = of_nat \<and> uuid_pos (sources w) = 101 \<and>
      tokens w = demo_conn (replicate n (0, Delivered)) []"
    by (simp add: register_store_def demo_input_def demo_world_def on_gen_def h new_user_def nm
        time_now_def new_user_id_def uuid_new_def alloc_user_def alloc_def on_repo_def
        memory_repository_def mem_save_first_owner_def demo_gen_def)
  then show thesis using that by blast
qed

lemma demo_register:
  obtains out w where "register_execute (\<lambda>r. r) demo_R demo_H demo_T demo_A demo_input (demo_world [] (Suc n)) = (Inr out, w)"
    "distinct_draws (sources w)"
proof -
  obtain a w where st: "register_store demo_R demo_H demo_input (Email ''bob@e.com'') (demo_world [] (Suc n)) = (Inr a, w)"
    "uuid_source (sources w) = of_nat" "uuid_pos (sources w) = 101"
    "tokens w = demo_conn ((0, Delivered) # replicate n (0, Delivered)) []"
    using demo_store [of "Suc n"] by (metis replicate_Suc)
  obtain p c where p: "GeneratePair demo_T (user_key (user_at a w)) (usr_role (user_at a w)) (sources w, tokens w) =
      (Inr p, (sources w)\<lparr>clock_pos := Suc (clock_pos (sources w)), uuid_pos := 102\<rparr>, c)"
    by (rule demo_pair [of "tokens w" 0 "replicate n (0, Delivered)" "user_key (user_at a w)"
        "usr_role (user_at a w)" "sources w"]) (simp_all add: st demo_conn_def new_circuit_breaker_def)
  have "distinct_draws ((sources w)\<lparr>uuid_pos := 103, clock_pos := i\<rparr>)" for i
    using st by (intro demo_draws) simp_all
  then have "\<exists>out w. register_execute (\<lambda>r. r) demo_R demo_H demo_T demo_A demo_input (demo_world [] (Suc n)) =
      (Inr out, w) \<and> distinct_draws (sources w)"
    by (simp add: register_execute_def demo_check st register_finish_def on_tokens_def p [unfolded st(4)]
        Let_def record_audit_def on_gen_def new_audit_event_def uuid_new_def time_now_def)
  then show thesis using that by blast
qed

subsection \<open>Properties\<close>

text \<open>\<^bold>\<open>C7\<close>. Registration over the in-memory store: a successful one stores exactly one new
  account, under a fresh id, with the canonical form of the email, the trimmed name, an active
  flag and a hash the password verifies against; the email belonged to nobody before, every other
  account is untouched, and the role is owner for the first account when there is no owner yet
  and user otherwise. The answer names the account that was stored.\<close>

theorem register_stores_account:
  fixes L :: "'db redis_lib" and w w' :: "(memory_store, 'db redis_conn, 'a) world"
  assumes "uuid_laws U" and "redis_laws L" and "argon2_laws lib" and "lower_laws lo"
    and "memory_world U L lo w" and "distinct_draws (sources w')"
    and "register_execute lo (memory_repository U) (argon2_hasher lib) (jwt_token_service J U L svc) A inp w = (Inr out, w')"
  shows "\<exists>u v. new_email lo (reg_email inp) = Inr (usr_email u) \<and> usr_name u = trim_space (reg_name inp) \<and>
    usr_is_active u \<and> argon2_verify lib (reg_password inp) (usr_password_hash u) = Inr True \<and>
    usr_role u = (if has_owner (mem_view (objects w, repo w)) then RoleUser else RoleOwner) \<and>
    auth_user out = user_summary_of u \<and>
    mem_view (objects w, repo w) (user_key u) = None \<and>
    (\<forall>i v. mem_view (objects w, repo w) i = Some v \<longrightarrow> usr_email v \<noteq> usr_email u) \<and>
    content v = content u \<and>
    mem_view (objects w', repo w') = (mem_view (objects w, repo w))(user_key u \<mapsto> v) \<and>
    memory_world U L lo w'"
  by (rule registered_account [OF assms])

lemma register_stores_account_witness:
  "\<exists>out w' :: demo_state. sum_role (auth_user out) = RoleOwner \<and> has_owner (mem_view (objects w', repo w')) \<and>
     register_execute (\<lambda>r. r) demo_R demo_H demo_T demo_A demo_input (demo_world [] 1) = (Inr out, w')"
proof -
  obtain out w' where r: "register_execute (\<lambda>r. r) demo_R demo_H demo_T demo_A demo_input (demo_world [] 1) = (Inr out, w')"
    "distinct_draws (sources w')" using demo_register [of 0] by auto
  have "mem_view (objects (demo_world [] 1), repo (demo_world [] 1)) = Map.empty"
    by (simp add: demo_world_def mem_view_def fun_eq_iff)
  then have "\<not> has_owner (mem_view (objects (demo_world [] 1), repo (demo_world [] 1)))"
    by (simp add: has_owner_def)
  moreover have inv: "memory_world rfc_uuid demo_redis (\<lambda>r. r) (demo_world [] 1)"
    by (rule demo_world_inv) simp_all
  ultimately obtain u v where "usr_role u = RoleOwner" "auth_user out = user_summary_of u" "content v = content u"
      "mem_view (objects w', repo w') (user_key u) = Some v"
    using register_stores_account [OF rfc_uuid_laws demo_redis_laws demo_argon2_laws lower_laws_id inv r(2,1)]
    by auto
  then show ?thesis using r(1)
    by (intro exI [of _ out] exI [of _ w']) (auto simp: user_summary_of_def has_owner_def content_eq)
qed

end
