(* ===== verification/AccountFlows.thy ===== *)
theory AccountFlows
  imports Deployment
begin

section \<open>Accounts over sequences of requests\<close>

text \<open>
  What the program guarantees, and where it falls short, when its use cases follow one another on
  its own adapters: login after registration and after a change of password, the owner and the
  refresh tokens over whole runs, who can change a role, what the audit log says of logins and
  revocations, and the two ways in which the in-memory store ends in a state the schema of the
  database excludes.
\<close>

subsection \<open>Login of a stored account\<close>

context application
begin

lemma login_stored:
  assumes "app_inv rinv view tinv w" "new_email lo (login_email inp) = Inr (usr_email v)"
    "stored view w i = Some v" "\<forall>j u. stored view w j = Some u \<and> usr_email u = usr_email v \<longrightarrow> j = i"
    "usr_is_active v" "Verify H (login_password inp) (usr_password_hash v) = Inr True"
    "login_execute lo R H T A inp w = (x, w')"
  shows "case x of Inr out \<Rightarrow> auth_user out = user_summary_of v
    | Inl e \<Rightarrow> (\<exists>e'. fst (on_repo (FindByEmail R (usr_email v)) w) = Inl e' \<and> e' \<noteq> ErrUserNotFound) \<or>
        (\<exists>s. fst (GeneratePair T i (usr_role v) s) = Inl e)"
proof -
  obtain y w1 where f: "on_repo (FindByEmail R (usr_email v)) w = (y, w1)" by fastforce
  note s1 = find_by_email_step [OF assms(1) f]
  show ?thesis
  proof (cases y)
    case (Inl e)
    then have "e \<noteq> ErrUserNotFound" using s1 assms(3) by auto
    then show ?thesis using assms(2,7) f Inl by (auto simp: login_execute_def user_by_email_def split: if_splits)
  next
    case y: (Inr a)
    have "stored view w (user_key (user_at a w1)) = Some (user_at a w1)" "usr_email (user_at a w1) = usr_email v"
      using s1 y by auto
    then have u: "user_at a w1 = v" "user_key v = i" using assms(3,4) by force+
    obtain p w2 where g: "on_tokens (GeneratePair T i (usr_role v)) w1 = (p, w2)" by fastforce
    then have "fst (GeneratePair T i (usr_role v) (sources w1, tokens w1)) = p" by (auto simp: on_tokens_eq)
    then show ?thesis
      using assms(2,5,6,7) f y g u s1
      by (cases p) (auto simp: login_execute_def user_by_email_def Let_def auth_output_of_def simp del: split_paired_Ex)
  qed
qed

end

lemma jwt_generate_pair_errors:
  "fst (jwt_generate_pair J U L s uid r gc) = Inl e \<Longrightarrow> e = ErrInternal \<or> e = ErrServiceUnavailable"
  by (auto simp: jwt_generate_pair_def Let_def redis_failure_def split: prod.splits sum.splits if_splits)

lemma mem_find_by_email_error:
  "fst (on_repo (FindByEmail (memory_repository U) em) w) = Inl e \<Longrightarrow> e = ErrUserNotFound"
  using mem_find_by_email_cases [OF prod.collapse [symmetric]] by (metis sum.distinct(1) sum.sel(1))

lemma memory_login:
  assumes "uuid_laws U" "redis_laws L" "argon2_laws lib" "lower_laws lo" "memory_world U L lo w"
    "new_email lo (login_email inp) = Inr (usr_email v)" "mem_view (objects w, repo w) i = Some v"
    "\<forall>j u. mem_view (objects w, repo w) j = Some u \<and> usr_email u = usr_email v \<longrightarrow> j = i"
    "usr_is_active v" "argon2_verify lib (login_password inp) (usr_password_hash v) = Inr True"
    "login_execute lo (memory_repository U) (argon2_hasher lib) (jwt_token_service J U L svc) A inp w = (x, w')"
  shows "case x of Inr out \<Rightarrow> auth_user out = user_summary_of v | Inl e \<Rightarrow> e \<in> {ErrInternal, ErrServiceUnavailable}"
proof -
  have v: "Verify (argon2_hasher lib) (login_password inp) (usr_password_hash v) = Inr True"
    using assms(10) by (simp add: argon2_hasher_def)
  have gp: "GeneratePair (jwt_token_service J U L svc) = jwt_generate_pair J U L svc"
    by (simp add: jwt_token_service_def)
  show ?thesis
    using application.login_stored [OF memory_laws [OF assms(1-4)] assms(5-9) v assms(11)]
      mem_find_by_email_error [of U "usr_email v" w] jwt_generate_pair_errors [of J U L svc i "usr_role v"]
    unfolding gp by (fastforce split: sum.splits)
qed

lemma summary_content: "content u = content v \<Longrightarrow> user_summary_of u = user_summary_of v"
  by (simp add: user_summary_of_def content_eq user_key_def)

subsection \<open>The same on the database, for the witnesses\<close>

abbreviation demo_P :: "pg_state user_repository" where "demo_P \<equiv> postgres_repository demo_pg_lib (\<lambda>r. r)"

type_synonym demo_pg_world = "(pg_state, demo_db redis_conn, log_entry list) world"

definition demo_pg :: "user list \<Rightarrow> demo_pg_world" where
  "demo_pg us = \<lparr>objects = [], repo = \<lparr>users_table = map (row_of_user demo_pg_lib) us, pg_net = [Delivered, Delivered, Delivered]\<rparr>,
     tokens = demo_conn [(0, Delivered)] [], audit = [], sources = demo_gen\<lparr>uuid_pos := 100\<rparr>\<rparr>"

lemma demo_pg_inv:
  "postgres_world rfc_uuid demo_redis (\<lambda>r. r) (demo_pg [demo_user 1 ''bob@e.com'' RoleOwner 0])"
  using demo_email_canonical
  by (simp add: demo_pg_def app_inv_def pg_inv_def pg_constraints_def jwt_inv_def alive_def demo_redis_def
      demo_conn_def ids_issued_def dom_pg_view demo_user_def user_key_def row_of_user_def demo_gen_def)
    (rule exI [of _ 1], simp)

text \<open>One request whose refresh token is unknown.\<close>

lemma demo_refresh:
  "\<exists>w'. serve (\<lambda>r. r) demo_P demo_H demo_T demo_A (Refresh \<lparr>in_refresh_token = ''tok''\<rparr>) (demo_pg us) =
     (Auth (Inl ErrInvalidCredentials), w') \<and> sources w' = demo_gen\<lparr>uuid_pos := 100\<rparr>"
proof -
  have "round_trip (redeem_command demo_redis ''tok'') (demo_conn [(0, Delivered)] []) =
      (Inr [''INVALID''], demo_conn [(0, Delivered)] []\<lparr>net := []\<rparr>)"
    by (simp add: round_trip_def redeem_command_def redeem_script_def demo_redis_def demo_conn_def)
  then show ?thesis
    by (simp add: tag_def refresh_execute_def on_tokens_def jwt_token_service_def jwt_redeem_refresh_token_def
        resilient_delivered demo_pg_def demo_conn_def new_circuit_breaker_def)
qed

lemma demo_run:
  obtains w' where "app_run (\<lambda>r. r) demo_P demo_H demo_T demo_A (jwt_env demo_redis) (demo_pg us)
      [(Refresh \<lparr>in_refresh_token = ''tok''\<rparr>, Auth (Inl ErrInvalidCredentials))] w'" "distinct_draws (sources w')"
proof -
  obtain w' where "serve (\<lambda>r. r) demo_P demo_H demo_T demo_A (Refresh \<lparr>in_refresh_token = ''tok''\<rparr>) (demo_pg us) =
     (Auth (Inl ErrInvalidCredentials), w')" and s: "sources w' = demo_gen\<lparr>uuid_pos := 100\<rparr>"
    using demo_refresh by blast
  then have "app_run (\<lambda>r. r) demo_P demo_H demo_T demo_A (jwt_env demo_redis) (demo_pg us)
      [(Refresh \<lparr>in_refresh_token = ''tok''\<rparr>, Auth (Inl ErrInvalidCredentials))] w'"
    using app_run.serve app_run.start by blast
  moreover have "distinct_draws (sources w')" unfolding s by (rule demo_draws) (simp_all add: demo_gen_def)
  ultimately show thesis by (rule that)
qed

text \<open>An account in memory whose password is known.\<close>

definition demo_account :: "password_hash \<Rightarrow> user" where
  "demo_account h = (demo_user 7 ''bob@e.com'' RoleUser 0)\<lparr>usr_password_hash := h\<rparr>"

lemma demo_account_simps [simp]:
  "user_key (demo_account h) = 7" "usr_id (demo_account h) = UserID 7" "usr_email (demo_account h) = Email ''bob@e.com''"
  "usr_is_active (demo_account h)" "usr_password_hash (demo_account h) = h"
  by (simp_all add: demo_account_def demo_user_def user_key_def)

lemma demo_account_world: "memory_world rfc_uuid demo_redis (\<lambda>r. r) (demo_world [demo_account h] n)"
  by (rule demo_world_inv) (simp_all add: demo_email_canonical)

lemma demo_account_view: "mem_view (objects (demo_world [demo_account h] n), repo (demo_world [demo_account h] n)) =
    [7 \<mapsto> demo_account h]"
  by (simp add: demo_world_def mem_view_def fun_eq_iff)

lemma demo_change_password:
  assumes "argon2_verify demo_argon2 ''correct horse'' h = Inr True"
  shows "\<exists>w'. change_password_execute demo_R demo_H demo_A 7
    \<lparr>current_password = ''correct horse'', new_password = ''battery staple''\<rparr> (demo_world [demo_account h] n) = (Inr (), w')"
proof -
  obtain h2 where h2: "\<And>g. rand_source g = (\<lambda>_. Some (replicate 16 CHR ''s'')) \<Longrightarrow>
     Hash demo_H ''battery staple'' g = (Inr h2, g\<lparr>rand_pos := Suc (rand_pos g)\<rparr>)" using demo_hash by metis
  have "Verify demo_H ''correct horse'' h = Inr True" using assms by (simp add: argon2_hasher_def)
  then show ?thesis
    by (simp add: change_password_execute_def validate_password_def min_password_length_def max_password_length_def
        demo_world_def on_repo_def memory_repository_def mem_find_by_id_def user_at_def on_gen_def h2 demo_gen_def
        update_password_def time_now_def set_user_def mem_save_def Let_def)
qed

lemma demo_store_any:
  assumes "rand_source (sources w) = (\<lambda>_. Some (replicate 16 CHR ''s''))"
  shows "\<exists>a w'. register_store demo_R demo_H demo_input em w = (Inr a, w') \<and>
    rand_source (sources w') = rand_source (sources w) \<and> uuid_source (sources w') = uuid_source (sources w) \<and>
    uuid_pos (sources w') \<le> uuid_pos (sources w) + 2"
proof -
  obtain h where h: "\<And>g. rand_source g = (\<lambda>_. Some (replicate 16 CHR ''s'')) \<Longrightarrow>
     Hash demo_H ''correct horse'' g = (Inr h, g\<lparr>rand_pos := Suc (rand_pos g)\<rparr>)" using demo_hash by metis
  have nm: "validate_name '' Bob '' = Inr ()" by (simp add: validate_name_def Let_def go_string_eval)
  show ?thesis
    using assms
    by (simp add: register_store_def demo_input_def on_gen_def h new_user_def nm time_now_def new_user_id_def
        uuid_new_def alloc_user_def alloc_def on_repo_def memory_repository_def mem_save_first_owner_def mem_save_def)
qed

text \<open>The owner \<open>1\<close> makes \<open>2\<close> an administrator or an owner.\<close>

definition demo_pair_of_users :: "user list" where
  "demo_pair_of_users = [demo_user 1 ''bob@e.com'' RoleOwner 0, demo_user 2 ''amy@e.com'' RoleUser 0]"

lemma demo_email_amy: "canonical_email (\<lambda>r. r) (Email ''amy@e.com'')"
  by (simp add: canonical_email_def new_email_def go_string_eval is_valid_email_def)

lemma demo_two_world: "memory_world rfc_uuid demo_redis (\<lambda>r. r) (demo_world demo_pair_of_users n)"
  by (rule demo_world_inv) (simp_all add: demo_pair_of_users_def demo_user_def user_key_def demo_email_canonical demo_email_amy)

lemma demo_two_pg: "postgres_world rfc_uuid demo_redis (\<lambda>r. r) (demo_pg demo_pair_of_users)"
proof -
  have "\<exists>n < 100. i = of_nat n" if "i \<in> {1, 2 :: uuid}" for i
    using that by (auto intro: exI [of _ 1] exI [of _ 2])
  then show ?thesis
    using demo_email_canonical demo_email_amy
    by (simp add: demo_pg_def app_inv_def pg_inv_def pg_constraints_def jwt_inv_def alive_def demo_redis_def
        demo_conn_def ids_issued_def dom_pg_view demo_user_def user_key_def row_of_user_def demo_gen_def demo_pair_of_users_def)
qed

lemma demo_second_owner:
  "\<exists>out w'. change_role_execute demo_R demo_A 1 2 RoleOwner (demo_world demo_pair_of_users 0) = (Inr out, w')"
  by (simp add: change_role_execute_def demo_world_def demo_pair_of_users_def demo_user_def user_key_def on_repo_def
      memory_repository_def mem_find_by_id_def user_at_def on_gen_def change_role_def time_now_def demo_gen_def
      set_user_def mem_save_def Let_def upt_rec [of _ 2])

lemma demo_new_admin:
  "\<exists>out w'. change_role_execute demo_P demo_A 1 2 RoleAdmin (demo_pg demo_pair_of_users) = (Inr out, w')"
proof -
  have n: "new_email (\<lambda>r. r) ''bob@e.com'' = Inr (Email ''bob@e.com'')" "new_email (\<lambda>r. r) ''amy@e.com'' = Inr (Email ''amy@e.com'')"
    using demo_email_canonical demo_email_amy by (simp_all add: canonical_email_def)
  show ?thesis
    by (simp add: change_role_execute_def demo_pg_def demo_pair_of_users_def demo_user_def user_key_def on_repo_def
      postgres_repository_def pg_find_by_id_def pg_exec_def sql_select_def scan_row_def scanUser_def n row_of_user_def
      alloc_def reconstitute_def user_at_def on_gen_def change_role_def time_now_def demo_gen_def
      set_user_def pg_save_def exec_result_def sql_upsert_def row_text_ok_def demo_pg_lib_def conflicts_def Let_def)
qed

subsection \<open>Properties\<close>

text \<open>\<^bold>\<open>C13\<close>. Whoever has registered can log in: right after a successful registration, a login
  with the same email and password, in any spelling of the email that normalises to the same
  address, succeeds for the account that was created, unless the access token cannot be signed or
  the refresh token cannot be stored.\<close>

theorem login_after_registration:
  fixes L :: "'db redis_lib" and w w' w'' :: "(memory_store, 'db redis_conn, 'a) world"
  assumes "uuid_laws U" and "redis_laws L" and "argon2_laws lib" and "lower_laws lo"
    and "memory_world U L lo w" and "distinct_draws (sources w')"
    and "register_execute lo (memory_repository U) (argon2_hasher lib) (jwt_token_service J U L svc) A inp w = (Inr out, w')"
    and "new_email lo em = new_email lo (reg_email inp)"
    and "login_execute lo (memory_repository U) (argon2_hasher lib) (jwt_token_service J U L svc) A
      \<lparr>login_email = em, login_password = reg_password inp\<rparr> w' = (x, w'')"
  shows "case x of Inr out' \<Rightarrow> auth_user out' = auth_user out
    | Inl e \<Rightarrow> e \<in> {ErrInternal, ErrServiceUnavailable}"
proof -
  obtain u v where u: "new_email lo (reg_email inp) = Inr (usr_email u)" "usr_is_active u"
      "argon2_verify lib (reg_password inp) (usr_password_hash u) = Inr True" "auth_user out = user_summary_of u"
      "\<forall>i v. mem_view (objects w, repo w) i = Some v \<longrightarrow> usr_email v \<noteq> usr_email u" "content v = content u"
      "mem_view (objects w', repo w') = (mem_view (objects w, repo w))(user_key u \<mapsto> v)" "memory_world U L lo w'"
    using registered_account [OF assms(1-7)] by blast
  note c = u(6) [unfolded content_eq]
  have one: "\<forall>j x. mem_view (objects w', repo w') j = Some x \<and> usr_email x = usr_email v \<longrightarrow> j = user_key u"
  proof (intro allI impI)
    fix j x
    assume "mem_view (objects w', repo w') j = Some x \<and> usr_email x = usr_email v"
    then show "j = user_key u" using u(5) c unfolding u(7) by (metis fun_upd_other)
  qed
  have v: "new_email lo (login_email \<lparr>login_email = em, login_password = reg_password inp\<rparr>) = Inr (usr_email v)"
    "mem_view (objects w', repo w') (user_key u) = Some v" "usr_is_active v"
    "argon2_verify lib (login_password \<lparr>login_email = em, login_password = reg_password inp\<rparr>)
      (usr_password_hash v) = Inr True"
    using u(1,2,3,7) c assms(8) by simp_all
  show ?thesis
    using memory_login [OF assms(1-4) u(8) v(1,2) one v(3,4) assms(9)]
    unfolding summary_content [OF u(6)] u(4) .
qed

lemma login_after_registration_witness:
  "\<exists>out x. \<exists>w' :: demo_state. \<exists>w''.
     register_execute (\<lambda>r. r) demo_R demo_H demo_T demo_A demo_input (demo_world [] 2) = (Inr out, w') \<and>
     login_execute (\<lambda>r. r) demo_R demo_H demo_T demo_A \<lparr>login_email = ''bob@e.com'', login_password = ''correct horse''\<rparr> w' = (x, w'') \<and>
     (case x of Inr out' \<Rightarrow> auth_user out' = auth_user out | Inl e \<Rightarrow> e \<in> {ErrInternal, ErrServiceUnavailable})"
proof -
  obtain out w' where r: "register_execute (\<lambda>r. r) demo_R demo_H demo_T demo_A demo_input (demo_world [] 2) = (Inr out, w')"
    "distinct_draws (sources w')" using demo_register [of 1] by (auto simp: numeral_2_eq_2)
  have inv: "memory_world rfc_uuid demo_redis (\<lambda>r. r) (demo_world [] 2)" by (rule demo_world_inv) simp_all
  obtain x w'' where l: "login_execute (\<lambda>r. r) demo_R demo_H demo_T demo_A
      \<lparr>login_email = ''bob@e.com'', login_password = reg_password demo_input\<rparr> w' = (x, w'')" by fastforce
  have "new_email (\<lambda>r. r) ''bob@e.com'' = new_email (\<lambda>r. r) (reg_email demo_input)" by (simp add: demo_input_def)
  from login_after_registration [OF rfc_uuid_laws demo_redis_laws demo_argon2_laws lower_laws_id inv r(2,1) this l]
  show ?thesis using r(1) l by (auto simp: demo_input_def)
qed

text \<open>\<^bold>\<open>C25\<close>. A changed password works: after \<open>ChangePassword\<close> succeeded for an account whose email
  no other account has, only the password hash of that account and its modification time differ,
  and a login with its email and the new password succeeds for that account, unless the tokens
  cannot be issued.\<close>

theorem changed_password_logs_in:
  fixes L :: "'db redis_lib" and w w' w'' :: "(memory_store, 'db redis_conn, 'a) world"
  assumes "uuid_laws U" and "redis_laws L" and "argon2_laws lib" and "lower_laws lo" and "memory_world U L lo w"
    and "change_password_execute (memory_repository U) (argon2_hasher lib) A i inp w = (Inr (), w')"
    and "mem_view (objects w, repo w) i = Some v" and "usr_is_active v"
    and "\<forall>j u. mem_view (objects w, repo w) j = Some u \<and> usr_email u = usr_email v \<longrightarrow> j = i"
    and "login_execute lo (memory_repository U) (argon2_hasher lib) (jwt_token_service J U L svc) A
      \<lparr>login_email = email_string (usr_email v), login_password = new_password inp\<rparr> w' = (x, w'')"
  shows "(\<exists>u. content u = content (v\<lparr>usr_password_hash := usr_password_hash u\<rparr>) \<and>
      mem_view (objects w', repo w') = (mem_view (objects w, repo w))(i \<mapsto> u)) \<and>
    (case x of Inr out \<Rightarrow> auth_user out = user_summary_of v | Inl e \<Rightarrow> e \<in> {ErrInternal, ErrServiceUnavailable})"
proof -
  note app = memory_laws [OF assms(1-4)]
  obtain u where u: "Verify (argon2_hasher lib) (new_password inp) (usr_password_hash u) = Inr True"
      "content u = content (v\<lparr>usr_password_hash := usr_password_hash u\<rparr>)"
      "written (mem_view (objects w, repo w)) u (mem_view (objects w', repo w'))"
    using application.change_password_step [OF app assms(5,6)] assms(7) by auto
  have k: "user_key v = i" "canonical_email lo (usr_email v)"
    using mem.view_key [of lo "(objects w, repo w)"] assms(5,7) by (auto simp: app_inv_def)
  obtain u' where u': "content u' = content u" "mem_view (objects w', repo w') = (mem_view (objects w, repo w))(i \<mapsto> u')"
    using u(2,3) k(1) by (auto simp: written_def content_eq user_key_def)
  note c = u'(1) [unfolded u(2), unfolded content_eq]
  have inv: "memory_world U L lo w'"
    using application.change_password_step [OF app assms(5,6)] evolves_inv by blast
  have one: "\<forall>j y. mem_view (objects w', repo w') j = Some y \<and> usr_email y = usr_email u' \<longrightarrow> j = i"
  proof (intro allI impI)
    fix j y
    assume "mem_view (objects w', repo w') j = Some y \<and> usr_email y = usr_email u'"
    then show "j = i" using assms(9) c unfolding u'(2) by (auto split: if_splits)
  qed
  have v: "new_email lo (login_email \<lparr>login_email = email_string (usr_email v), login_password = new_password inp\<rparr>) =
      Inr (usr_email u')" "mem_view (objects w', repo w') i = Some u'" "usr_is_active u'"
    "argon2_verify lib (login_password \<lparr>login_email = email_string (usr_email v), login_password = new_password inp\<rparr>)
      (usr_password_hash u') = Inr True"
    using u(1) u' k(2) c assms(8) by (simp_all add: canonical_email_def argon2_hasher_def content_eq)
  have s: "user_summary_of u' = user_summary_of v" using c by (simp add: user_summary_of_def user_key_def)
  have "content u' = content (v\<lparr>usr_password_hash := usr_password_hash u'\<rparr>)" using c by (simp add: content_eq)
  then show ?thesis
    using memory_login [OF assms(1-4) inv v(1,2) one v(3,4) assms(10), unfolded s] u'(2) by blast
qed

lemma changed_password_logs_in_witness:
  "\<exists>h x. \<exists>w' w'' :: demo_state. change_password_execute demo_R demo_H demo_A 7
      \<lparr>current_password = ''correct horse'', new_password = ''battery staple''\<rparr> (demo_world [demo_account h] 1) = (Inr (), w') \<and>
    login_execute (\<lambda>r. r) demo_R demo_H demo_T demo_A
      \<lparr>login_email = ''bob@e.com'', login_password = ''battery staple''\<rparr> w' = (x, w'') \<and>
    (case x of Inr out \<Rightarrow> sum_id (auth_user out) = 7 | Inl e \<Rightarrow> e \<in> {ErrInternal, ErrServiceUnavailable})"
proof -
  obtain h g where "argon2_hash demo_argon2 ''correct horse'' demo_gen = (Inr h, g)"
    using demo_hash [of "''correct horse''"] by (auto simp: argon2_hasher_def demo_gen_def)
  then have "argon2_verify demo_argon2 ''correct horse'' h = Inr True" by (rule verify_own_hash [OF demo_argon2_laws])
  then obtain w' where c: "change_password_execute demo_R demo_H demo_A 7
      \<lparr>current_password = ''correct horse'', new_password = ''battery staple''\<rparr> (demo_world [demo_account h] 1) = (Inr (), w')"
    using demo_change_password by blast
  obtain x w'' where l: "login_execute (\<lambda>r. r) demo_R demo_H demo_T demo_A
      \<lparr>login_email = email_string (usr_email (demo_account h)),
        login_password = new_password \<lparr>current_password = ''correct horse'', new_password = ''battery staple''\<rparr>\<rparr> w' = (x, w'')"
    by fastforce
  have "mem_view (objects (demo_world [demo_account h] 1), repo (demo_world [demo_account h] 1)) 7 = Some (demo_account h)"
    "\<forall>j u. mem_view (objects (demo_world [demo_account h] 1), repo (demo_world [demo_account h] 1)) j = Some u \<and>
       usr_email u = usr_email (demo_account h) \<longrightarrow> j = 7"
    unfolding demo_account_view by auto
  from changed_password_logs_in [OF rfc_uuid_laws demo_redis_laws demo_argon2_laws lower_laws_id demo_account_world
      c this(1) _ this(2) l]
  have "case x of Inr out \<Rightarrow> auth_user out = user_summary_of (demo_account h) | Inl e \<Rightarrow> e \<in> {ErrInternal, ErrServiceUnavailable}"
    by simp
  then have "case x of Inr out \<Rightarrow> sum_id (auth_user out) = 7 | Inl e \<Rightarrow> e \<in> {ErrInternal, ErrServiceUnavailable}"
    by (auto simp: user_summary_of_def split: sum.splits)
  then show ?thesis using c l by auto
qed

text \<open>Over any sequence of requests on the production adapters, with arbitrary failures of
  Redis and of the database in between, a refresh token is exchanged for a new pair at most
  once, as long as no UUID is drawn twice.\<close>

theorem refresh_token_used_once:
  fixes L :: "'db redis_lib" and w w' :: "(pg_state, 'db redis_conn, 'a) world"
  assumes "uuid_laws U" and "redis_laws L" and "argon2_laws lib" and "lower_laws lo"
    and "postgres_world U L lo w" and "distinct_draws (sources w')"
    and "app_run lo (postgres_repository P lo) (argon2_hasher lib) (jwt_token_service J U L svc) A (jwt_env L) w tr w'"
  shows "length (filter (refreshed tok) tr) \<le> 1"
  using application.refreshed_once [OF postgres_laws [OF assms(1-4)] assms(4,7,5,6), of tok]
  by (auto split: if_splits)

lemma refresh_token_used_once_witness:
  "\<exists>w'. app_run (\<lambda>r. r) demo_P demo_H demo_T demo_A (jwt_env demo_redis) (demo_pg [demo_user 1 ''bob@e.com'' RoleOwner 0])
      [(Refresh \<lparr>in_refresh_token = ''tok''\<rparr>, Auth (Inl ErrInvalidCredentials))] w' \<and>
    length (filter (refreshed ''tok'') [(Refresh \<lparr>in_refresh_token = ''tok''\<rparr>, Auth (Inl ErrInvalidCredentials))]) \<le> 1"
proof -
  obtain w' where r: "app_run (\<lambda>r. r) demo_P demo_H demo_T demo_A (jwt_env demo_redis) (demo_pg [demo_user 1 ''bob@e.com'' RoleOwner 0])
      [(Refresh \<lparr>in_refresh_token = ''tok''\<rparr>, Auth (Inl ErrInvalidCredentials))] w'" "distinct_draws (sources w')"
    by (rule demo_run)
  from refresh_token_used_once [OF rfc_uuid_laws demo_redis_laws demo_argon2_laws lower_laws_id demo_pg_inv r(2,1)]
  show ?thesis using r(1) by blast
qed

text \<open>Over any sequence of requests on the database the schema's constraints hold: ids and
  emails are unique and there is at most one owner; and once there is an owner there is exactly
  one, whatever is requested afterwards.\<close>

theorem one_owner_over_runs:
  fixes L :: "'db redis_lib" and w w' :: "(pg_state, 'db redis_conn, 'a) world"
  assumes "uuid_laws U" and "redis_laws L" and "argon2_laws lib" and "lower_laws lo"
    and "postgres_world U L lo w" and "distinct_draws (sources w')"
    and "app_run lo (postgres_repository P lo) (argon2_hasher lib) (jwt_token_service J U L svc) A (jwt_env L) w tr w'"
    and "r \<in> set (users_table (repo w))" and "row_role r = ''owner''"
  shows "pg_constraints (users_table (repo w')) \<and>
    length (filter (\<lambda>r. row_role r = ''owner'') (users_table (repo w'))) = 1"
proof -
  have e: "evolves (pg_inv lo) pg_view (jwt_inv U L) (jwt_spent U L) w w'"
    by (rule application.run_evolves [OF postgres_laws [OF assms(1-4)] assms(4,7,5)])
  then have c: "pg_constraints (users_table (repo w'))"
    by (simp add: evolves_def app_inv_def pg_inv_def)
  have "pg_constraints (users_table (repo w))" using assms(5) by (simp add: app_inv_def pg_inv_def)
  then have "has_owner (pg_view (objects w, repo w))"
    using assms(8,9) by (auto simp: pg_has_owner list_ex_iff)
  then have "has_owner (pg_view (objects w', repo w'))" using e assms(6) by (simp add: evolves_def)
  then have "filter (\<lambda>r. row_role r = ''owner'') (users_table (repo w')) \<noteq> []"
    using c by (simp add: pg_has_owner list_ex_iff filter_empty_conv)
  then show ?thesis using c by (auto simp: pg_constraints_def le_Suc_eq)
qed

lemma one_owner_over_runs_witness:
  "\<exists>w'. app_run (\<lambda>r. r) demo_P demo_H demo_T demo_A (jwt_env demo_redis) (demo_pg [demo_user 1 ''bob@e.com'' RoleOwner 0])
      [(Refresh \<lparr>in_refresh_token = ''tok''\<rparr>, Auth (Inl ErrInvalidCredentials))] w' \<and>
    length (filter (\<lambda>r. row_role r = ''owner'') (users_table (repo w'))) = 1"
proof -
  let ?r = "row_of_user demo_pg_lib (demo_user 1 ''bob@e.com'' RoleOwner 0)"
  obtain w' where r: "app_run (\<lambda>r. r) demo_P demo_H demo_T demo_A (jwt_env demo_redis) (demo_pg [demo_user 1 ''bob@e.com'' RoleOwner 0])
      [(Refresh \<lparr>in_refresh_token = ''tok''\<rparr>, Auth (Inl ErrInvalidCredentials))] w'" "distinct_draws (sources w')"
    by (rule demo_run)
  have "?r \<in> set (users_table (repo (demo_pg [demo_user 1 ''bob@e.com'' RoleOwner 0])))" "row_role ?r = ''owner''"
    by (simp_all add: demo_pg_def demo_user_def)
  from one_owner_over_runs [OF rfc_uuid_laws demo_redis_laws demo_argon2_laws lower_laws_id demo_pg_inv r(2,1) this]
  show ?thesis using r(1) by blast
qed

text \<open>\<^bold>\<open>C35\<close>. Two registrations can take the same email in memory: \<open>RegisterUser\<close> checks the email and
  stores the account in separate calls of the repository, and the in-memory \<open>Save\<close> does not check
  it again. When the checks of two concurrent registrations for one address both run before
  either account is stored, both succeed and the store holds two accounts with that email.\<close>

theorem interleaved_registrations_share_email:
  fixes L :: "'db redis_lib" and w w1 w2 w3 w4 :: "(memory_store, 'db redis_conn, 'a) world"
  assumes "uuid_laws U" and "redis_laws L" and "argon2_laws lib" and "lower_laws lo"
    and "memory_world U L lo w" and "distinct_draws (sources w4)"
    and "register_check lo (memory_repository U) inp1 w = (Inr em, w1)"
    and "register_check lo (memory_repository U) inp2 w1 = (Inr em, w2)"
    and "register_store (memory_repository U) (argon2_hasher lib) inp1 em w2 = (Inr a, w3)"
    and "register_store (memory_repository U) (argon2_hasher lib) inp2 em w3 = (Inr b, w4)"
  shows "\<exists>i j u v. i \<noteq> j \<and> mem_view (objects w4, repo w4) i = Some u \<and> mem_view (objects w4, repo w4) j = Some v \<and>
    usr_email u = em \<and> usr_email v = em"
proof -
  note app = memory_laws [OF assms(1-4)]
  note s1 = application.register_check_step [OF app assms(4,5,7)]
  then have i1: "memory_world U L lo w1" and em: "canonical_email lo em" using evolves_inv by auto
  have i2: "memory_world U L lo w2"
    using application.register_check_step [OF app assms(4) i1 assms(8)] evolves_inv by blast
  note s3 = application.register_store_step [OF app i2 em assms(9)]
  have i3: "memory_world U L lo w3" using s3 evolves_inv by blast
  note s4 = application.register_store_step [OF app i3 em assms(10)]
  define u v where "u = user_at a w3" and "v = user_at b w4"
  obtain u' where u': "mem_view (objects w3, repo w3) (user_key u) = Some u'" "content u' = content u" "usr_email u = em"
    using s3 by (auto simp: u_def elim: written_self)
  have fresh: "mem_view (objects w3, repo w3) (user_key v) = None"
    and wr: "written (mem_view (objects w3, repo w3)) v (mem_view (objects w4, repo w4))" and ve: "usr_email v = em"
    using s4 assms(6) by (auto simp: v_def)
  obtain v' where v': "mem_view (objects w4, repo w4) (user_key v) = Some v'" "content v' = content v"
    by (rule written_self [OF wr])
  have ne: "user_key u \<noteq> user_key v" using u'(1) fresh by auto
  then have "mem_view (objects w4, repo w4) (user_key u) = Some u'" using written_other [OF wr ne] u'(1) by simp
  moreover have "usr_email u' = em" "usr_email v' = em" using u'(2,3) v'(2) ve by (simp_all add: content_eq)
  ultimately show ?thesis using ne v'(1) by blast
qed

lemma interleaved_registrations_share_email_witness:
  "\<exists>a b. \<exists>w3 w4 :: demo_state. \<exists>i j u v.
     register_store demo_R demo_H demo_input (Email ''bob@e.com'') (demo_world [] 0) = (Inr a, w3) \<and>
     register_store demo_R demo_H demo_input (Email ''bob@e.com'') w3 = (Inr b, w4) \<and>
     i \<noteq> j \<and> mem_view (objects w4, repo w4) i = Some u \<and> mem_view (objects w4, repo w4) j = Some v \<and>
     usr_email u = usr_email v"
proof -
  have inv: "memory_world rfc_uuid demo_redis (\<lambda>r. r) (demo_world [] 0)" by (rule demo_world_inv) simp_all
  have g: "rand_source (sources (demo_world [] 0)) = (\<lambda>_. Some (replicate 16 CHR ''s''))"
    "uuid_source (sources (demo_world [] 0)) = of_nat" "uuid_pos (sources (demo_world [] 0)) = 100"
    by (simp_all add: demo_world_def demo_gen_def)
  obtain a w3 where s3: "register_store demo_R demo_H demo_input (Email ''bob@e.com'') (demo_world [] 0) = (Inr a, w3)"
    "rand_source (sources w3) = (\<lambda>_. Some (replicate 16 CHR ''s''))" "uuid_source (sources w3) = of_nat"
    "uuid_pos (sources w3) \<le> 102"
    using demo_store_any [OF g(1), of "Email ''bob@e.com''"] g by auto
  obtain b w4 where s4: "register_store demo_R demo_H demo_input (Email ''bob@e.com'') w3 = (Inr b, w4)"
    "uuid_source (sources w4) = of_nat" "uuid_pos (sources w4) \<le> 104"
    using demo_store_any [OF s3(2), of "Email ''bob@e.com''"] s3(3,4) by fastforce
  have "distinct_draws (sources w4)" using s4(2,3) by (intro demo_draws) simp_all
  from interleaved_registrations_share_email [OF rfc_uuid_laws demo_redis_laws demo_argon2_laws lower_laws_id inv this
      demo_check demo_check s3(1) s4(1)]
  show ?thesis using s3(1) s4(1) by metis
qed

text \<open>\<^bold>\<open>C36\<close>. The in-memory adapter lets the owner make a second owner: \<open>ChangeUserRole\<close> with the role
  owner succeeds and leaves the acting and the target account both as owners, the state that the
  database's unique index on the role forbids.\<close>

theorem role_change_makes_second_owner:
  fixes L :: "'db redis_lib" and w w' :: "(memory_store, 'db redis_conn, 'a) world"
  assumes "uuid_laws U" and "redis_laws L" and "argon2_laws lib" and "lower_laws lo" and "memory_world U L lo w"
    and "change_role_execute (memory_repository U) A actor target RoleOwner w = (Inr out, w')"
  shows "actor \<noteq> target \<and> (\<forall>i \<in> {actor, target}. \<exists>u. mem_view (objects w', repo w') i = Some u \<and> usr_role u = RoleOwner)"
proof -
  obtain ac v u where s: "mem_view (objects w, repo w) actor = Some ac" "usr_role ac = RoleOwner" "actor \<noteq> target"
      "mem_view (objects w, repo w) target = Some v" "content u = content (v\<lparr>usr_role := RoleOwner\<rparr>)"
      "written (mem_view (objects w, repo w)) u (mem_view (objects w', repo w'))"
    using application.change_role_step [OF memory_laws [OF assms(1-4)] assms(5,6)] by auto
  have "user_key v = target" using mem.view_key [of lo "(objects w, repo w)"] assms(5) s(4) by (auto simp: app_inv_def)
  then have k: "user_key u = target" using s(5) by (simp add: content_eq user_key_def)
  obtain u' where u': "mem_view (objects w', repo w') (user_key u) = Some u'" "content u' = content u"
    by (rule written_self [OF s(6)])
  have "mem_view (objects w', repo w') target = Some u'" "usr_role u' = RoleOwner"
    using u' s(5) k by (simp_all add: content_eq)
  moreover have "mem_view (objects w', repo w') actor = Some ac" using written_other [OF s(6), of actor] s(1,3) k by simp
  ultimately show ?thesis using s(2,3) by auto
qed

lemma role_change_makes_second_owner_witness:
  "\<exists>out. \<exists>w' :: demo_state. change_role_execute demo_R demo_A 1 2 RoleOwner (demo_world demo_pair_of_users 0) = (Inr out, w') \<and>
     (\<forall>i \<in> {1, 2}. \<exists>u. mem_view (objects w', repo w') i = Some u \<and> usr_role u = RoleOwner)"
proof -
  obtain out w' where c: "change_role_execute demo_R demo_A 1 2 RoleOwner (demo_world demo_pair_of_users 0) = (Inr out, w')"
    using demo_second_owner by blast
  from role_change_makes_second_owner [OF rfc_uuid_laws demo_redis_laws demo_argon2_laws lower_laws_id demo_two_world c]
  show ?thesis using c by blast
qed

text \<open>\<^bold>\<open>C10\<close>. Roles change only by an owner's hand: a successful \<open>ChangeUserRole\<close> on the database means
  that the acting account is stored as owner at that moment, whatever role its token carries,
  that it acted on another account, and that of that account only the role (and the modification
  time) changed, to the requested one.\<close>

theorem roles_change_only_by_owner:
  fixes L :: "'db redis_lib" and w w' :: "(pg_state, 'db redis_conn, 'a) world"
  assumes "uuid_laws U" and "redis_laws L" and "argon2_laws lib" and "lower_laws lo" and "postgres_world U L lo w"
    and "change_role_execute (postgres_repository P lo) A actor target role w = (Inr out, w')"
  shows "\<exists>ac v u. pg_view (objects w, repo w) actor = Some ac \<and> usr_role ac = RoleOwner \<and> actor \<noteq> target \<and>
    pg_view (objects w, repo w) target = Some v \<and> content u = content (v\<lparr>usr_role := role\<rparr>) \<and>
    pg_view (objects w', repo w') = (pg_view (objects w, repo w))(target \<mapsto> u) \<and> out_role out = role"
proof -
  obtain ac v u where s: "pg_view (objects w, repo w) actor = Some ac" "usr_role ac = RoleOwner" "actor \<noteq> target"
      "pg_view (objects w, repo w) target = Some v" "content u = content (v\<lparr>usr_role := role\<rparr>)" "out = user_output_of u"
      "written (pg_view (objects w, repo w)) u (pg_view (objects w', repo w'))"
    using application.change_role_step [OF postgres_laws [OF assms(1-4)] assms(5,6)] by auto
  have "user_key v = target" using pg.view_key [of lo "(objects w, repo w)"] assms(5) s(4) by (auto simp: app_inv_def)
  then have k: "user_key u = target" using s(5) by (simp add: content_eq user_key_def)
  then obtain u' where u': "content u' = content u" "pg_view (objects w', repo w') = (pg_view (objects w, repo w))(target \<mapsto> u')"
    using s(7) by (auto simp: written_def)
  have "out_role out = role" using s(5,6) by (simp add: user_output_of_def content_eq)
  moreover have "content u' = content (v\<lparr>usr_role := role\<rparr>)" using u'(1) s(5) by simp
  ultimately show ?thesis using s(1-4) u'(2) by blast
qed

lemma roles_change_only_by_owner_witness:
  "\<exists>out w' u. change_role_execute demo_P demo_A 1 2 RoleAdmin (demo_pg demo_pair_of_users) = (Inr out, w') \<and>
     out_role out = RoleAdmin \<and> pg_view (objects w', repo w') 2 = Some u \<and> usr_role u = RoleAdmin"
proof -
  obtain out w' where c: "change_role_execute demo_P demo_A 1 2 RoleAdmin (demo_pg demo_pair_of_users) = (Inr out, w')"
    using demo_new_admin by blast
  from roles_change_only_by_owner [OF rfc_uuid_laws demo_redis_laws demo_argon2_laws lower_laws_id demo_two_pg c]
  obtain u where "pg_view (objects w', repo w') 2 = Some u" "usr_role u = RoleAdmin" "out_role out = RoleAdmin"
    by (auto simp: content_eq)
  then show ?thesis using c by blast
qed

lemma memory_audit_log:
  "audit (record_audit (memory_audit_record U) ty ac ta d v) = audit v @
     [AuditRecorded (uuid_String U (uuid_source (sources v) (uuid_pos (sources v)))) ty ac ta d
        (clock (sources v) (clock_pos (sources v)))]"
  by (simp add: record_audit_def on_gen_def new_audit_event_def uuid_new_def time_now_def memory_audit_record_def)



text \<open>\<^bold>\<open>C37\<close>. The audit log can claim a revocation that did not happen: when a replayed refresh token is
  detected but the revocation of the user's sessions fails, the refresh request ignores that
  error; its answer and the audit event, "all sessions revoked", are those of a successful
  revocation.\<close>

theorem failed_revocation_audited_as_done:
  fixes w :: "('r, 'db redis_conn, log_entry list) world"
  assumes "jwt_redeem_refresh_token U L svc tok (sources w, tokens w) = (Inr \<lparr>outcome = RedemptionReused, red_user_id = uid\<rparr>, s1)"
    and "jwt_revoke_all_refresh_tokens U L svc uid s1 = (Inl e, g2, c2)"
  shows "\<exists>i t w'. refresh_execute R (jwt_token_service J U L svc) (memory_audit_record U) \<lparr>in_refresh_token = tok\<rparr> w =
      (Inl ErrInvalidCredentials, w') \<and> tokens w' = c2 \<and>
    audit w' = audit w @ [AuditRecorded i AuditEventRefreshTokenReuseDetected (Some uid) None
      ''refresh token reuse detected; all sessions revoked'' t]"
proof -
  obtain g1 c1 where s: "s1 = (g1, c1)" by fastforce
  then show ?thesis
    using assms
    by (simp add: refresh_execute_def on_tokens_def jwt_token_service_def record_audit_def on_gen_def
        new_audit_event_def uuid_new_def time_now_def memory_audit_record_def)
qed

lemma failed_revocation_audited_as_done_witness:
  "\<exists>i t. \<exists>w w' :: demo_state. refresh_execute demo_R demo_T demo_A \<lparr>in_refresh_token = ''old''\<rparr> w =
      (Inl ErrInvalidCredentials, w') \<and> alive demo_redis (redis_db (tokens w')) \<noteq> {} \<and>
     audit w' = [AuditRecorded i AuditEventRefreshTokenReuseDetected (Some 7) None
      ''refresh token reuse detected; all sessions revoked'' t]"
proof -
  let ?d = "[(usedRefreshKey ''old'', uuid_String rfc_uuid 7, 100), (refreshKey ''new'', uuid_String rfc_uuid 7, 100)]"
  let ?c = "(demo_conn [(0, Delivered)] ?d)\<lparr>ctx_waits := []\<rparr>"
  define w where "w = (demo_world [] 0)\<lparr>tokens := ?c\<rparr>"

  have ne: "usedRefreshKey ''old'' \<noteq> refreshKey ''new''" by simp
  have run: "round_trip (redeem_command demo_redis ''old'') ?c = (Inr [''REUSED'', uuid_String rfc_uuid 7], ?c\<lparr>net := []\<rparr>)"
    by (simp add: round_trip_def redeem_command_def redeem_script_def demo_conn_def demo_redis_def)
  obtain c1 where r: "jwt_redeem_refresh_token rfc_uuid demo_redis demo_service ''old'' (sources w, tokens w) =
      (Inr \<lparr>outcome = RedemptionReused, red_user_id = 7\<rparr>, sources w, c1)" "net c1 = []" "redis_db c1 = ?d"
      "cb_state (redis_breaker c1) = StateClosed" "ctx_waits c1 = []"
    using resilient_delivered [where operation = "round_trip (redeem_command demo_redis ''old'')", OF _ run]
      uuid_laws_String(1) [OF rfc_uuid_laws]
    by (simp add: jwt_redeem_refresh_token_def w_def parseRedeemUserID_def demo_conn_def new_circuit_breaker_def record_success_def)
  obtain g2 c2 where v: "jwt_revoke_all_refresh_tokens rfc_uuid demo_redis demo_service 7 (sources w, c1) = (Inl ctx_error, g2, c2)"
    "redis_db c2 = ?d"
  proof -
    have "revoke_scan demo_redis (userRefreshKeyPrefix rfc_uuid 7) 0 c = (Inl ctx_error, c)" if "net c = []" for c :: "demo_db redis_conn"
      using that by (subst revoke_scan.simps) (simp add: round_trip_def)
    moreover obtain b g' where "record_failure (redis_breaker c1) (sources w) = (b, g')" by fastforce
    ultimately show thesis
      using r(2-5) that
      by (simp add: jwt_revoke_all_refresh_tokens_def resilient_def call_with_resilience_def allow_request_def
          state_locked_def retry_with_backoff.simps [of _ _ _ _ 0] demo_service_def new_retry_policy_def ctx_wait_def
          isRedisRetryable_def ctx_error_def)
  qed
  from failed_revocation_audited_as_done [OF r(1) v(1), of "demo_R" demo_jwt]
  obtain i t and w' :: demo_state where w': "refresh_execute demo_R demo_T demo_A \<lparr>in_refresh_token = ''old''\<rparr> w =
      (Inl ErrInvalidCredentials, w')" "tokens w' = c2" "audit w' = audit w @ [AuditRecorded i AuditEventRefreshTokenReuseDetected (Some 7) None
      ''refresh token reuse detected; all sessions revoked'' t]" by blast
  have "''new'' \<in> alive demo_redis (redis_db c2)"
    unfolding alive_def v(2) using ne by (auto simp: demo_redis_def intro!: exI [of _ 0])
  then show ?thesis using w' by (intro exI [of _ i] exI [of _ t] exI [of _ w] exI [of _ w']) (auto simp: w_def demo_world_def)
qed

end
