(* ===== verification/Listing.thy ===== *)
theory Listing
  imports Deployment
begin

section \<open>Paging through the users\<close>

text \<open>
  \<^verbatim>\<open>ListUsers.Execute\<close> on \<^verbatim>\<open>FindPaginated\<close> of the in-memory repository: the arithmetic of offsets
  and page numbers in 32 and 64 bits, and the pages as consecutive slices of the sorted users.
  \<open>page_count n s\<close> is the number of pages of size \<open>s\<close> for \<open>n\<close> users.
\<close>

lemma concat_pages: "concat (map (\<lambda>k. take s (drop (k * s) xs)) [0..<n]) = take (n * s) xs"
proof (induction n)
  case (Suc n)
  have "Suc n * s = n * s + s" by simp
  then show ?case using Suc by (simp only: take_add upt_Suc_append map_append concat_append) simp
qed simp

lemma page_size_bounds: "1 \<le> sint (page_size_of inp)" "sint (page_size_of inp) \<le> 100"
  by (auto simp: page_size_of_def default_page_size_def max_page_size_def word_sless_alt)

lemma page_of_nat: "k + 1 < 2 ^ 31 \<Longrightarrow> page_of \<lparr>in_page = of_nat (k + 1), in_page_size = ps\<rparr> = of_nat (k + 1)"
  and sint_page: "k + 1 < 2 ^ 31 \<Longrightarrow> sint (of_nat (k + 1) - 1 :: 32 word) = int k"
proof -
  have s: "sint (of_nat m :: 32 word) = int m" if "m < 2 ^ 31" for m
    using that by (simp add: signed_of_nat signed_take_bit_int_eq_self)
  show "page_of \<lparr>in_page = of_nat (k + 1), in_page_size = ps\<rparr> = of_nat (k + 1)" if "k + 1 < 2 ^ 31"
    using s [OF that] by (auto simp: page_of_def word_sless_alt)
  show "sint (of_nat (k + 1) - 1 :: 32 word) = int k" if "k + 1 < 2 ^ 31"
    using s [of k] that by simp
qed

definition page_count :: "nat \<Rightarrow> nat \<Rightarrow> nat" where
  "page_count n s = (if n = 0 then 0 else (n - 1) div s + 1)"

lemma page_count: "0 < s \<Longrightarrow> n \<le> page_count n s * s" "page_count n s \<le> n" "k < page_count n s \<Longrightarrow> k * s < n"
proof -
  show "n \<le> page_count n s * s" if "0 < s"
    using that dividend_less_div_times [of s "n - 1"] by (auto simp: page_count_def)
  show "page_count n s \<le> n" by (simp add: page_count_def Suc_le_eq le_less_trans [OF div_le_dividend])
  show "k * s < n" if "k < page_count n s"
  proof -
    have "k \<le> (n - 1) div s" "0 < n" using that by (auto simp: page_count_def split: if_splits)
    then have "k * s \<le> (n - 1) div s * s" by simp
    also have "\<dots> \<le> n - 1" by (rule div_times_less_eq_dividend)
    finally show ?thesis using \<open>0 < n\<close> by simp
  qed
qed

lemma total_pages: "total_pages_of (int n) ps = of_nat (page_count n (nat (sint ps)))" if "1 \<le> sint ps"
proof (cases "n = 0")
  case False
  have "(int n - 1) div sint ps = int ((n - 1) div nat (sint ps))"
    using that False by (simp add: zdiv_int of_nat_diff)
  then show ?thesis using False by (simp add: total_pages_of_def page_count_def)
qed (simp add: total_pages_of_def page_count_def)

text \<open>The page size used for a requested one, the number of pages, and page \<open>k\<close>, counted from 0.\<close>

definition listed_size :: "32 word \<Rightarrow> nat" where
  "listed_size ps = nat (sint (page_size_of \<lparr>in_page = 1, in_page_size = ps\<rparr>))"

definition listed_pages :: "(memory_store, 't, 'a) world \<Rightarrow> 32 word \<Rightarrow> nat" where
  "listed_pages w ps = page_count (length (repo w)) (listed_size ps)"

definition listed_page :: "uuid_lib \<Rightarrow> (memory_store, 't, 'a) world \<Rightarrow> 32 word \<Rightarrow> nat \<Rightarrow> list_users_output" where
  "listed_page U w ps k =
    \<lparr>list_items = map (\<lambda>a. user_output_of (user_at a w))
       (take (listed_size ps) (drop (k * listed_size ps) (users_in_order U (objects w, repo w)))),
     list_pagination = \<lparr>pg_page = of_nat (k + 1), pg_page_size = page_size_of \<lparr>in_page = of_nat (k + 1), in_page_size = ps\<rparr>,
       pg_total_items = int (length (repo w)), pg_total_pages = of_nat (listed_pages w ps)\<rparr>\<rparr>"

lemma listed_size: "nat (sint (page_size_of \<lparr>in_page = p, in_page_size = ps\<rparr>)) = listed_size ps" "0 < listed_size ps"
  using page_size_bounds(1) [of "\<lparr>in_page = 1, in_page_size = ps\<rparr>"] by (simp_all add: listed_size_def page_size_of_def)

lemma listed_pages: "listed_pages w ps \<le> length (repo w)" "length (repo w) \<le> listed_pages w ps * listed_size ps"
  using page_count(1) [OF listed_size(2), of "length (repo w)" ps] page_count(2) by (simp_all add: listed_pages_def)

lemma list_users_page:
  assumes "can_manage_roles role" "k + 1 < 2 ^ 31" "int (length (repo w)) < 2 ^ 31"
  shows "list_users_execute (memory_repository U) role \<lparr>in_page = of_nat (k + 1), in_page_size = ps\<rparr> w = (Inr (listed_page U w ps k), w)"
proof -
  let ?s = "listed_size ps"
  define z where "z = sint (page_size_of \<lparr>in_page = of_nat (k + 1), in_page_size = ps\<rparr>)"
  have z: "1 \<le> z" "z \<le> 100" "z = int ?s"
    using page_size_bounds [of "\<lparr>in_page = of_nat (k + 1), in_page_size = ps\<rparr>", folded z_def]
      listed_size(1) [of "of_nat (k + 1)" ps, folded z_def] by simp_all
  have "int k * z \<le> 2 ^ 31 * 100" using assms(2) z by (intro mult_mono) auto
  then have b: "0 \<le> int k * z" "int k * z + z < 2 ^ 63" using z by auto
  then have off: "wrap64 (int k * z) = int k * z" using z(1) by (intro wrap64_id) linarith+
  have "mem_find_paginated U (int k * z) z (objects w, repo w) =
      (Inr (take (nat z) (drop (nat (int k * z)) (users_in_order U (objects w, repo w))), int (length (repo w))),
       objects w, repo w)"
    using mem_find_paginated_page [of "int k * z" z "(objects w, repo w)" U] b z assms(3) by simp
  moreover have "nat z = ?s" "nat (int k * z) = k * ?s" using z by (simp_all add: nat_mult_distrib)
  moreover have "total_pages_of (int (length (repo w))) (page_size_of \<lparr>in_page = of_nat (k + 1), in_page_size = ps\<rparr>) =
      of_nat (listed_pages w ps)"
    using total_pages [of "page_size_of \<lparr>in_page = of_nat (k + 1), in_page_size = ps\<rparr>" "length (repo w)"] z
    by (simp only: z_def [symmetric] listed_pages_def) simp
  ultimately show ?thesis
    unfolding list_users_execute_def Let_def page_of_nat [OF assms(2)] sint_page [OF assms(2)] z_def [symmetric] off
    using assms(1) by (simp add: on_repo_def memory_repository_def user_at_def listed_page_def)
qed

lemma listed_items:
  assumes "uuid_laws U" "mem_inv lo (objects w, repo w)"
  shows "concat (map list_items (map (listed_page U w ps) [0..<listed_pages w ps])) =
    map (\<lambda>a. user_output_of (user_at a w)) (users_in_order U (objects w, repo w))"
proof -
  let ?xs = "users_in_order U (objects w, repo w)" and ?s = "listed_size ps" and ?n = "listed_pages w ps"
  have "map list_items (map (listed_page U w ps) [0..<?n]) =
      map (map (\<lambda>a. user_output_of (user_at a w))) (map (\<lambda>k. take ?s (drop (k * ?s) ?xs)) [0..<?n])"
    by (simp add: listed_page_def comp_def)
  then show ?thesis
    using listed_pages(2) [of w ps] users_in_order(4) [OF assms] by (simp only: concat_pages map_concat [symmetric]) simp
qed

lemma keys_in_order:
  assumes "uuid_laws U" "mem_inv lo (objects w, repo w)"
  shows "distinct (map (\<lambda>a. user_key (objects w ! a)) (users_in_order U (objects w, repo w)))" (is "distinct (map ?key ?xs)")
    and "set (map (\<lambda>a. user_key (objects w ! a)) (users_in_order U (objects w, repo w))) = dom (mem_view (objects w, repo w))"
proof -
  note ord = users_in_order [OF assms]
  have "inj_on ?key (set ?xs)" using mem_inv_key_inj [OF assms(2)] ord(2) by (auto simp: inj_on_def)
  then show "distinct (map ?key ?xs)" using ord(3) by (simp add: distinct_map)
  have "?key ` set ?xs = dom (mem_view (objects w, repo w))"
    unfolding ord(2) dom_mem_view image_image by (rule image_cong) (use assms(2) in \<open>auto simp: mem_inv_def\<close>)
  then show "set (map ?key ?xs) = dom (mem_view (objects w, repo w))" by simp
qed

lemma listed_page_fields:
  assumes "mem_inv lo (objects w, repo w)"
  shows "pg_total_pages (list_pagination (listed_page U w ps k)) = of_nat (listed_pages w ps)"
    "length (list_items (listed_page U w ps k)) \<le> nat (sint (pg_page_size (list_pagination (listed_page U w ps k))))"
    "pg_total_items (list_pagination (listed_page U w ps k)) = int (card (dom (mem_view (objects w, repo w))))"
  using card_mem_view [OF assms] by (simp_all add: listed_page_def listed_size)

text \<open>\<^bold>\<open>C20\<close>. Paging through the users shows everyone once: over the in-memory store, for any
  requested page size, the pages from the first to the reported last one together are all stored
  users, each exactly once, ordered by creation time and then by id; no page is longer than the
  page size it reports, and every page reports the number of users and of pages.\<close>

theorem pages_list_everyone:
  fixes w :: "(memory_store, 't, 'a) world"
  assumes "uuid_laws U" and "mem_inv lo (objects w, repo w)" and "int (length (repo w)) < 2 ^ 31 - 1"
    and "can_manage_roles role"
    and "page = (\<lambda>k :: nat. list_users_execute (memory_repository U) role \<lparr>in_page = of_nat (k + 1), in_page_size = ps\<rparr> w)"
  shows "\<exists>outs. fst (page 0) \<in> range Inr \<and>
    (\<forall>k < length outs. page k = (Inr (outs ! k), w) \<and>
       pg_total_pages (list_pagination (outs ! k)) = of_nat (length outs) \<and>
       length (list_items (outs ! k)) \<le> nat (sint (pg_page_size (list_pagination (outs ! k)))) \<and>
       pg_total_items (list_pagination (outs ! k)) = int (card (dom (mem_view (objects w, repo w))))) \<and>
    concat (map list_items outs) =
      map (\<lambda>a. user_output_of (user_at a w)) (users_in_order U (objects w, repo w)) \<and>
    sorted_wrt (user_before U (objects w)) (users_in_order U (objects w, repo w)) \<and>
    distinct (map out_id (concat (map list_items outs))) \<and>
    set (map out_id (concat (map list_items outs))) = dom (mem_view (objects w, repo w))"
proof -
  let ?n = "listed_pages w ps" and ?outs = "map (listed_page U w ps) [0..<listed_pages w ps]"
  have p: "page k = (Inr (listed_page U w ps k), w)" if "k + 1 < 2 ^ 31" for k
    unfolding assms(5) by (rule list_users_page [OF assms(4) that]) (use assms(3) in simp)
  have each: "page k = (Inr (listed_page U w ps k), w)" if "k < ?n" for k
    by (rule p) (use that listed_pages(1) [of w ps] assms(3) in simp)
  note items = listed_items [OF assms(1,2), of ps]
  have ids: "map out_id (concat (map list_items ?outs)) = map (\<lambda>a. user_key (objects w ! a)) (users_in_order U (objects w, repo w))"
    unfolding items by (simp add: user_output_of_def user_at_def comp_def)
  have nth: "?outs ! k = listed_page U w ps k" if "k < ?n" for k using that by simp
  have len: "length ?outs = ?n" by simp
  have first: "fst (page 0) \<in> range Inr" using p [of 0] by simp
  show ?thesis
  proof (rule exI [of _ ?outs], intro conjI allI impI, unfold len)
    fix k
    assume k: "k < ?n"
    show "page k = (Inr (?outs ! k), w)" "pg_total_pages (list_pagination (?outs ! k)) = of_nat ?n"
      "length (list_items (?outs ! k)) \<le> nat (sint (pg_page_size (list_pagination (?outs ! k))))"
      "pg_total_items (list_pagination (?outs ! k)) = int (card (dom (mem_view (objects w, repo w))))"
      unfolding nth [OF k] using each [OF k] listed_page_fields [OF assms(2)] by blast+
  qed (unfold ids, (fact first items users_in_order(1) [OF assms(1,2)] keys_in_order [OF assms(1,2)])+)
qed

lemma pages_list_everyone_witness:
  "\<exists>outs. set (map out_id (concat (map list_items outs))) = {1, 2, 3} \<and>
    (\<forall>k < length outs. list_users_execute demo_R RoleAdmin \<lparr>in_page = of_nat (k + 1), in_page_size = 2\<rparr>
       (demo_world [demo_user 1 ''bob@e.com'' RoleUser 5, demo_user 2 ''bob@e.com'' RoleUser 5, demo_user 3 ''bob@e.com'' RoleAdmin 2] 0) =
     (Inr (outs ! k), demo_world [demo_user 1 ''bob@e.com'' RoleUser 5, demo_user 2 ''bob@e.com'' RoleUser 5, demo_user 3 ''bob@e.com'' RoleAdmin 2] 0))"
proof -
  let ?us = "[demo_user 1 ''bob@e.com'' RoleUser 5, demo_user 2 ''bob@e.com'' RoleUser 5, demo_user 3 ''bob@e.com'' RoleAdmin 2]"
  let ?w = "demo_world ?us 0"
  have "memory_world rfc_uuid demo_redis (\<lambda>r. r) ?w"
    by (rule demo_world_inv) (simp_all add: demo_user_def user_key_def demo_email_canonical)
  then have inv: "mem_inv (\<lambda>r. r) (objects ?w, repo ?w)" by (simp add: app_inv_def)
  have n: "int (length (repo ?w)) < 2 ^ 31 - 1" by (simp add: demo_world_def)
  have role: "can_manage_roles RoleAdmin" by (simp add: can_manage_roles_def)
  have d: "dom (mem_view (objects ?w, repo ?w)) = {1, 2, 3}"
    unfolding dom_mem_view by (simp add: demo_world_def demo_user_def user_key_def upt_rec [of _ 3] upt_rec [of _ 2] insert_commute)
  from pages_list_everyone [OF rfc_uuid_laws inv n role refl, of 2] obtain outs where
    "\<forall>k < length outs. list_users_execute demo_R RoleAdmin \<lparr>in_page = of_nat (k + 1), in_page_size = 2\<rparr> ?w = (Inr (outs ! k), ?w)"
    "set (map out_id (concat (map list_items outs))) = {1, 2, 3}" unfolding d by blast
  then show ?thesis by (intro exI [of _ outs]) auto
qed

end
