(* ===== verification/RateLimit.thy ===== *)
theory RateLimit
  imports Domain
begin

section \<open>Rate limiting per key\<close>

text \<open>
  \<^verbatim>\<open>internal/interface/http/middleware/rate_limit.go\<close>. The token bucket of golang.org/x/time/rate
  is the parameter \<open>rate_lib\<close>; \<open>rate_laws\<close> is its documentation, a bucket of size \<open>b\<close>, initially
  full and refilled at \<open>r\<close> tokens per second, as far as the code relies on it. Limiter objects live
  on a heap, since a request uses the pointer that \<^verbatim>\<open>get\<close> returned after the lock is released. A
  request (\<open>Hit\<close>), a sweep of the cleanup goroutine (\<open>Sweep\<close>) and the passing of time (\<open>Pass\<close>) are
  the events of a keyed limiter.
\<close>

record 'l rate_lib =
  rate_NewLimiter :: "nat \<Rightarrow> nat \<Rightarrow> 'l"
  rate_Allow :: "time \<Rightarrow> 'l \<Rightarrow> bool \<times> 'l"

primrec allows :: "'l rate_lib \<Rightarrow> time list \<Rightarrow> 'l \<Rightarrow> bool list \<times> 'l" where
  "allows lib [] l = ([], l)"
| "allows lib (t # ts) l =
    (case rate_Allow lib t l of (ok, l) \<Rightarrow> case allows lib ts l of (oks, l) \<Rightarrow> (ok # oks, l))"

definition rate_laws :: "'l rate_lib \<Rightarrow> bool" where
  "rate_laws lib \<longleftrightarrow>
     (\<forall>r b ts t. ts \<noteq> [] \<and> sorted (ts @ [t]) \<and> int b * 10 ^ 9 \<le> int r * (t - last ts) \<longrightarrow>
        rate_Allow lib t (snd (allows lib ts (rate_NewLimiter lib r b))) =
        rate_Allow lib t (rate_NewLimiter lib r b)) \<and>
     (\<forall>r b ts us. us \<noteq> [] \<and> sorted (ts @ us) \<longrightarrow>
        int (length (filter id (fst (allows lib us (snd (allows lib ts (rate_NewLimiter lib r b))))))) * 10 ^ 9
          \<le> int b * 10 ^ 9 + int r * (last us - hd us))"

subsection \<open>The keyed limiter\<close>

definition entryTTL :: time where "entryTTL = 10 * 60 * 10 ^ 9"

record limiter_entry =
  le_limiter :: nat
  le_last_seen :: time

record 'l keyed_limiter =
  kl_objects :: "'l list"
  kl_limiters :: "(string \<times> limiter_entry) list"
  kl_r :: nat
  kl_b :: nat

definition newKeyedLimiter :: "nat \<Rightarrow> nat \<Rightarrow> 'l keyed_limiter" where
  "newKeyedLimiter r b = \<lparr>kl_objects = [], kl_limiters = [], kl_r = r, kl_b = b\<rparr>"

definition kl_get :: "'l rate_lib \<Rightarrow> string \<Rightarrow> gen \<times> 'l keyed_limiter \<Rightarrow> nat \<times> gen \<times> 'l keyed_limiter" where
  "kl_get lib key s =
    (case s of (g, l) \<Rightarrow>
      case (case map_of (kl_limiters l) key of
              Some entry \<Rightarrow> (le_limiter entry, l)
            | None \<Rightarrow> (length (kl_objects l), l\<lparr>kl_objects := kl_objects l @ [rate_NewLimiter lib (kl_r l) (kl_b l)]\<rparr>)) of
        (a, l) \<Rightarrow> case time_now g of (now, g) \<Rightarrow>
          (a, g, l\<lparr>kl_limiters := AList.update key \<lparr>le_limiter = a, le_last_seen = now\<rparr> (kl_limiters l)\<rparr>))"

definition limiter_allow :: "'l rate_lib \<Rightarrow> nat \<Rightarrow> gen \<times> 'l keyed_limiter \<Rightarrow> bool \<times> gen \<times> 'l keyed_limiter" where
  "limiter_allow lib a s =
    (case s of (g, l) \<Rightarrow> case time_now g of (now, g) \<Rightarrow>
      case rate_Allow lib now (kl_objects l ! a) of (ok, x) \<Rightarrow> (ok, g, l\<lparr>kl_objects := (kl_objects l)[a := x]\<rparr>))"

definition kl_hit :: "'l rate_lib \<Rightarrow> string \<Rightarrow> gen \<times> 'l keyed_limiter \<Rightarrow> bool \<times> gen \<times> 'l keyed_limiter" where
  "kl_hit lib key s = (case kl_get lib key s of (a, s) \<Rightarrow> limiter_allow lib a s)"

definition kl_sweep :: "gen \<times> 'l keyed_limiter \<Rightarrow> gen \<times> 'l keyed_limiter" where
  "kl_sweep s =
    (case s of (g, l) \<Rightarrow> case time_now g of (now, g) \<Rightarrow>
      (g, l\<lparr>kl_limiters := filter (\<lambda>(key, entry). \<not> le_last_seen entry < now - entryTTL) (kl_limiters l)\<rparr>))"

datatype limiter_event = Hit string | Sweep | Pass nat

primrec limiter_run ::
  "'l rate_lib \<Rightarrow> limiter_event list \<Rightarrow> gen \<times> 'l keyed_limiter \<Rightarrow> (string \<times> time \<times> bool) list" where
  "limiter_run lib [] s = []"
| "limiter_run lib (ev # evs) s =
    (case ev of
       Hit key \<Rightarrow> (case kl_hit lib key s of (ok, s') \<Rightarrow>
         (key, clock (fst s) (Suc (clock_pos (fst s))), ok) # limiter_run lib evs s')
     | Sweep \<Rightarrow> limiter_run lib evs (kl_sweep s)
     | Pass n \<Rightarrow> limiter_run lib evs ((fst s)\<lparr>clock_pos := clock_pos (fst s) + n\<rparr>, snd s))"

definition times_of :: "string \<Rightarrow> (string \<times> time \<times> bool) list \<Rightarrow> time list" where
  "times_of key tr = map (fst \<circ> snd) (filter (\<lambda>p. fst p = key) tr)"

definition decisions_of :: "string \<Rightarrow> (string \<times> time \<times> bool) list \<Rightarrow> bool list" where
  "decisions_of key tr = map (snd \<circ> snd) (filter (\<lambda>p. fst p = key) tr)"

subsection \<open>Eviction is not observable\<close>

text \<open>
  The readings of the clock never go back and two consecutive ones are at most a minute apart
  (longer pauses are several readings).
\<close>

definition steady_clock :: "(nat \<Rightarrow> time) \<Rightarrow> bool" where
  "steady_clock c \<longleftrightarrow> (\<forall>n. c n \<le> c (Suc n) \<and> c (Suc n) \<le> c n + 60 * 10 ^ 9)"

lemma steady_mono: "steady_clock c \<Longrightarrow> m \<le> n \<Longrightarrow> c m \<le> c n"
  using lift_Suc_mono_le [of c m n] by (simp add: steady_clock_def)

text \<open>
  \<open>hist key\<close> are the times at which the key's limiter was asked so far. A key in the map has the
  limiter that was never evicted; a key that is not was never asked, or its bucket is full again.
\<close>

definition limiter_inv ::
  "'l rate_lib \<Rightarrow> (string \<Rightarrow> time list) \<Rightarrow> gen \<Rightarrow> 'l keyed_limiter \<Rightarrow> bool" where
  "limiter_inv lib hist g l \<longleftrightarrow>
     distinct (map fst (kl_limiters l)) \<and>
     (\<forall>k k' e e'. map_of (kl_limiters l) k = Some e \<and> map_of (kl_limiters l) k' = Some e' \<and>
        le_limiter e = le_limiter e' \<longrightarrow> k = k') \<and>
     (\<forall>k. sorted (hist k) \<and> (\<forall>t \<in> set (hist k). t \<le> clock g (clock_pos g))) \<and>
     (\<forall>k e. map_of (kl_limiters l) k = Some e \<longrightarrow> le_limiter e < length (kl_objects l) \<and>
        kl_objects l ! le_limiter e = snd (allows lib (hist k) (rate_NewLimiter lib (kl_r l) (kl_b l))) \<and>
        (hist k = [] \<or> last (hist k) \<le> le_last_seen e + 60 * 10 ^ 9)) \<and>
     (\<forall>k. map_of (kl_limiters l) k = None \<longrightarrow> hist k = [] \<or>
        int (kl_b l) * 10 ^ 9 \<le> int (kl_r l) * (clock g (clock_pos g) - last (hist k)))"

lemma allows_append:
  "allows lib (ts @ us) l = (case allows lib ts l of (x, l) \<Rightarrow> case allows lib us l of (y, l) \<Rightarrow> (x @ y, l))"
  by (induction ts arbitrary: l) (auto split: prod.splits)

lemma length_allows: "length (fst (allows lib ts l)) = length ts"
  by (induction ts arbitrary: l) (simp_all add: case_prod_beta)

lemma full_again:
  assumes "rate_laws lib" "sorted hist" "\<forall>t \<in> set hist. t \<le> now"
    "hist = [] \<or> int b * 10 ^ 9 \<le> int r * (now - last hist)"
  shows "rate_Allow lib now (snd (allows lib hist (rate_NewLimiter lib r b))) = rate_Allow lib now (rate_NewLimiter lib r b)"
proof (cases "hist = []")
  case False
  then show ?thesis using assms unfolding rate_laws_def by (simp add: sorted_append)
qed simp

lemma map_of_filter_distinct:
  "distinct (map fst m) \<Longrightarrow> map_of (filter P m) k = (case map_of m k of Some v \<Rightarrow> if P (k, v) then Some v else None | None \<Rightarrow> None)"
  by (induction m) (auto split: option.splits simp: map_of_eq_None_iff)

text \<open>A limiter outlives a minute's pause after it was last asked, and by then the bucket is full.\<close>

definition refills :: "nat \<Rightarrow> nat \<Rightarrow> bool" where
  "refills r b \<longleftrightarrow> int b * 10 ^ 9 \<le> int r * (9 * 60 * 10 ^ 9)"

lemma inv_pass:
  assumes "limiter_inv lib hist g l" "steady_clock (clock g)" "clock g' = clock g" "clock_pos g \<le> clock_pos g'"
  shows "limiter_inv lib hist g' l"
proof -
  have le: "clock g (clock_pos g) \<le> clock g (clock_pos g')" using steady_mono [OF assms(2,4)] .
  have mono: "y \<le> int (kl_r l) * (clock g (clock_pos g) - x) \<Longrightarrow> y \<le> int (kl_r l) * (clock g (clock_pos g') - x)" for x y
    by (rule order_trans, assumption, rule mult_left_mono) (use le in auto)
  show ?thesis
    using assms(1) unfolding limiter_inv_def assms(3)
    by (elim conjE, intro conjI) (assumption | blast intro: mono order_trans [OF _ le])+
qed

lemma inv_sweep:
  assumes "limiter_inv lib hist g l" "steady_clock (clock g)" "refills (kl_r l) (kl_b l)" "kl_sweep (g, l) = (g', l')"
  shows "limiter_inv lib hist g' l'" "clock g' = clock g" "kl_r l' = kl_r l" "kl_b l' = kl_b l"
proof -
  let ?P = "\<lambda>(key, entry). \<not> le_last_seen entry < clock g (clock_pos g) - entryTTL"
  have l': "l' = l\<lparr>kl_limiters := filter ?P (kl_limiters l)\<rparr>" and
    g': "g' = g\<lparr>clock_pos := Suc (clock_pos g)\<rparr>"
    using assms(4) by (auto simp: kl_sweep_def time_now_def)
  let ?l = "l\<lparr>kl_limiters := filter ?P (kl_limiters l)\<rparr>"
  have dist: "distinct (map fst (kl_limiters l))" using assms(1) by (simp add: limiter_inv_def)
  have full: "int (kl_b l) * 10 ^ 9 \<le> int (kl_r l) * (clock g (clock_pos g) - last (hist k))"
    if "map_of (kl_limiters l) k = Some e" "\<not> ?P (k, e)" "hist k \<noteq> []" for k e
  proof -
    have "last (hist k) \<le> le_last_seen e + 60 * 10 ^ 9" using assms(1) that(1,3) unfolding limiter_inv_def by blast
    then have "9 * 60 * 10 ^ 9 \<le> clock g (clock_pos g) - last (hist k)" using that(2) by (simp add: entryTTL_def)
    from mult_left_mono [OF this, of "int (kl_r l)"] show ?thesis using assms(3) unfolding refills_def by simp
  qed
  have "limiter_inv lib hist g ?l"
    using assms(1) full unfolding limiter_inv_def
    by (auto simp: map_of_filter_distinct [OF dist] distinct_map_filter split: option.splits if_splits)
  from inv_pass [OF this assms(2)] show "limiter_inv lib hist g' l'" "clock g' = clock g" "kl_r l' = kl_r l" "kl_b l' = kl_b l"
    by (simp_all add: l' g')
qed

lemma allows_snoc: "snd (allows lib (ts @ [t]) l) = snd (rate_Allow lib t (snd (allows lib ts l)))"
  by (simp add: allows_append split: prod.splits)

lemma inv_hit:
  assumes inv: "limiter_inv lib hist g l" and steady: "steady_clock (clock g)" and laws: "rate_laws lib"
    and hit: "kl_hit lib key (g, l) = (ok, g', l')"
  defines "t \<equiv> clock g (Suc (clock_pos g))" and "obj \<equiv> snd (allows lib (hist key) (rate_NewLimiter lib (kl_r l) (kl_b l)))"
  shows "limiter_inv lib (hist(key := hist key @ [t])) g' l'"
    and "ok = fst (rate_Allow lib t obj)" and "clock g' = clock g" "kl_r l' = kl_r l" "kl_b l' = kl_b l"
proof -
  let ?now = "clock g (clock_pos g)" and ?m = "kl_limiters l" and ?os = "kl_objects l"
  let ?a = "case map_of ?m key of Some e \<Rightarrow> le_limiter e | None \<Rightarrow> length ?os"
  let ?os' = "case map_of ?m key of Some e \<Rightarrow> ?os | None \<Rightarrow> ?os @ [rate_NewLimiter lib (kl_r l) (kl_b l)]"
  let ?x = "rate_Allow lib t obj"
  note I = inv [unfolded limiter_inv_def]
  have order: "?now \<le> t" "t \<le> ?now + 60 * 10 ^ 9" "t \<le> clock g (Suc (Suc (clock_pos g)))"
    using steady by (simp_all add: steady_clock_def t_def)
  have past: "sorted (hist k)" "\<And>u. u \<in> set (hist k) \<Longrightarrow> u \<le> t" for k
    using I order(1) by (blast intro: order_trans)+
  have allow: "rate_Allow lib t (?os' ! ?a) = ?x"
  proof (cases "map_of ?m key")
    case None
    have "hist key = [] \<or> int (kl_b l) * 10 ^ 9 \<le> int (kl_r l) * (?now - last (hist key))"
      using I None by blast
    moreover have "int (kl_r l) * (?now - last (hist key)) \<le> int (kl_r l) * (t - last (hist key))"
      using order(1) by (intro mult_left_mono) auto
    ultimately have "hist key = [] \<or> int (kl_b l) * 10 ^ 9 \<le> int (kl_r l) * (t - last (hist key))" by linarith
    from full_again [OF laws past(1) _ this] past(2) None show ?thesis by (simp add: obj_def)
  next
    case (Some e)
    then have "?os ! le_limiter e = obj" using I by (auto simp: obj_def)
    with Some show ?thesis by simp
  qed
  have out: "ok = fst ?x" "g' = g\<lparr>clock_pos := Suc (Suc (clock_pos g))\<rparr>"
    "l' = l\<lparr>kl_objects := ?os'[?a := snd ?x], kl_limiters := AList.update key \<lparr>le_limiter = ?a, le_last_seen = ?now\<rparr> ?m\<rparr>"
    using hit allow
    by (auto simp: kl_hit_def kl_get_def limiter_allow_def time_now_def t_def split: option.splits prod.splits)
  then show "ok = fst ?x" "clock g' = clock g" "kl_r l' = kl_r l" "kl_b l' = kl_b l" by simp_all
  have bound: "le_limiter e < length ?os" if "map_of ?m k = Some e" for k e using I that by blast
  have fresh: "map_of ?m k = Some e \<Longrightarrow> k \<noteq> key \<Longrightarrow> le_limiter e \<noteq> ?a" for k e
    by (cases "map_of ?m key") (use bound [of k e] in simp, use I in auto)
  have snoc: "snd (allows lib (hist key @ [t]) (rate_NewLimiter lib (kl_r l) (kl_b l))) = snd ?x"
    by (simp add: allows_snoc obj_def)
  have "limiter_inv lib (hist(key := hist key @ [t])) g'
     (l\<lparr>kl_objects := ?os'[?a := snd ?x], kl_limiters := AList.update key \<lparr>le_limiter = ?a, le_last_seen = ?now\<rparr> ?m\<rparr>)"
    unfolding limiter_inv_def
  proof (intro conjI allI impI, goal_cases)
    case 1 then show ?case using I by (simp add: distinct_keys_update)
  next
    case (2 k k' e e')
    then show ?case using fresh I by (cases "k = key"; cases "k' = key") (auto simp del: fun_upd_apply simp: fun_upd_def, metis+)
  next
    case (3 k)
    then show ?case using past(1) [of k] past(2) [of _ k] by (auto simp: sorted_append)
  next
    case (4 k)
    have "u \<le> clock g (Suc (Suc (clock_pos g)))" if "u \<in> set (hist k)" for u
      using past(2) [OF that] order(3) by linarith
    then show ?case using order(3) by (auto simp: out(2))
  next
    case (5 k e)
    then show ?case using bound [of k e] bound [of key] by (cases "k = key") (auto split: option.splits)
  next
    case (6 k e)
    have "?os' ! le_limiter e = ?os ! le_limiter e" if "map_of ?m k = Some e" using bound [OF that]
      by (simp add: nth_append split: option.splits)
    moreover have "?a < length ?os'" using bound [of key] by (auto split: option.splits)
    ultimately show ?case using 6 I fresh [of k e] snoc by (cases "k = key") auto
  next
    case (7 k e)
    then show ?case using I order(2) by (cases "k = key") auto
  next
    case (8 k)
    have "int (kl_r l) * (?now - last (hist k)) \<le> int (kl_r l) * (clock g (Suc (Suc (clock_pos g))) - last (hist k))"
      using order by (intro mult_left_mono) auto
    moreover have "k \<noteq> key" and "map_of ?m k = None" using 8 by (auto split: if_splits)
    moreover have "hist k = [] \<or> int (kl_b l) * 10 ^ 9 \<le> int (kl_r l) * (?now - last (hist k))"
      using I \<open>map_of ?m k = None\<close> by blast
    ultimately show ?case by (auto simp: out(2))
  qed
  then show "limiter_inv lib (hist(key := hist key @ [t])) g' l'" by (simp only: out(3))
qed

lemma limiter_run_decisions:
  assumes "limiter_inv lib hist g l" "steady_clock (clock g)" "rate_laws lib" "refills (kl_r l) (kl_b l)"
  shows "decisions_of key (limiter_run lib evs (g, l)) =
      fst (allows lib (times_of key (limiter_run lib evs (g, l))) (snd (allows lib (hist key) (rate_NewLimiter lib (kl_r l) (kl_b l)))))
    \<and> sorted (hist key @ times_of key (limiter_run lib evs (g, l)))"
  using assms
proof (induction evs arbitrary: hist g l)
  case Nil
  then show ?case by (simp add: decisions_of_def times_of_def limiter_inv_def)
next
  case (Cons ev evs)
  show ?case
  proof (cases ev)
    case (Hit k)
    obtain ok g' l' where hit: "kl_hit lib k (g, l) = (ok, g', l')" by (metis prod_cases3)
    note H = inv_hit [OF Cons.prems(1,2,3) hit]
    from Cons.IH [OF H(1)] Cons.prems H(3-5) H(2)
    show ?thesis
      by (cases "key = k")
        (simp_all add: Hit hit decisions_of_def times_of_def allows_append split: prod.splits)
  next
    case Sweep
    obtain g' l' where sweep: "kl_sweep (g, l) = (g', l')" by (metis surj_pair)
    note S = inv_sweep [OF Cons.prems(1,2,4) sweep]
    from Cons.IH [OF S(1)] Cons.prems S show ?thesis by (simp add: Sweep sweep)
  next
    case (Pass n)
    from Cons.IH [OF inv_pass [OF Cons.prems(1,2), of "g\<lparr>clock_pos := clock_pos g + n\<rparr>"]] Cons.prems
    show ?thesis by (simp add: Pass)
  qed
qed

lemma new_limiter_inv: "limiter_inv lib (\<lambda>_. []) g (newKeyedLimiter r b)"
  by (simp add: limiter_inv_def newKeyedLimiter_def)

lemma new_limiter_fields [simp]: "kl_r (newKeyedLimiter r b) = r" "kl_b (newKeyedLimiter r b) = b"
  by (simp_all add: newKeyedLimiter_def)

subsection \<open>A token bucket\<close>

text \<open>
  A bucket that keeps the documented laws, counting in billionths of a token: the hypotheses of
  the properties below can hold.
\<close>

datatype bucket = Bucket (bk_rate: nat) (bk_burst: nat) (bk_last: "time option") (bk_tokens: int)

definition bucket_level :: "time \<Rightarrow> bucket \<Rightarrow> int" where
  "bucket_level t k = (case bk_last k of None \<Rightarrow> int (bk_burst k) * 10 ^ 9
     | Some l \<Rightarrow> min (int (bk_burst k) * 10 ^ 9) (bk_tokens k + int (bk_rate k) * (t - l)))"

definition bucket_allow :: "time \<Rightarrow> bucket \<Rightarrow> bool \<times> bucket" where
  "bucket_allow t k =
    (let n = bucket_level t k; ok = 10 ^ 9 \<le> n
     in (ok, Bucket (bk_rate k) (bk_burst k) (Some t) (if ok then n - 10 ^ 9 else n)))"

definition bucket_lib :: "bucket rate_lib" where
  "bucket_lib = \<lparr>rate_NewLimiter = \<lambda>r b. Bucket r b None (int b * 10 ^ 9), rate_Allow = bucket_allow\<rparr>"

lemma bucket_lib_simps [simp]:
  "rate_NewLimiter bucket_lib r b = Bucket r b None (int b * 10 ^ 9)" "rate_Allow bucket_lib = bucket_allow"
  by (simp_all add: bucket_lib_def)

definition bucket_ok :: "bucket \<Rightarrow> bool" where
  "bucket_ok k \<longleftrightarrow> 0 \<le> bk_tokens k \<and> bk_tokens k \<le> int (bk_burst k) * 10 ^ 9"

lemma bucket_allow_ok:
  assumes "bucket_ok k" "\<forall>l. bk_last k = Some l \<longrightarrow> l \<le> t" "bucket_allow t k = (ok, k')"
  shows "bucket_ok k'" "bk_rate k' = bk_rate k" "bk_burst k' = bk_burst k" "bk_last k' = Some t"
    "(if ok then 10 ^ 9 else 0) + bk_tokens k' = bucket_level t k" "bucket_level t k \<le> int (bk_burst k) * 10 ^ 9"
  using assms by (auto simp: bucket_allow_def bucket_ok_def bucket_level_def Let_def split: option.splits if_splits)

lemma bucket_allows:
  assumes "bucket_ok k" "sorted ts" "\<forall>l. bk_last k = Some l \<longrightarrow> (\<forall>t \<in> set ts. l \<le> t)"
    "allows bucket_lib ts k = (oks, k')"
  shows "bucket_ok k' \<and> bk_rate k' = bk_rate k \<and> bk_burst k' = bk_burst k \<and>
    bk_last k' = (if ts = [] then bk_last k else Some (last ts)) \<and>
    (\<forall>l. bk_last k = Some l \<longrightarrow>
      int (length (filter id oks)) * 10 ^ 9 + bk_tokens k' \<le> bk_tokens k + int (bk_rate k) * (last (l # ts) - l))"
  using assms
proof (induction ts arbitrary: k oks)
  case (Cons t ts)
  obtain ok k1 oks' where step: "bucket_allow t k = (ok, k1)" "allows bucket_lib ts k1 = (oks', k')" "oks = ok # oks'"
    using Cons.prems(4) by (auto split: prod.splits)
  note B = bucket_allow_ok [OF Cons.prems(1) _ step(1)]
  have t: "\<forall>l. bk_last k = Some l \<longrightarrow> l \<le> t" using Cons.prems(3) by simp
  have IH: "bucket_ok k' \<and> bk_rate k' = bk_rate k1 \<and> bk_burst k' = bk_burst k1 \<and>
      bk_last k' = (if ts = [] then bk_last k1 else Some (last ts)) \<and>
      (\<forall>l. bk_last k1 = Some l \<longrightarrow>
        int (length (filter id oks')) * 10 ^ 9 + bk_tokens k' \<le> bk_tokens k1 + int (bk_rate k1) * (last (l # ts) - l))"
    using Cons.prems(2) B(1,4) [OF t] by (intro Cons.IH step(2)) auto
  have level: "bucket_level t k \<le> bk_tokens k + int (bk_rate k) * (t - l)" if "bk_last k = Some l" for l
    using that by (simp add: bucket_level_def)
  have split: "int (bk_rate k) * (last (l # t # ts) - l) = int (bk_rate k) * (last (t # ts) - t) + int (bk_rate k) * (t - l)" for l
    by (simp add: algebra_simps)
  have count: "int (length (filter id oks)) * 10 ^ 9 = (if ok then 10 ^ 9 else 0) + int (length (filter id oks')) * 10 ^ 9"
    by (simp add: step(3))
  have "int (length (filter id oks')) * 10 ^ 9 + bk_tokens k' \<le> bk_tokens k1 + int (bk_rate k) * (last (t # ts) - t)"
    using IH B(2,4) [OF t] by simp
  then have potential: "int (length (filter id oks)) * 10 ^ 9 + bk_tokens k' \<le> bk_tokens k + int (bk_rate k) * (last (l # t # ts) - l)"
    if "bk_last k = Some l" for l
    using level [OF that] B(5) [OF t] unfolding split count by linarith
  have "bk_last k' = Some (last (t # ts))" using IH B(4) [OF t] by simp
  then show ?case using IH B(2,3) [OF t] potential by (auto simp: id_def)
qed (auto simp: algebra_simps)

lemma bucket_laws: "rate_laws bucket_lib"
  unfolding rate_laws_def
proof (intro conjI allI impI; elim conjE)
  fix r b :: nat and ts :: "time list" and t :: time
  let ?new = "rate_NewLimiter bucket_lib r b"
  assume A: "ts \<noteq> []" "sorted (ts @ [t])" "int b * 10 ^ 9 \<le> int r * (t - last ts)"
  obtain oks k where k: "allows bucket_lib ts ?new = (oks, k)" by (metis surj_pair)
  have "bucket_ok k \<and> bk_rate k = r \<and> bk_burst k = b \<and> bk_last k = Some (last ts)"
    using bucket_allows [OF _ _ _ k] A(1,2) by (auto simp: bucket_ok_def sorted_append)
  then have "bucket_level t k = int b * 10 ^ 9" "bucket_level t ?new = int b * 10 ^ 9" "bk_rate k = r" "bk_burst k = b"
    using A(3) by (auto simp: bucket_level_def bucket_ok_def)
  then show "rate_Allow bucket_lib t (snd (allows bucket_lib ts ?new)) = rate_Allow bucket_lib t ?new"
    using k by (simp add: bucket_allow_def)
next
  fix r b :: nat and ts us :: "time list"
  let ?new = "rate_NewLimiter bucket_lib r b"
  assume A: "us \<noteq> []" "sorted (ts @ us)"
  then obtain u us' where us: "us = u # us'" by (cases us) auto
  obtain oks k where k: "allows bucket_lib ts ?new = (oks, k)" by (metis surj_pair)
  have K: "bucket_ok k \<and> bk_rate k = r \<and> bk_burst k = b \<and> bk_last k = (if ts = [] then None else Some (last ts))"
    using bucket_allows [OF _ _ _ k] A(2) by (auto simp: bucket_ok_def sorted_append)
  obtain ok k1 where k1: "bucket_allow u k = (ok, k1)" by (metis surj_pair)
  have u: "\<forall>l. bk_last k = Some l \<longrightarrow> l \<le> u" using K A(2) us by (auto simp: sorted_append split: if_splits)
  note B = bucket_allow_ok [OF conjunct1 [OF K] u k1]
  obtain oks' k2 where k2: "allows bucket_lib us' k1 = (oks', k2)" by (metis surj_pair)
  have "int (length (filter id oks')) * 10 ^ 9 + bk_tokens k2 \<le> bk_tokens k1 + int r * (last us - u) \<and> bucket_ok k2"
    using bucket_allows [OF B(1) _ _ k2] A(2) B(2,4) K us by (auto simp: sorted_append)
  then show "int (length (filter id (fst (allows bucket_lib us (snd (allows bucket_lib ts ?new)))))) * 10 ^ 9
      \<le> int b * 10 ^ 9 + int r * (last us - hd us)"
    using B(5,6) K k k1 k2 by (auto simp: us bucket_ok_def split: if_splits)
qed

subsection \<open>Properties\<close>

text \<open>
  \<^bold>\<open>C12\<close> Evicting an idle key is never observable. In any sequence of requests, sweeps of the
  cleanup goroutine and pauses, on a clock that never goes back, the decisions a key gets are those
  of one limiter that is created at the start, asked at the same times and never evicted, as soon
  as nine minutes refill a bucket.
\<close>

theorem cleanup_unobservable:
  assumes "rate_laws lib" "steady_clock (clock g)" "refills r b"
  shows "decisions_of key (limiter_run lib evs (g, newKeyedLimiter r b)) =
    fst (allows lib (times_of key (limiter_run lib evs (g, newKeyedLimiter r b))) (rate_NewLimiter lib r b))"
  using limiter_run_decisions [OF new_limiter_inv, of g lib r b key evs] assms by simp

definition tick_gen :: gen where
  "tick_gen = \<lparr>clock = \<lambda>n. int n * 10 ^ 8, clock_pos = 0, uuid_source = \<lambda>n. of_nat n, uuid_pos = 0,
     rand_source = \<lambda>n. None, rand_pos = 0\<rparr>"

lemma tick_steady: "steady_clock (clock tick_gen)"
  by (simp add: steady_clock_def tick_gen_def algebra_simps)

definition sweep_events :: "limiter_event list" where
  "sweep_events = [Hit ''10.0.0.1'', Hit ''10.0.0.1'', Hit ''10.0.0.2'', Hit ''10.0.0.1'', Pass 10000, Sweep, Hit ''10.0.0.1'']"

lemma sweep_trace:
  "limiter_run bucket_lib sweep_events (tick_gen, newKeyedLimiter 1 2) =
     [(''10.0.0.1'', 100000000, True), (''10.0.0.1'', 300000000, True), (''10.0.0.2'', 500000000, True),
      (''10.0.0.1'', 700000000, False), (''10.0.0.1'', 1001000000000, True)]"
  by (simp add: sweep_events_def tick_gen_def newKeyedLimiter_def kl_hit_def kl_get_def limiter_allow_def
      kl_sweep_def time_now_def bucket_allow_def bucket_level_def Let_def entryTTL_def)

theorem cleanup_unobservable_witness:
  "fst (allows bucket_lib [100000000, 300000000, 700000000, 1001000000000] (rate_NewLimiter bucket_lib 1 2)) =
     [True, True, False, True]"
  using cleanup_unobservable [OF bucket_laws tick_steady, of 1 2 "''10.0.0.1''" sweep_events]
  by (simp add: refills_def sweep_trace decisions_of_def times_of_def del: One_nat_def)

lemma rate_bound_lemma:
  assumes "rate_laws lib" "steady_clock (clock g)" "refills r b"
    and "zip (times_of key (limiter_run lib evs (g, newKeyedLimiter r b)))
          (decisions_of key (limiter_run lib evs (g, newKeyedLimiter r b))) = before @ stretch @ after"
    and "stretch \<noteq> []"
  shows "int (length (filter snd stretch)) * 10 ^ 9 \<le> int b * 10 ^ 9 + int r * (fst (last stretch) - fst (hd stretch))"
proof -
  let ?tr = "limiter_run lib evs (g, newKeyedLimiter r b)"
  let ?ts = "map fst before" and ?us = "map fst stretch"
  have len: "length (times_of key ?tr) = length (decisions_of key ?tr)"
    by (simp add: times_of_def decisions_of_def)
  have times: "times_of key ?tr = ?ts @ ?us @ map fst after"
    using arg_cong [OF assms(4), of "map fst"] len by simp
  have decisions: "decisions_of key ?tr = map snd before @ map snd stretch @ map snd after"
    using arg_cong [OF assms(4), of "map snd"] len by simp
  have run: "decisions_of key ?tr = fst (allows lib (times_of key ?tr) (rate_NewLimiter lib r b))"
    and sorted: "sorted (times_of key ?tr)"
    using limiter_run_decisions [OF new_limiter_inv, of g lib r b key evs] assms(1-3) by simp_all
  have "map snd stretch = fst (allows lib ?us (snd (allows lib ?ts (rate_NewLimiter lib r b))))"
    using run unfolding times decisions by (simp add: allows_append case_prod_beta length_allows)
  moreover have "length (filter snd stretch) = length (filter id (map snd stretch))"
    by (simp add: filter_map comp_def)
  moreover have "last ?us = fst (last stretch)" "hd ?us = fst (hd stretch)"
    using assms(5) by (simp_all add: last_map list.map_sel)
  moreover have "?us \<noteq> []" "sorted (?ts @ ?us)" using assms(5) sorted unfolding times by (auto simp: sorted_append)
  ultimately show ?thesis using assms(1) unfolding rate_laws_def by metis
qed

text \<open>
  The limiter bounds the rate of a key for good. In any sequence of requests, sweeps and
  pauses, whatever stretch of a key's requests is taken, at most \<open>b\<close> plus \<open>r\<close> per second between
  its first and its last request of them are let through: neither the eviction of an entry nor the
  requests of other keys give a client more.
\<close>

theorem rate_bound:
  assumes "rate_laws lib" "steady_clock (clock g)" "refills r b"
    and "zip (times_of key (limiter_run lib evs (g, newKeyedLimiter r b)))
          (decisions_of key (limiter_run lib evs (g, newKeyedLimiter r b))) = before @ stretch @ after"
    and "stretch \<noteq> []"
  shows "int (length (filter snd stretch)) * 10 ^ 9 \<le> int b * 10 ^ 9 + int r * (fst (last stretch) - fst (hd stretch))"
  by (rule rate_bound_lemma [OF assms])

theorem rate_bound_witness:
  "int (length (filter snd [(300000000 :: time, True), (700000000, False), (1001000000000, True)])) * 10 ^ 9 \<le>
     int 2 * 10 ^ 9 + int 1 * (1001000000000 - 300000000)"
  using rate_bound [OF bucket_laws tick_steady, of 1 2 "''10.0.0.1''" sweep_events "[(100000000, True)]"
      "[(300000000, True), (700000000, False), (1001000000000, True)]" "[]"]
  by (simp add: refills_def sweep_trace decisions_of_def times_of_def del: One_nat_def)

end
