(* ===== verification/HttpLayer.thy ===== *)
theory HttpLayer
  imports Deployment RateLimit
begin

section \<open>The HTTP interface\<close>

text \<open>
  \<^verbatim>\<open>internal/interface/http\<close>: the middleware, the handlers and the router. A handler acts on a
  gin context (the request, the route's parameters, the claims set by \<^verbatim>\<open>RequireAuth\<close> and the
  response so far) and on the server: the world of the application and the four rate limiters the
  router creates. A middleware that ends in \<^verbatim>\<open>c.Next()\<close> takes the rest of the chain as an
  argument; where it aborts the chain is not run. A panic ends the chain, and \<^verbatim>\<open>gin.Recovery\<close>
  answers 500 without a body.

  Parameters (\<open>gin_lib\<close>) are gin's matching of a method and path against the registered routes,
  the decoding of a JSON body into the required, and so non-empty, fields of a struct, the
  formatting of a time in the local time zone, and the page of metrics.
\<close>

subsection \<open>Requests, responses, the gin context\<close>

record http_request =
  rq_method :: string
  rq_path :: string
  rq_header :: "(string \<times> string) list"
  rq_query :: "(string \<times> string) list"
  rq_body :: string
  rq_client_ip :: string

datatype response_body =
    NoBody
  | TextBody string
  | ErrorBody string
  | StatusBody string "(string \<times> string) list"
  | AuthBody auth_output
  | UserBody user_output
  | UsersBody list_users_output

record gin_context =
  gc_request :: http_request
  gc_params :: "(string \<times> string) list"
  gc_user :: "access_token_claims option"
  gc_status :: nat
  gc_header :: "(string \<times> string) list"
  gc_body :: response_body

datatype gin_match = Matched nat "(string \<times> string) list" | Redirected nat string | Unmatched

record gin_lib =
  gin_route :: "(string \<times> string) list \<Rightarrow> string \<Rightarrow> string \<Rightarrow> gin_match"
  gin_bind :: "string list \<Rightarrow> string \<Rightarrow> error + string list"
  gin_time :: "time \<Rightarrow> string"
  gin_metrics :: string

definition gin_laws :: "gin_lib \<Rightarrow> bool" where
  "gin_laws G \<longleftrightarrow>
     (\<forall>tbl m p i ps. gin_route G tbl m p = Matched i ps \<longrightarrow> i < length tbl \<and> fst (tbl ! i) = m) \<and>
     (\<forall>fields body vs. gin_bind G fields body = Inr vs \<longrightarrow> length vs = length fields \<and> '''' \<notin> set vs)"

text \<open>\<^verbatim>\<open>c.GetHeader\<close>, \<^verbatim>\<open>c.Query\<close> and \<^verbatim>\<open>c.Param\<close> give the empty string for an absent key.\<close>

definition or_empty :: "string option \<Rightarrow> string" where
  "or_empty x = (case x of None \<Rightarrow> '''' | Some s \<Rightarrow> s)"

definition gin_GetHeader :: "string \<Rightarrow> gin_context \<Rightarrow> string" where
  "gin_GetHeader k c = or_empty (map_of (rq_header (gc_request c)) k)"

definition gin_Query :: "string \<Rightarrow> gin_context \<Rightarrow> string" where
  "gin_Query k c = or_empty (map_of (rq_query (gc_request c)) k)"

definition gin_Param :: "string \<Rightarrow> gin_context \<Rightarrow> string" where
  "gin_Param k c = or_empty (map_of (gc_params c) k)"

definition gin_Header :: "string \<Rightarrow> string \<Rightarrow> gin_context \<Rightarrow> gin_context" where
  "gin_Header k v c = c\<lparr>gc_header := AList.update k v (gc_header c)\<rparr>"

definition gin_JSON :: "nat \<Rightarrow> response_body \<Rightarrow> gin_context \<Rightarrow> gin_context" where
  "gin_JSON code b c = c\<lparr>gc_status := code, gc_body := b\<rparr>"

subsection \<open>The server\<close>

datatype limiter_slot = IpLimit | AuthLimit | PasswordLimit | RoleLimit

record ('r, 't, 'a, 'l) server =
  srv_world :: "('r, 't, 'a) world"
  srv_limiter :: "limiter_slot \<Rightarrow> 'l keyed_limiter"

type_synonym ('r, 't, 'a, 'l) http_handler =
  "gin_context \<times> ('r, 't, 'a, 'l) server \<Rightarrow> gin_context \<times> ('r, 't, 'a, 'l) server"

definition on_world ::
  "(('r, 't, 'a) world \<Rightarrow> 'x \<times> ('r, 't, 'a) world) \<Rightarrow> ('r, 't, 'a, 'l) server \<Rightarrow> 'x \<times> ('r, 't, 'a, 'l) server" where
  "on_world f s = (case f (srv_world s) of (x, w) \<Rightarrow> (x, s\<lparr>srv_world := w\<rparr>))"

subsection \<open>Middleware\<close>

text \<open>\<^verbatim>\<open>middleware/security_headers.go\<close> and \<^verbatim>\<open>middleware/cors.go\<close>.\<close>

definition security_headers :: "(string \<times> string) list" where
  "security_headers =
    [(''X-Content-Type-Options'', ''nosniff''),
     (''X-Frame-Options'', ''DENY''),
     (''Strict-Transport-Security'', ''max-age=63072000; includeSubDomains''),
     (''X-XSS-Protection'', ''0''),
     (''Referrer-Policy'', ''strict-origin-when-cross-origin''),
     (''Content-Security-Policy'', ''default-src 'none'; frame-ancestors 'none'' @ [CHR 0x27]),
     (''Permissions-Policy'', ''geolocation=(), microphone=(), camera=()'')]"

definition SecurityHeaders :: "('r, 't, 'a, 'l) http_handler \<Rightarrow> ('r, 't, 'a, 'l) http_handler" where
  "SecurityHeaders next p = (case p of (c, s) \<Rightarrow> next (fold (\<lambda>(k, v). gin_Header k v) security_headers c, s))"

definition CORS :: "string list \<Rightarrow> ('r, 't, 'a, 'l) http_handler \<Rightarrow> ('r, 't, 'a, 'l) http_handler" where
  "CORS allowedOrigins next p =
    (case p of (c, s) \<Rightarrow>
      let origin = gin_GetHeader ''Origin'' c;
          c = (if origin \<in> set allowedOrigins then
                 gin_Header ''Vary'' ''Origin''
                   (gin_Header ''Access-Control-Allow-Headers'' ''Authorization, Content-Type''
                     (gin_Header ''Access-Control-Allow-Methods'' ''GET, POST, PUT, DELETE, OPTIONS''
                       (gin_Header ''Access-Control-Allow-Credentials'' ''true''
                         (gin_Header ''Access-Control-Allow-Origin'' origin c))))
               else c)
      in if rq_method (gc_request c) = ''OPTIONS'' then (c\<lparr>gc_status := 204\<rparr>, s) else next (c, s))"

text \<open>\<^verbatim>\<open>middleware/rate_limit.go\<close>: a limiter of the router is asked for a key.\<close>

definition limiter_asks :: "'l rate_lib \<Rightarrow> limiter_slot \<Rightarrow> string \<Rightarrow> ('r, 't, 'a, 'l) server \<Rightarrow> bool \<times> ('r, 't, 'a, 'l) server" where
  "limiter_asks L slot key s =
    (case kl_hit L key (sources (srv_world s), srv_limiter s slot) of (ok, g, l) \<Rightarrow>
      (ok, s\<lparr>srv_world := (srv_world s)\<lparr>sources := g\<rparr>, srv_limiter := (srv_limiter s)(slot := l)\<rparr>))"

definition tooManyRequests :: "gin_lib \<Rightarrow> ('r, 't, 'a, 'l) http_handler" where
  "tooManyRequests G p =
    (case p of (c, s) \<Rightarrow> case on_world (on_gen time_now) s of (now, s) \<Rightarrow>
      (gin_JSON 429 (ErrorBody ''rate limit exceeded'') (gin_Header ''Retry-After'' (gin_time G (now + 10 ^ 9)) c), s))"

definition RateLimit ::
  "gin_lib \<Rightarrow> 'l rate_lib \<Rightarrow> limiter_slot \<Rightarrow> ('r, 't, 'a, 'l) http_handler \<Rightarrow> ('r, 't, 'a, 'l) http_handler" where
  "RateLimit G L slot next p =
    (case p of (c, s) \<Rightarrow> case limiter_asks L slot (rq_client_ip (gc_request c)) s of (ok, s) \<Rightarrow>
      if \<not> ok then tooManyRequests G (c, s) else next (c, s))"

definition GetClaims :: "gin_context \<Rightarrow> access_token_claims option" where
  "GetClaims c = gc_user c"

definition UserRateLimit ::
  "gin_lib \<Rightarrow> uuid_lib \<Rightarrow> 'l rate_lib \<Rightarrow> limiter_slot \<Rightarrow> ('r, 't, 'a, 'l) http_handler \<Rightarrow> ('r, 't, 'a, 'l) http_handler" where
  "UserRateLimit G U L slot next p =
    (case p of (c, s) \<Rightarrow>
      case GetClaims c of
        None \<Rightarrow> next (c, s)
      | Some claims \<Rightarrow>
          (case limiter_asks L slot (uuid_String U (claim_user_id claims)) s of (ok, s) \<Rightarrow>
            if \<not> ok then tooManyRequests G (c, s) else next (c, s)))"

text \<open>\<^verbatim>\<open>middleware/auth.go\<close>. A panic of the repository or the token service would end the chain.\<close>

definition gin_panic :: "gin_context \<Rightarrow> gin_context" where
  "gin_panic c = c\<lparr>gc_status := 500, gc_body := NoBody\<rparr>"

definition RequireAuth ::
  "'t token_service \<Rightarrow> 'r user_repository \<Rightarrow> ('r, 't, 'a, 'l) http_handler \<Rightarrow> ('r, 't, 'a, 'l) http_handler" where
  "RequireAuth T R next p =
    (case p of (c, s) \<Rightarrow>
      let header = gin_GetHeader ''Authorization'' c in
      if \<not> has_prefix header ''Bearer '' then (gin_JSON 401 (ErrorBody ''missing token'') c, s)
      else let token = trim_prefix header ''Bearer '' in
        case on_world (on_gen (ValidateAccessToken T token)) s of
          (Inl e, s) \<Rightarrow> (if e = RuntimePanic then gin_panic c else gin_JSON 401 (ErrorBody ''invalid token'') c, s)
        | (Inr claims, s) \<Rightarrow>
            (case on_world (on_repo (FindByID R (claim_user_id claims))) s of
               (Inl e, s) \<Rightarrow> (if e = RuntimePanic then gin_panic c else gin_JSON 401 (ErrorBody ''user not found'') c, s)
             | (Inr user, s) \<Rightarrow>
                 if \<not> usr_is_active (user_at user (srv_world s))
                 then (gin_JSON 403 (ErrorBody ''account is inactive'') c, s)
                 else next (c\<lparr>gc_user := Some claims\<rparr>, s)))"

subsection \<open>Errors\<close>

text \<open>\<^verbatim>\<open>domainStatus\<close> of \<^verbatim>\<open>handler/auth_handler.go\<close>, and the reply of a handler whose use case failed.\<close>

fun domainStatus :: "error \<Rightarrow> nat" where
  "domainStatus ErrInvalidEmail = 422"
| "domainStatus ErrInvalidPassword = 422"
| "domainStatus ErrInvalidName = 422"
| "domainStatus ErrInvalidRole = 422"
| "domainStatus ErrEmailAlreadyExists = 409"
| "domainStatus ErrUserNotFound = 404"
| "domainStatus ErrInvalidCredentials = 401"
| "domainStatus ErrTokenInvalid = 401"
| "domainStatus ErrAccountInactive = 403"
| "domainStatus ErrInsufficientPerms = 403"
| "domainStatus ErrServiceUnavailable = 503"
| "domainStatus _ = 500"

definition fail_with :: "error \<Rightarrow> gin_context \<Rightarrow> gin_context" where
  "fail_with e c =
    (if e = RuntimePanic then gin_panic c else gin_JSON (domainStatus e) (ErrorBody (error_message e)) c)"

definition answer :: "nat \<Rightarrow> ('x \<Rightarrow> response_body) \<Rightarrow> gin_context \<Rightarrow> (error + 'x) \<times> 's \<Rightarrow> gin_context \<times> 's" where
  "answer code body c r =
    (case r of (Inl e, s) \<Rightarrow> (fail_with e c, s) | (Inr out, s) \<Rightarrow> (gin_JSON code (body out) c, s))"

subsection \<open>The authentication handlers\<close>

record ('r, 't, 'a) auth_handler =
  ah_register :: "register_input \<Rightarrow> ('r, 't, 'a) world \<Rightarrow> (error + auth_output) \<times> ('r, 't, 'a) world"
  ah_login :: "login_input \<Rightarrow> ('r, 't, 'a) world \<Rightarrow> (error + auth_output) \<times> ('r, 't, 'a) world"
  ah_refresh :: "refresh_input \<Rightarrow> ('r, 't, 'a) world \<Rightarrow> (error + auth_output) \<times> ('r, 't, 'a) world"

definition auth_Register :: "gin_lib \<Rightarrow> ('r, 't, 'a) auth_handler \<Rightarrow> ('r, 't, 'a, 'l) http_handler" where
  "auth_Register G h p =
    (case p of (c, s) \<Rightarrow>
      case gin_bind G [''email'', ''password'', ''name''] (rq_body (gc_request c)) of
        Inl e \<Rightarrow> (gin_JSON 400 (ErrorBody (error_message e)) c, s)
      | Inr req \<Rightarrow>
          answer 201 AuthBody c
            (on_world (ah_register h \<lparr>reg_email = req ! 0, reg_password = req ! 1, reg_name = req ! 2\<rparr>) s))"

definition auth_Login :: "gin_lib \<Rightarrow> ('r, 't, 'a) auth_handler \<Rightarrow> ('r, 't, 'a, 'l) http_handler" where
  "auth_Login G h p =
    (case p of (c, s) \<Rightarrow>
      case gin_bind G [''email'', ''password''] (rq_body (gc_request c)) of
        Inl e \<Rightarrow> (gin_JSON 400 (ErrorBody (error_message e)) c, s)
      | Inr req \<Rightarrow>
          answer 200 AuthBody c (on_world (ah_login h \<lparr>login_email = req ! 0, login_password = req ! 1\<rparr>) s))"

definition auth_Refresh :: "gin_lib \<Rightarrow> ('r, 't, 'a) auth_handler \<Rightarrow> ('r, 't, 'a, 'l) http_handler" where
  "auth_Refresh G h p =
    (case p of (c, s) \<Rightarrow>
      case gin_bind G [''refresh_token''] (rq_body (gc_request c)) of
        Inl e \<Rightarrow> (gin_JSON 400 (ErrorBody (error_message e)) c, s)
      | Inr req \<Rightarrow> answer 200 AuthBody c (on_world (ah_refresh h \<lparr>in_refresh_token = req ! 0\<rparr>) s))"

subsection \<open>strconv.ParseInt in base 10 at 32 bits\<close>

definition digit_of :: "char \<Rightarrow> nat option" where
  "digit_of c = (let n = of_char c :: nat in if 48 \<le> n \<and> n \<le> 57 then Some (n - 48) else None)"

fun parse_digits :: "nat \<Rightarrow> string \<Rightarrow> nat option" where
  "parse_digits n [] = Some n"
| "parse_digits n (c # s) = (case digit_of c of None \<Rightarrow> None | Some d \<Rightarrow> parse_digits (10 * n + d) s)"

definition parse_int32 :: "string \<Rightarrow> int option" where
  "parse_int32 s =
    (let neg = (s \<noteq> [] \<and> hd s = CHR ''-'');
         ds = (if s \<noteq> [] \<and> (hd s = CHR ''-'' \<or> hd s = CHR ''+'') then tl s else s)
     in if ds = [] then None
        else case parse_digits 0 ds of
          None \<Rightarrow> None
        | Some n \<Rightarrow>
            if \<not> neg \<and> 2 ^ 31 \<le> n \<or> neg \<and> 2 ^ 31 < n then None
            else Some (if neg then - int n else int n))"

definition query_int32 :: "string \<Rightarrow> gin_context \<Rightarrow> 32 word option" where
  "query_int32 k c =
    (if gin_Query k c = '''' then Some 0 else map_option word_of_int (parse_int32 (gin_Query k c)))"

subsection \<open>The user handlers\<close>

record ('r, 't, 'a) user_handler =
  uh_getUser :: "uuid \<Rightarrow> role \<Rightarrow> uuid \<Rightarrow> ('r, 't, 'a) world \<Rightarrow> (error + user_output) \<times> ('r, 't, 'a) world"
  uh_listUsers :: "role \<Rightarrow> list_users_input \<Rightarrow> ('r, 't, 'a) world \<Rightarrow> (error + list_users_output) \<times> ('r, 't, 'a) world"
  uh_updateProfile :: "uuid \<Rightarrow> string \<Rightarrow> ('r, 't, 'a) world \<Rightarrow> (error + user_output) \<times> ('r, 't, 'a) world"
  uh_changePassword :: "uuid \<Rightarrow> change_password_input \<Rightarrow> ('r, 't, 'a) world \<Rightarrow> (error + unit) \<times> ('r, 't, 'a) world"
  uh_changeRole :: "uuid \<Rightarrow> uuid \<Rightarrow> role \<Rightarrow> ('r, 't, 'a) world \<Rightarrow> (error + user_output) \<times> ('r, 't, 'a) world"

definition with_claims ::
  "(access_token_claims \<Rightarrow> ('r, 't, 'a, 'l) http_handler) \<Rightarrow> ('r, 't, 'a, 'l) http_handler" where
  "with_claims f p =
    (case p of (c, s) \<Rightarrow> case GetClaims c of
       None \<Rightarrow> (gin_JSON 401 (ErrorBody ''unauthorized'') c, s)
     | Some claims \<Rightarrow> f claims (c, s))"

definition user_GetMe :: "('r, 't, 'a) user_handler \<Rightarrow> ('r, 't, 'a, 'l) http_handler" where
  "user_GetMe h = with_claims (\<lambda>claims (c, s).
     answer 200 UserBody c
       (on_world (uh_getUser h (claim_user_id claims) (claim_role claims) (claim_user_id claims)) s))"

definition user_GetUser :: "uuid_lib \<Rightarrow> ('r, 't, 'a) user_handler \<Rightarrow> ('r, 't, 'a, 'l) http_handler" where
  "user_GetUser U h = with_claims (\<lambda>claims (c, s).
     case uuid_Parse U (gin_Param ''id'' c) of
       None \<Rightarrow> (gin_JSON 400 (ErrorBody ''invalid user id'') c, s)
     | Some targetID \<Rightarrow>
         answer 200 UserBody c (on_world (uh_getUser h (claim_user_id claims) (claim_role claims) targetID) s))"

definition user_ListUsers :: "('r, 't, 'a) user_handler \<Rightarrow> ('r, 't, 'a, 'l) http_handler" where
  "user_ListUsers h = with_claims (\<lambda>claims (c, s).
     case query_int32 ''page'' c of
       None \<Rightarrow> (gin_JSON 400 (ErrorBody ''invalid page'') c, s)
     | Some page \<Rightarrow>
         (case query_int32 ''page_size'' c of
            None \<Rightarrow> (gin_JSON 400 (ErrorBody ''invalid page_size'') c, s)
          | Some pageSize \<Rightarrow>
              answer 200 UsersBody c
                (on_world (uh_listUsers h (claim_role claims) \<lparr>in_page = page, in_page_size = pageSize\<rparr>) s)))"

definition user_UpdateMe :: "gin_lib \<Rightarrow> ('r, 't, 'a) user_handler \<Rightarrow> ('r, 't, 'a, 'l) http_handler" where
  "user_UpdateMe G h = with_claims (\<lambda>claims (c, s).
     case gin_bind G [''name''] (rq_body (gc_request c)) of
       Inl e \<Rightarrow> (gin_JSON 400 (ErrorBody (error_message e)) c, s)
     | Inr req \<Rightarrow> answer 200 UserBody c (on_world (uh_updateProfile h (claim_user_id claims) (req ! 0)) s))"

definition user_ChangePassword :: "gin_lib \<Rightarrow> ('r, 't, 'a) user_handler \<Rightarrow> ('r, 't, 'a, 'l) http_handler" where
  "user_ChangePassword G h = with_claims (\<lambda>claims (c, s).
     case gin_bind G [''current_password'', ''new_password''] (rq_body (gc_request c)) of
       Inl e \<Rightarrow> (gin_JSON 400 (ErrorBody (error_message e)) c, s)
     | Inr req \<Rightarrow>
         answer 204 (\<lambda>_. NoBody) c
           (on_world (uh_changePassword h (claim_user_id claims)
              \<lparr>current_password = req ! 0, new_password = req ! 1\<rparr>) s))"

definition user_ChangeRole :: "gin_lib \<Rightarrow> uuid_lib \<Rightarrow> ('r, 't, 'a) user_handler \<Rightarrow> ('r, 't, 'a, 'l) http_handler" where
  "user_ChangeRole G U h = with_claims (\<lambda>claims (c, s).
     if claim_role claims \<noteq> RoleOwner then (gin_JSON 403 (ErrorBody ''insufficient permissions'') c, s)
     else case uuid_Parse U (gin_Param ''id'' c) of
       None \<Rightarrow> (gin_JSON 400 (ErrorBody ''invalid user id'') c, s)
     | Some targetID \<Rightarrow>
         (case gin_bind G [''role''] (rq_body (gc_request c)) of
            Inl e \<Rightarrow> (gin_JSON 400 (ErrorBody (error_message e)) c, s)
          | Inr req \<Rightarrow>
              (case parse_role (req ! 0) of
                 Inl e \<Rightarrow> (fail_with e c, s)
               | Inr role \<Rightarrow>
                   answer 200 UserBody c (on_world (uh_changeRole h (claim_user_id claims) targetID role) s))))"

subsection \<open>Health\<close>

text \<open>A \<^verbatim>\<open>Pinger\<close> acts on the world, whose token state holds the connection to Redis.\<close>

type_synonym ('r, 't, 'a) pinger = "('r, 't, 'a) world \<Rightarrow> error option \<times> ('r, 't, 'a) world"

record ('r, 't, 'a) health_handler =
  hh_redis :: "('r, 't, 'a) pinger"
  hh_database :: "('r, 't, 'a) pinger option"

definition health_Health :: "('r, 't, 'a, 'l) http_handler" where
  "health_Health p = (case p of (c, s) \<Rightarrow> (gin_JSON 200 (StatusBody ''ok'' []) c, s))"

definition health_Ready :: "('r, 't, 'a) health_handler \<Rightarrow> ('r, 't, 'a, 'l) http_handler" where
  "health_Ready h p =
    (case p of (c, s) \<Rightarrow>
      case on_world (hh_redis h) s of (e, s) \<Rightarrow>
        let checks = [(''redis'', if e = None then ''ok'' else ''error'')]; ready = (e = None) in
        case (case hh_database h of
                None \<Rightarrow> ((checks, ready), s)
              | Some db \<Rightarrow> (case on_world db s of (e, s) \<Rightarrow>
                  (((''postgres'', if e = None then ''ok'' else ''error'') # checks, ready \<and> e = None), s))) of
          ((checks, ready), s) \<Rightarrow>
            (gin_JSON (if ready then 200 else 503) (StatusBody (if ready then ''ready'' else ''not_ready'') checks) c, s))"

subsection \<open>The router\<close>

record ('r, 't, 'a, 'l) http_env =
  he_gin :: gin_lib
  he_uuid :: uuid_lib
  he_rate :: "'l rate_lib"
  he_auth :: "('r, 't, 'a) auth_handler"
  he_users :: "('r, 't, 'a) user_handler"
  he_health :: "('r, 't, 'a) health_handler"
  he_tokens :: "'t token_service"
  he_repo :: "'r user_repository"
  he_origins :: "string list"

definition routes :: "('r, 't, 'a, 'l) http_env \<Rightarrow> (string \<times> string \<times> ('r, 't, 'a, 'l) http_handler) list" where
  "routes E =
    (let G = he_gin E; U = he_uuid E; L = he_rate E;
         limited = RateLimit G L AuthLimit;
         protected = RequireAuth (he_tokens E) (he_repo E) in
     [(''GET'', ''/health'', health_Health),
      (''GET'', ''/ready'', health_Ready (he_health E)),
      (''GET'', ''/metrics'', \<lambda>(c, s). (gin_JSON 200 (TextBody (gin_metrics G)) c, s)),
      (''POST'', ''/v1/auth/register'', limited (auth_Register G (he_auth E))),
      (''POST'', ''/v1/auth/login'', limited (auth_Login G (he_auth E))),
      (''POST'', ''/v1/auth/refresh'', limited (auth_Refresh G (he_auth E))),
      (''GET'', ''/v1/users/me'', protected (user_GetMe (he_users E))),
      (''PUT'', ''/v1/users/me'', protected (user_UpdateMe G (he_users E))),
      (''PUT'', ''/v1/users/me/password'',
         protected (UserRateLimit G U L PasswordLimit (user_ChangePassword G (he_users E)))),
      (''GET'', ''/v1/users'', protected (user_ListUsers (he_users E))),
      (''GET'', ''/v1/users/:id'', protected (user_GetUser U (he_users E))),
      (''PUT'', ''/v1/users/:id/role'',
         protected (UserRateLimit G U L RoleLimit (user_ChangeRole G U (he_users E))))])"

definition new_limiters :: "limiter_slot \<Rightarrow> 'l keyed_limiter" where
  "new_limiters slot = (case slot of IpLimit \<Rightarrow> newKeyedLimiter 100 20 | AuthLimit \<Rightarrow> newKeyedLimiter 10 5
     | PasswordLimit \<Rightarrow> newKeyedLimiter 5 5 | RoleLimit \<Rightarrow> newKeyedLimiter 5 5)"

definition gin_chain :: "('r, 't, 'a, 'l) http_env \<Rightarrow> ('r, 't, 'a, 'l) http_handler \<Rightarrow> ('r, 't, 'a, 'l) http_handler" where
  "gin_chain E h = SecurityHeaders (CORS (he_origins E) (RateLimit (he_gin E) (he_rate E) IpLimit h))"

definition http_handle ::
  "('r, 't, 'a, 'l) http_env \<Rightarrow> http_request \<Rightarrow> ('r, 't, 'a, 'l) server \<Rightarrow> gin_context \<times> ('r, 't, 'a, 'l) server" where
  "http_handle E rq s =
    (let c = \<lparr>gc_request = rq, gc_params = [], gc_user = None, gc_status = 200, gc_header = [], gc_body = NoBody\<rparr> in
     case gin_route (he_gin E) (map (\<lambda>(m, p, _). (m, p)) (routes E)) (rq_method rq) (rq_path rq) of
       Redirected code loc \<Rightarrow> (c\<lparr>gc_status := code, gc_header := [(''Location'', loc)]\<rparr>, s)
     | Matched i ps \<Rightarrow> gin_chain E (snd (snd (routes E ! i))) (c\<lparr>gc_params := ps\<rparr>, s)
     | Unmatched \<Rightarrow> gin_chain E (\<lambda>(c, s). (gin_JSON 404 (TextBody ''404 page not found'') c, s)) (c, s))"

subsection \<open>Wiring\<close>

text \<open>
  \<^verbatim>\<open>main\<close> builds the use cases on the adapters it chose, the handlers on the use cases and the
  router on the handlers. \<open>redis_ping\<close> is \<^verbatim>\<open>RedisPinger\<close>: one command, outside the breaker.
\<close>

definition redis_ping :: "('r, 'db redis_conn, 'a) pinger" where
  "redis_ping w =
    (case round_trip (\<lambda>t db. (Inr (), db)) (tokens w) of (x, c) \<Rightarrow>
      ((case x of Inl e \<Rightarrow> Some e | Inr _ \<Rightarrow> None), w\<lparr>tokens := c\<rparr>))"

definition main_auth_handler ::
  "(nat \<Rightarrow> nat) \<Rightarrow> 'r user_repository \<Rightarrow> password_hasher \<Rightarrow> 't token_service \<Rightarrow> 'a audit_port \<Rightarrow> ('r, 't, 'a) auth_handler" where
  "main_auth_handler lo R H T A =
    \<lparr>ah_register = register_execute lo R H T A, ah_login = login_execute lo R H T A, ah_refresh = refresh_execute R T A\<rparr>"

definition main_user_handler ::
  "'r user_repository \<Rightarrow> password_hasher \<Rightarrow> 'a audit_port \<Rightarrow> ('r, 't, 'a) user_handler" where
  "main_user_handler R H A =
    \<lparr>uh_getUser = get_user_execute R, uh_listUsers = list_users_execute R,
     uh_updateProfile = update_profile_execute R, uh_changePassword = change_password_execute R H A,
     uh_changeRole = change_role_execute R A\<rparr>"

definition main_router ::
  "gin_lib \<Rightarrow> uuid_lib \<Rightarrow> 'l rate_lib \<Rightarrow> (nat \<Rightarrow> nat) \<Rightarrow> 'r user_repository \<Rightarrow> password_hasher \<Rightarrow>
   't token_service \<Rightarrow> 'a audit_port \<Rightarrow> ('r, 't, 'a) pinger \<Rightarrow> ('r, 't, 'a) pinger option \<Rightarrow> string list \<Rightarrow>
   ('r, 't, 'a, 'l) http_env" where
  "main_router G U L lo R H T A redis dbPinger origins =
    \<lparr>he_gin = G, he_uuid = U, he_rate = L, he_auth = main_auth_handler lo R H T A,
     he_users = main_user_handler R H A, he_health = \<lparr>hh_redis = redis, hh_database = dbPinger\<rparr>,
     he_tokens = T, he_repo = R, he_origins = origins\<rparr>"

end
