(* ===== verification/HttpFlows.thy ===== *)
theory HttpFlows
  imports HttpLayer AccountFlows
begin

section \<open>What the HTTP interface guarantees\<close>

text \<open>
  Each request runs at most one use case, as a caller its token names, and answers with that use
  case's result: the interface refines the application of \<open>Application\<close>. Hence whose requests can change
  an account. The rates over whole runs of the server are in \<open>HttpRates\<close>, the headers in
  \<open>ConfigLoad\<close>.
\<close>

subsection \<open>The effect of one request\<close>

text \<open>
  \<open>quiet\<close>: only the sources of time advanced, and pointers were handed out. \<open>acts_as\<close>: a request of the
  application made for the holder of the given claims.
\<close>

definition quiet ::
  "(heap \<times> 'r \<Rightarrow> bool) \<Rightarrow> (heap \<times> 'r \<Rightarrow> uuid \<Rightarrow> user option) \<Rightarrow> (gen \<times> 't \<Rightarrow> bool) \<Rightarrow>
   (gen \<times> 't \<Rightarrow> string \<Rightarrow> bool) \<Rightarrow> ('r, 't, 'a) world \<Rightarrow> ('r, 't, 'a) world \<Rightarrow> bool" where
  "quiet rinv view tinv spent w w' \<longleftrightarrow> evolves rinv view tinv spent w w' \<and>
     stored view w' = stored view w \<and> tokens w' = tokens w \<and> audit w' = audit w"

primrec acts_as :: "request \<Rightarrow> access_token_claims \<Rightarrow> bool" where
  "acts_as (Register inp) cl \<longleftrightarrow> False"
| "acts_as (Login inp) cl \<longleftrightarrow> False"
| "acts_as (Refresh inp) cl \<longleftrightarrow> False"
| "acts_as (GetUser c r i) cl \<longleftrightarrow> c = claim_user_id cl \<and> r = claim_role cl"
| "acts_as (ListUsers r inp) cl \<longleftrightarrow> r = claim_role cl"
| "acts_as (UpdateProfile i n) cl \<longleftrightarrow> i = claim_user_id cl"
| "acts_as (ChangePassword i inp) cl \<longleftrightarrow> i = claim_user_id cl"
| "acts_as (ChangeRole c i r) cl \<longleftrightarrow> c = claim_user_id cl \<and> claim_role cl = RoleOwner"

primrec public_request :: "request \<Rightarrow> bool" where
  "public_request (Register inp) \<longleftrightarrow> True"
| "public_request (Login inp) \<longleftrightarrow> True"
| "public_request (Refresh inp) \<longleftrightarrow> True"
| "public_request (GetUser c r i) \<longleftrightarrow> False"
| "public_request (ListUsers r inp) \<longleftrightarrow> False"
| "public_request (UpdateProfile i n) \<longleftrightarrow> False"
| "public_request (ChangePassword i inp) \<longleftrightarrow> False"
| "public_request (ChangeRole c i r) \<longleftrightarrow> False"

text \<open>The bearer token is valid at some moment of the request and its account is active.\<close>

definition bearer_of :: "'t token_service \<Rightarrow> ('r, 't, 'a) world \<Rightarrow> http_request \<Rightarrow> access_token_claims \<Rightarrow> bool" where
  "bearer_of T w rq cl \<longleftrightarrow> (\<exists>tok g g'. map_of (rq_header rq) ''Authorization'' = Some (''Bearer '' @ tok) \<and>
     gen_later (sources w) g \<and> ValidateAccessToken T tok g = (Inr cl, g'))"

definition active_account ::
  "(heap \<times> 'r \<Rightarrow> uuid \<Rightarrow> user option) \<Rightarrow> ('r, 't, 'a) world \<Rightarrow> uuid \<Rightarrow> bool" where
  "active_account view w i \<longleftrightarrow> (\<exists>u. stored view w i = Some u \<and> usr_is_active u)"

definition error_reply :: "error \<Rightarrow> nat \<times> response_body" where
  "error_reply e = (if e = RuntimePanic then (500, NoBody) else (domainStatus e, ErrorBody (error_message e)))"

definition http_reply :: "request \<Rightarrow> response \<Rightarrow> nat \<times> response_body" where
  "http_reply r rs = (case rs of
      Auth (Inr out) \<Rightarrow> (case r of Register _ \<Rightarrow> 201 | _ \<Rightarrow> 200, AuthBody out)
    | Profile (Inr out) \<Rightarrow> (200, UserBody out)
    | Users (Inr out) \<Rightarrow> (200, UsersBody out)
    | Done (Inr _) \<Rightarrow> (204, NoBody)
    | Auth (Inl e) \<Rightarrow> error_reply e | Profile (Inl e) \<Rightarrow> error_reply e
    | Users (Inl e) \<Rightarrow> error_reply e | Done (Inl e) \<Rightarrow> error_reply e)"

definition data_body :: "response_body \<Rightarrow> bool" where
  "data_body b \<longleftrightarrow> (case b of AuthBody _ \<Rightarrow> True | UserBody _ \<Rightarrow> True | UsersBody _ \<Rightarrow> True | _ \<Rightarrow> False)"

text \<open>\<open>ran\<close>: the request ran the use case \<open>r\<close>, after quiet steps.\<close>

definition ran ::
  "(nat \<Rightarrow> nat) \<Rightarrow> 'r user_repository \<Rightarrow> password_hasher \<Rightarrow> 't token_service \<Rightarrow> 'a audit_port \<Rightarrow>
   (('r, 't, 'a) world \<Rightarrow> ('r, 't, 'a) world \<Rightarrow> bool) \<Rightarrow> (heap \<times> 'r \<Rightarrow> uuid \<Rightarrow> user option) \<Rightarrow>
   ('r, 't, 'a) world \<Rightarrow> http_request \<Rightarrow> request \<Rightarrow> gin_context \<Rightarrow> ('r, 't, 'a) world \<Rightarrow> bool" where
  "ran lo R H T A q view w rq r c w' \<longleftrightarrow> (\<exists>w1 rs. q w w1 \<and> serve lo R H T A r w1 = (rs, w') \<and>
     (gc_status c, gc_body c) = http_reply r rs \<and>
     (public_request r \<or> (\<exists>cl. acts_as r cl \<and> bearer_of T w rq cl \<and> active_account view w (claim_user_id cl))))"

text \<open>A probe of Redis and the database leaves accounts and audit log alone.\<close>

definition untouched ::
  "(heap \<times> 'r \<Rightarrow> bool) \<Rightarrow> (heap \<times> 'r \<Rightarrow> uuid \<Rightarrow> user option) \<Rightarrow> (gen \<times> 't \<Rightarrow> bool) \<Rightarrow>
   (gen \<times> 't \<Rightarrow> string \<Rightarrow> bool) \<Rightarrow> ('r, 't, 'a) world \<Rightarrow> ('r, 't, 'a) world \<Rightarrow> bool" where
  "untouched rinv view tinv spent w w' \<longleftrightarrow> evolves rinv view tinv spent w w' \<and>
     stored view w' = stored view w \<and> audit w' = audit w"

definition pinged :: "gin_context \<Rightarrow> bool" where
  "pinged c \<longleftrightarrow> (\<exists>ready checks. gc_body c = StatusBody ready checks)"

subsection \<open>Limiters and quiet steps\<close>

lemma kl_hit_gen: "kl_hit L key (g, l) = (ok, g', l') \<Longrightarrow> g' = g\<lparr>clock_pos := clock_pos g + 2\<rparr>"
  by (auto simp: kl_hit_def kl_get_def limiter_allow_def time_now_def split: option.splits prod.splits)

lemma limiter_asks_sources:
  assumes "limiter_asks L slot key s = (ok, s')"
  shows "srv_world s' = (srv_world s)\<lparr>sources := (sources (srv_world s))\<lparr>clock_pos := clock_pos (sources (srv_world s)) + 2\<rparr>\<rparr>"
  using assms kl_hit_gen by (fastforce simp: limiter_asks_def split: prod.splits)

context application
begin

abbreviation quietly where "quietly \<equiv> quiet rinv view tinv spent"

lemma quiet_refl: "app_inv rinv view tinv w \<Longrightarrow> quietly w w"
  by (simp add: quiet_def evolves_refl)

lemma quiet_trans: "quietly w w1 \<Longrightarrow> quietly w1 w2 \<Longrightarrow> quietly w w2"
  unfolding quiet_def using evolves_trans by metis

lemma quiet_inv: "quietly w w1 \<Longrightarrow> app_inv rinv view tinv w1"
  by (auto simp: quiet_def dest: evolves_inv)

lemma quiet_sources: "quietly w w1 \<Longrightarrow> gen_later (sources w) (sources w1)"
  by (simp add: quiet_def evolves_def)

lemma quiet_gen:
  assumes "quietly w w1" "gen_later (sources w1) g"
  shows "quietly w (w1\<lparr>sources := g\<rparr>)"
  using quiet_trans [OF assms(1), of "w1\<lparr>sources := g\<rparr>"] gen_step [OF quiet_inv [OF assms(1)] assms(2)]
  by (simp add: quiet_def)

lemma quiet_asks:
  assumes "quietly w (srv_world s)" "limiter_asks L slot key s = (ok, s')"
  shows "quietly w (srv_world s')"
  unfolding limiter_asks_sources [OF assms(2)] by (rule quiet_gen [OF assms(1)]) (simp add: gen_later_def)

lemma quiet_too_many:
  assumes "quietly w (srv_world s)" "tooManyRequests G (c, s) = (c', s')"
  shows "quietly w (srv_world s') \<and> gc_body c' = ErrorBody ''rate limit exceeded'' \<and> gc_status c' = 429"
  using assms(2) quiet_gen [OF assms(1)] gen_later_draw(1)
  by (auto simp: tooManyRequests_def on_world_def on_gen_eq gin_JSON_def gin_Header_def split: prod.splits)

end

subsection \<open>The middleware and the handlers\<close>

text \<open>What one request may amount to.\<close>

definition outcome ::
  "(nat \<Rightarrow> nat) \<Rightarrow> 'r user_repository \<Rightarrow> password_hasher \<Rightarrow> 't token_service \<Rightarrow> 'a audit_port \<Rightarrow>
   (heap \<times> 'r \<Rightarrow> bool) \<Rightarrow> (heap \<times> 'r \<Rightarrow> uuid \<Rightarrow> user option) \<Rightarrow> (gen \<times> 't \<Rightarrow> bool) \<Rightarrow> (gen \<times> 't \<Rightarrow> string \<Rightarrow> bool) \<Rightarrow>
   ('r, 't, 'a) world \<Rightarrow> http_request \<Rightarrow> gin_context \<times> ('r, 't, 'a, 'l) server \<Rightarrow> bool" where
  "outcome lo R H T A rinv view tinv spent w rq p \<longleftrightarrow> (case p of (c, s') \<Rightarrow>
     (quiet rinv view tinv spent w (srv_world s') \<and> \<not> data_body (gc_body c)) \<or>
     (untouched rinv view tinv spent w (srv_world s') \<and> pinged c) \<or>
     (\<exists>r. ran lo R H T A (quiet rinv view tinv spent) view w rq r c (srv_world s')))"

context application
begin

abbreviation outcomes where "outcomes A \<equiv> outcome lo R H T A rinv view tinv spent"

lemma outcome_quiet:
  "quietly w (srv_world s) \<Longrightarrow> \<not> data_body (gc_body c) \<Longrightarrow> outcomes A w rq (c, s)"
  by (simp add: outcome_def)

lemma outcome_too_many:
  assumes "quietly w (srv_world s)"
  shows "outcomes A w rq (tooManyRequests G (c, s))"
proof -
  obtain c' s' where "tooManyRequests G (c, s) = (c', s')" by fastforce
  with quiet_too_many [OF assms this] show ?thesis by (simp add: outcome_quiet data_body_def)
qed

lemma outcome_rate_limit:
  assumes "quietly w (srv_world s)" "\<And>s1. quietly w (srv_world s1) \<Longrightarrow> outcomes A w rq (next (c, s1))"
  shows "outcomes A w rq (RateLimit G L slot next (c, s))"
  using assms(2)
  by (auto simp: RateLimit_def intro!: outcome_too_many quiet_asks [OF assms(1)] split: prod.splits)

lemma outcome_user_rate_limit:
  assumes "quietly w (srv_world s)" "\<And>s1. quietly w (srv_world s1) \<Longrightarrow> outcomes A w rq (next (c, s1))"
  shows "outcomes A w rq (UserRateLimit G U L slot next (c, s))"
  using assms
  by (auto simp: UserRateLimit_def intro!: outcome_too_many quiet_asks [OF assms(1)] split: prod.splits option.splits)

lemma quiet_on_gen:
  assumes "quietly w (srv_world s)" "on_world (on_gen f) s = (x, s')"
    "\<And>x g'. f (sources (srv_world s)) = (x, g') \<Longrightarrow> gen_later (sources (srv_world s)) g'"
  shows "quietly w (srv_world s') \<and> fst (f (sources (srv_world s))) = x"
  using assms quiet_gen [OF assms(1)] by (auto simp: on_world_def on_gen_eq split: prod.splits)

lemma quiet_find_by_id:
  assumes "quietly w (srv_world s)" "on_world (on_repo (FindByID R i)) s = (x, s')"
  shows "quietly w (srv_world s') \<and> (case x of Inr a \<Rightarrow> stored view w i = Some (user_at a (srv_world s')) | Inl e \<Rightarrow> True)"
proof -
  obtain w1 where w1: "on_repo (FindByID R i) (srv_world s) = (x, w1)" "srv_world s' = w1"
    using assms(2) by (auto simp: on_world_def split: prod.splits)
  note f = find_by_id_step [OF quiet_inv [OF assms(1)] w1(1)]
  then have "quietly (srv_world s) w1" by (simp add: quiet_def)
  then show ?thesis using quiet_trans [OF assms(1)] f w1(2) assms(1) by (auto simp: quiet_def split: sum.splits)
qed

lemma outcome_require_auth:
  assumes "quietly w (srv_world s)" "gc_request c = rq"
    "\<And>s1 cl. quietly w (srv_world s1) \<Longrightarrow> bearer_of T w rq cl \<Longrightarrow> active_account view w (claim_user_id cl) \<Longrightarrow>
       outcomes A w rq (next (c\<lparr>gc_user := Some cl\<rparr>, s1))"
  shows "outcomes A w rq (RequireAuth T R next (c, s))"
proof (cases "has_prefix (gin_GetHeader ''Authorization'' c) ''Bearer ''")
  case False
  then show ?thesis using assms(1) by (simp add: RequireAuth_def Let_def outcome_quiet gin_JSON_def data_body_def)
next
  case True
  then obtain tok where tok: "gin_GetHeader ''Authorization'' c = ''Bearer '' @ tok"
    by (auto simp: has_prefix_def starts_with_iff)
  then have h: "map_of (rq_header rq) ''Authorization'' = Some (''Bearer '' @ tok)"
    using assms(2) by (auto simp: gin_GetHeader_def or_empty_def split: option.splits)
  obtain x s1 where v: "on_world (on_gen (ValidateAccessToken T tok)) s = (x, s1)" by fastforce
  have q1: "quietly w (srv_world s1)" and x: "fst (ValidateAccessToken T tok (sources (srv_world s))) = x"
    using quiet_on_gen [OF assms(1) v] validate_law [where x = tok] by blast+
  have "trim_prefix (gin_GetHeader ''Authorization'' c) ''Bearer '' = tok"
    unfolding tok by (rule trim_prefix_append)
  note run = RequireAuth_def Let_def True this v
  show ?thesis
  proof (cases x)
    case (Inl e)
    then show ?thesis using q1
      by (simp add: run outcome_quiet gin_JSON_def gin_panic_def data_body_def)
  next
    case (Inr cl)
    have b: "bearer_of T w rq cl"
      using h quiet_sources [OF assms(1)] x Inr unfolding bearer_of_def by (metis prod.collapse)
    obtain y s2 where f: "on_world (on_repo (FindByID R (claim_user_id cl))) s1 = (y, s2)" by fastforce
    note F = quiet_find_by_id [OF q1 f]
    show ?thesis
    proof (cases y)
      case (Inl e)
      then show ?thesis using F Inr
        by (simp add: run f outcome_quiet gin_JSON_def gin_panic_def data_body_def)
    next
      case y: (Inr a)
      then show ?thesis using F Inr assms(3) [OF _ b]
        by (auto simp: run f outcome_quiet gin_JSON_def data_body_def active_account_def)
    qed
  qed
qed

text \<open>A use case of a handler, answered.\<close>

lemma outcome_answer:
  assumes "quietly w (srv_world s)" "\<And>v. serve lo R H T A r v = (con (fst (f v)), snd (f v))"
    "\<And>e. http_reply r (con (Inl e)) = error_reply e" "\<And>out. http_reply r (con (Inr out)) = (code, body out)"
    "public_request r \<or> (\<exists>cl. acts_as r cl \<and> bearer_of T w rq cl \<and> active_account view w (claim_user_id cl))"
  shows "outcomes A w rq (answer code body c (on_world f s))"
proof -
  obtain x w' where f: "f (srv_world s) = (x, w')" by fastforce
  have "ran lo R H T A quietly view w rq r (fst (answer code body c (on_world f s))) w'"
    unfolding ran_def using assms f
    by (intro exI [of _ "srv_world s"] exI [of _ "con x"])
      (auto simp: on_world_def answer_def fail_with_def error_reply_def gin_JSON_def gin_panic_def split: sum.splits)
  moreover have "srv_world (snd (answer code body c (on_world f s))) = w'"
    using f by (auto simp: on_world_def answer_def split: sum.splits)
  ultimately show ?thesis by (auto simp: outcome_def split: prod.splits)
qed

end

subsection \<open>Every route\<close>

text \<open>A pinger that leaves accounts and audit log alone.\<close>

definition harmless ::
  "(heap \<times> 'r \<Rightarrow> bool) \<Rightarrow> (heap \<times> 'r \<Rightarrow> uuid \<Rightarrow> user option) \<Rightarrow> (gen \<times> 't \<Rightarrow> bool) \<Rightarrow>
   (gen \<times> 't \<Rightarrow> string \<Rightarrow> bool) \<Rightarrow> ('r, 't, 'a) pinger \<Rightarrow> bool" where
  "harmless rinv view tinv spent P \<longleftrightarrow> (\<forall>w. app_inv rinv view tinv w \<longrightarrow> untouched rinv view tinv spent w (snd (P w)))"

context application
begin

lemma untouched_trans:
  "untouched rinv view tinv spent w w1 \<Longrightarrow> untouched rinv view tinv spent w1 w2 \<Longrightarrow> untouched rinv view tinv spent w w2"
  unfolding untouched_def using evolves_trans by metis

lemma untouched_ping:
  assumes "harmless rinv view tinv spent P" "untouched rinv view tinv spent w (srv_world s)" "on_world P s = (e, s')"
  shows "untouched rinv view tinv spent w (srv_world s')"
proof -
  have "app_inv rinv view tinv (srv_world s)" using assms(2) by (auto simp: untouched_def dest: evolves_inv)
  then have "untouched rinv view tinv spent (srv_world s) (snd (P (srv_world s)))"
    using assms(1) by (simp add: harmless_def)
  moreover have "srv_world s' = snd (P (srv_world s))" using assms(3) by (auto simp: on_world_def split: prod.splits)
  ultimately show ?thesis using untouched_trans [OF assms(2)] by simp
qed

lemma outcome_ready:
  assumes "quietly w (srv_world s)" "harmless rinv view tinv spent (hh_redis h)"
    "\<And>db. hh_database h = Some db \<Longrightarrow> harmless rinv view tinv spent db"
  shows "outcomes A w rq (health_Ready h (c, s))"
proof -
  have u: "untouched rinv view tinv spent w (srv_world s)" using assms(1) by (simp add: quiet_def untouched_def)
  obtain c' s' where r: "health_Ready h (c, s) = (c', s')" by fastforce
  have "untouched rinv view tinv spent w (srv_world s') \<and> pinged c'"
    using r untouched_ping [OF assms(2) u]
    by (cases "hh_database h")
      (auto simp: health_Ready_def Let_def gin_JSON_def pinged_def intro: untouched_ping [OF assms(3)] split: prod.splits)
  then show ?thesis using r by (simp add: outcome_def)
qed

lemma outcome_public:
  assumes "quietly w (srv_world s)"
  shows "outcomes A w rq (auth_Register G (main_auth_handler lo R H T A) (c, s))"
    "outcomes A w rq (auth_Login G (main_auth_handler lo R H T A) (c, s))"
    "outcomes A w rq (auth_Refresh G (main_auth_handler lo R H T A) (c, s))"
proof -
  have e: "\<not> data_body (ErrorBody m)" for m by (simp add: data_body_def)
  show "outcomes A w rq (auth_Register G (main_auth_handler lo R H T A) (c, s))"
    using e by (auto simp: auth_Register_def main_auth_handler_def gin_JSON_def tag_def http_reply_def
        intro!: outcome_quiet [OF assms] outcome_answer [OF assms, where con = Auth and r = "Register _"] split: sum.splits)
  show "outcomes A w rq (auth_Login G (main_auth_handler lo R H T A) (c, s))"
    using e by (auto simp: auth_Login_def main_auth_handler_def gin_JSON_def tag_def http_reply_def
        intro!: outcome_quiet [OF assms] outcome_answer [OF assms, where con = Auth and r = "Login _"] split: sum.splits)
  show "outcomes A w rq (auth_Refresh G (main_auth_handler lo R H T A) (c, s))"
    using e by (auto simp: auth_Refresh_def main_auth_handler_def gin_JSON_def tag_def http_reply_def
        intro!: outcome_quiet [OF assms] outcome_answer [OF assms, where con = Auth and r = "Refresh _"] split: sum.splits)
qed

lemma outcome_protected:
  assumes "quietly w (srv_world s)" "gc_user c = Some cl" "bearer_of T w rq cl" "active_account view w (claim_user_id cl)"
  shows "outcomes A w rq (user_GetMe (main_user_handler R H A) (c, s))"
    "outcomes A w rq (user_GetUser U (main_user_handler R H A) (c, s))"
    "outcomes A w rq (user_ListUsers (main_user_handler R H A) (c, s))"
    "outcomes A w rq (user_UpdateMe G (main_user_handler R H A) (c, s))"
    "outcomes A w rq (user_ChangePassword G (main_user_handler R H A) (c, s))"
    "outcomes A w rq (user_ChangeRole G U (main_user_handler R H A) (c, s))"
proof -
  note err = outcome_quiet [OF assms(1)]
  have e: "\<not> data_body (ErrorBody m)" "\<not> data_body NoBody" for m by (simp_all add: data_body_def)
  note base = with_claims_def GetClaims_def assms(2) main_user_handler_def gin_JSON_def fail_with_def gin_panic_def
    tag_def http_reply_def e
  note ans = outcome_answer [OF assms(1)]
  have who: "acts_as r cl \<Longrightarrow> public_request r \<or> (\<exists>cl. acts_as r cl \<and> bearer_of T w rq cl \<and> active_account view w (claim_user_id cl))" for r
    using assms(3,4) by blast
  show "outcomes A w rq (user_GetMe (main_user_handler R H A) (c, s))"
    by (auto simp: user_GetMe_def base intro!: ans [where con = Profile and r = "GetUser _ _ _"] who)
  show "outcomes A w rq (user_GetUser U (main_user_handler R H A) (c, s))"
    by (auto simp: user_GetUser_def base intro!: err ans [where con = Profile and r = "GetUser _ _ _"] who split: option.splits)
  show "outcomes A w rq (user_ListUsers (main_user_handler R H A) (c, s))"
    by (auto simp: user_ListUsers_def base intro!: err ans [where con = Users and r = "ListUsers _ _"] who split: option.splits)
  show "outcomes A w rq (user_UpdateMe G (main_user_handler R H A) (c, s))"
    by (auto simp: user_UpdateMe_def base intro!: err ans [where con = Profile and r = "UpdateProfile _ _"] who split: sum.splits)
  show "outcomes A w rq (user_ChangePassword G (main_user_handler R H A) (c, s))"
    by (auto simp: user_ChangePassword_def base intro!: err ans [where con = Done and r = "ChangePassword _ _"] who split: sum.splits)
  show "outcomes A w rq (user_ChangeRole G U (main_user_handler R H A) (c, s))"
    by (auto simp: user_ChangeRole_def base intro!: err ans [where con = Profile and r = "ChangeRole _ _ _"] who split: sum.splits option.splits)
qed

end

subsection \<open>The whole router\<close>

lemma gin_Header_simps [simp]:
  "gc_request (gin_Header k v c) = gc_request c" "gc_params (gin_Header k v c) = gc_params c"
  "gc_user (gin_Header k v c) = gc_user c" "gc_status (gin_Header k v c) = gc_status c"
  "gc_body (gin_Header k v c) = gc_body c"
  "gc_header (gin_Header k v c) = AList.update k v (gc_header c)"
  by (simp_all add: gin_Header_def)

text \<open>The context after \<^verbatim>\<open>SecurityHeaders\<close> and \<^verbatim>\<open>CORS\<close>.\<close>

definition prepared :: "('r, 't, 'a, 'l) http_env \<Rightarrow> gin_context \<Rightarrow> gin_context" where
  "prepared E c =
    (let c = fold (\<lambda>(k, v). gin_Header k v) security_headers c; origin = gin_GetHeader ''Origin'' c in
     if origin \<in> set (he_origins E) then
       gin_Header ''Vary'' ''Origin''
         (gin_Header ''Access-Control-Allow-Headers'' ''Authorization, Content-Type''
           (gin_Header ''Access-Control-Allow-Methods'' ''GET, POST, PUT, DELETE, OPTIONS''
             (gin_Header ''Access-Control-Allow-Credentials'' ''true''
               (gin_Header ''Access-Control-Allow-Origin'' origin c))))
     else c)"

lemma security_headers_keep [simp]:
  "gc_request (fold (\<lambda>(k, v). gin_Header k v) hs c) = gc_request c" "gc_body (fold (\<lambda>(k, v). gin_Header k v) hs c) = gc_body c"
  by (induction hs arbitrary: c) auto

lemma prepared_simps [simp]:
  "gc_request (prepared E c) = gc_request c" "gc_body (prepared E c) = gc_body c"
  by (simp_all add: prepared_def Let_def)

lemma gin_chain_eq:
  "gin_chain E h (c, s) =
    (if rq_method (gc_request c) = ''OPTIONS'' then ((prepared E c)\<lparr>gc_status := 204\<rparr>, s)
     else RateLimit (he_gin E) (he_rate E) IpLimit h (prepared E c, s))"
  by (simp add: gin_chain_def SecurityHeaders_def CORS_def prepared_def Let_def)

context application
begin

lemma outcome_routes:
  assumes "quietly w (srv_world s)" "gc_request c = rq" "harmless rinv view tinv spent redis"
    "\<And>db. dbPinger = Some db \<Longrightarrow> harmless rinv view tinv spent db"
    "r \<in> set (routes (main_router G U L lo R H T A redis dbPinger origins))"
  shows "outcomes A w rq (snd (snd r) (c, s))"
  using assms
  by (auto simp: routes_def Let_def main_router_def health_Health_def gin_JSON_def data_body_def
      intro!: outcome_rate_limit outcome_require_auth outcome_user_rate_limit outcome_ready outcome_quiet
        outcome_public outcome_protected)

lemma outcome_chain:
  assumes "quietly w (srv_world s)" "gc_request c = rq" "gc_body c = NoBody"
    "\<And>s1 c1. quietly w (srv_world s1) \<Longrightarrow> gc_request c1 = rq \<Longrightarrow> outcomes A w rq (h (c1, s1))"
  shows "outcomes A w rq (gin_chain E h (c, s))"
  using assms
  by (auto simp: gin_chain_eq data_body_def intro!: outcome_quiet outcome_rate_limit)

lemma http_outcome:
  assumes "app_inv rinv view tinv (srv_world s)" "gin_laws G" "harmless rinv view tinv spent redis"
    "\<And>db. dbPinger = Some db \<Longrightarrow> harmless rinv view tinv spent db"
  shows "outcomes A (srv_world s) rq (http_handle (main_router G U L lo R H T A redis dbPinger origins) rq s)"
proof -
  let ?E = "main_router G U L lo R H T A redis dbPinger origins"
  have e: "he_gin ?E = G" by (simp add: main_router_def)
  have q: "quietly (srv_world s) (srv_world s)" using assms(1) by (rule quiet_refl)
  show ?thesis
  proof (cases "gin_route G (map (\<lambda>(m, p, _). (m, p)) (routes ?E)) (rq_method rq) (rq_path rq)")
    case (Matched i ps)
    then have "i < length (routes ?E)" using assms(2) unfolding gin_laws_def by fastforce
    then have r: "routes ?E ! i \<in> set (routes ?E)" by simp
    have "outcomes A (srv_world s) rq (snd (snd (routes ?E ! i)) (c1, s1))"
      if "quietly (srv_world s) (srv_world s1)" "gc_request c1 = rq" for c1 s1
      by (rule outcome_routes [OF that assms(3) _ r]) (rule assms(4))
    then show ?thesis using q by (auto simp: http_handle_def Matched e intro!: outcome_chain)
  next
    case (Redirected code loc)
    then show ?thesis using q by (auto simp: http_handle_def e data_body_def intro!: outcome_quiet)
  next
    case Unmatched
    then show ?thesis using q
      by (auto simp: http_handle_def e gin_JSON_def data_body_def intro!: outcome_chain outcome_quiet)
  qed
qed

end

subsection \<open>Whose accounts a request may change\<close>

lemma written_frame: "written m u m' \<Longrightarrow> user_key u \<noteq> i \<Longrightarrow> m' i = m i"
  by (auto simp: written_other)

lemma tagE:
  assumes "tag c p = (rs, w')"
  obtains x where "p = (x, w')"
  using assms by (cases p) (auto simp: tag_def)

context application
begin

lemma register_frame:
  assumes "lower_laws lo" "app_inv rinv view tinv w" "register_execute lo R H T A inp w = (x, w')"
    "distinct_draws (sources w')"
  shows "stored view w \<subseteq>\<^sub>m stored view w'"
  using register_step [OF assms(1-3)] assms(4) written_new_le by (auto split: sum.splits)

lemma stored_key: "app_inv rinv view tinv w \<Longrightarrow> stored view w i = Some u \<Longrightarrow> user_key u = i"
  using view_key by (auto simp: app_inv_def)

lemma serve_frame:
  assumes "lower_laws lo" "app_inv rinv view tinv w" "serve lo R H T A r w = (rs, w')" "distinct_draws (sources w')"
    "stored view w i = Some v" "\<not> may_change (stored view w) r i"
  shows "stored view w' i = Some v"
proof (cases r)
  case (Register inp)
  then obtain x where "register_execute lo R H T A inp w = (x, w')" using assms(3) by (auto elim!: tagE)
  from register_frame [OF assms(1,2) this assms(4)] show ?thesis
    using assms(5) by (metis domI map_le_def)
next
  case (Login inp)
  then obtain x where "login_execute lo R H T A inp w = (x, w')" using assms(3) by (auto elim!: tagE)
  from login_step [OF assms(2) this] show ?thesis using assms(5) by simp
next
  case (Refresh inp)
  then obtain x where "refresh_execute R T A inp w = (x, w')" using assms(3) by (auto elim!: tagE)
  from refresh_step [OF assms(2) this] show ?thesis using assms(5) by simp
next
  case (GetUser a b d)
  then obtain x where "get_user_execute R a b d w = (x, w')" using assms(3) by (auto elim!: tagE)
  from get_user_step [OF assms(2) this] show ?thesis using assms(5) by simp
next
  case (ListUsers b inp)
  then obtain x where "list_users_execute R b inp w = (x, w')" using assms(3) by (auto elim!: tagE)
  from list_users_step [OF assms(2) this] show ?thesis using assms(5) by simp
next
  case (UpdateProfile j n)
  then obtain x where x: "update_profile_execute R j n w = (x, w')" using assms(3) by (auto elim!: tagE)
  have "i \<noteq> j" using assms(6) UpdateProfile by (simp add: may_change_def)
  then show ?thesis using update_profile_step [OF assms(2) x] assms(5) stored_key [OF assms(2)]
    by (cases x) (auto simp: content_eq user_key_def written_frame)
next
  case (ChangePassword j inp)
  then obtain x where x: "change_password_execute R H A j inp w = (x, w')" using assms(3) by (auto elim!: tagE)
  have "i \<noteq> j" using assms(6) ChangePassword by (simp add: may_change_def)
  then show ?thesis using change_password_step [OF assms(2) x] assms(5) stored_key [OF assms(2)]
    by (cases x) (auto simp: content_eq user_key_def written_frame)
next
  case (ChangeRole ac j role)
  then obtain x where x: "change_role_execute R A ac j role w = (x, w')" using assms(3) by (auto elim!: tagE)
  have "i \<noteq> j \<or> \<not> (\<exists>u. stored view w ac = Some u \<and> usr_role u = RoleOwner)"
    using assms(6) ChangeRole by (simp add: may_change_def)
  then show ?thesis using change_role_step [OF assms(2) x] assms(5) stored_key [OF assms(2)]
    by (cases x) (auto simp: content_eq user_key_def written_frame)
qed

lemma outcome_evolves:
  assumes "lower_laws lo" "outcomes A w rq (c, s')"
  shows "evolves rinv view tinv spent w (srv_world s')"
  using assms(2) unfolding outcome_def prod.case
proof (elim disjE exE conjE)
  fix r
  assume "ran lo R H T A quietly view w rq r c (srv_world s')"
  then obtain w1 rs where r: "quietly w w1" "serve lo R H T A r w1 = (rs, srv_world s')" by (auto simp: ran_def)
  show ?thesis
    using evolves_trans [of rinv view tinv spent w w1] r(1) serve_step [OF assms(1) quiet_inv [OF r(1)] r(2)]
    by (simp add: quiet_def)
qed (simp_all add: quiet_def untouched_def)

text \<open>A request that changed a stored account was made by a caller who may.\<close>

lemma http_frame:
  assumes "lower_laws lo" "app_inv rinv view tinv (srv_world s)" "gin_laws G" "harmless rinv view tinv spent redis"
    "\<And>db. dbPinger = Some db \<Longrightarrow> harmless rinv view tinv spent db"
    "http_handle (main_router G U L lo R H T A redis dbPinger origins) rq s = (c, s')" "distinct_draws (sources (srv_world s'))"
    "stored view (srv_world s) i = Some v" "stored view (srv_world s') i \<noteq> Some v"
  shows "\<exists>cl. bearer_of T (srv_world s) rq cl \<and> active_account view (srv_world s) (claim_user_id cl) \<and>
    (claim_user_id cl = i \<or> (\<exists>u. stored view (srv_world s) (claim_user_id cl) = Some u \<and> usr_role u = RoleOwner))"
proof -
  have o: "outcomes A (srv_world s) rq (c, s')"
    unfolding assms(6) [symmetric] by (rule http_outcome [OF assms(2-4)]) (rule assms(5))
  have "\<not> quietly (srv_world s) (srv_world s')" "\<not> untouched rinv view tinv spent (srv_world s) (srv_world s')"
    using assms(8,9) by (auto simp: quiet_def untouched_def)
  then obtain r w1 rs where r: "quietly (srv_world s) w1" "serve lo R H T A r w1 = (rs, srv_world s')"
      "public_request r \<or> (\<exists>cl. acts_as r cl \<and> bearer_of T (srv_world s) rq cl \<and>
         active_account view (srv_world s) (claim_user_id cl))"
    using o by (auto simp: outcome_def ran_def)
  have v1: "stored view w1 = stored view (srv_world s)" using r(1) by (simp add: quiet_def)
  have m: "may_change (stored view (srv_world s)) r i"
    using serve_frame [OF assms(1) quiet_inv [OF r(1)] r(2) assms(7)] assms(8,9) v1 by metis
  then have "\<not> public_request r" by (cases r) (auto simp: may_change_def)
  then obtain cl where cl: "acts_as r cl" "bearer_of T (srv_world s) rq cl" "active_account view (srv_world s) (claim_user_id cl)"
    using r(3) by blast
  have "claim_user_id cl = i \<or> (\<exists>u. stored view (srv_world s) (claim_user_id cl) = Some u \<and> usr_role u = RoleOwner)"
    using cl(1) m by (cases r) (auto simp: may_change_def)
  then show ?thesis using cl(2,3) by blast
qed

end

subsection \<open>A server, for the witnesses\<close>

text \<open>
  \<open>demo_gin\<close> matches a path without parameters literally, and decodes a body of values separated by
  commas.
\<close>

fun demo_index :: "'x \<Rightarrow> 'x list \<Rightarrow> nat option" where
  "demo_index x [] = None"
| "demo_index x (y # ys) = (if x = y then Some 0 else map_option Suc (demo_index x ys))"

definition demo_gin :: gin_lib where
  "demo_gin = \<lparr>gin_route = (\<lambda>tbl m p. case demo_index (m, p) tbl of None \<Rightarrow> Unmatched | Some i \<Rightarrow> Matched i []),
     gin_bind = (\<lambda>fields body. let vs = split_on CHR '','' body in
       if length vs = length fields \<and> '''' \<notin> set vs then Inr vs else Inl (External ''EOF'')),
     gin_time = (\<lambda>t. ''''), gin_metrics = ''''\<rparr>"

lemma demo_index_nth: "demo_index x ys = Some i \<Longrightarrow> i < length ys \<and> ys ! i = x"
  by (induction ys arbitrary: i) (auto split: if_splits)

lemma demo_gin_laws: "gin_laws demo_gin"
  by (auto simp: gin_laws_def demo_gin_def Let_def dest!: demo_index_nth split: option.splits if_splits)

lemma redis_ping_harmless:
  assumes "application R lo rinv view (jwt_token_service J U L svc) tinv spent (jwt_env L) H"
  shows "harmless rinv view tinv spent redis_ping"
  unfolding harmless_def
proof (intro allI impI)
  fix w assume i: "app_inv rinv view tinv w"
  obtain x c where r: "round_trip (\<lambda>t db. (Inr (), db)) (tokens w) = (x, c)" by fastforce
  have "redis_db c = redis_db (tokens w)"
    using r by (auto simp: round_trip_def Let_def split: list.splits prod.splits fate.splits)
  then have "jwt_env L (tokens w) c" by (simp add: jwt_env_def)
  from application.env_step [OF assms i this] r show "untouched rinv view tinv spent w (snd (redis_ping w))"
    by (simp add: redis_ping_def untouched_def)
qed

definition demo_token :: "uuid \<Rightarrow> role \<Rightarrow> string" where
  "demo_token i r = demo_encode \<lparr>jwt_subject = uuid_String rfc_uuid i, jwt_issued_at = 0, jwt_expires_at = 10 ^ 12, jwt_role = r\<rparr>"

lemma demo_validate:
  assumes "clock g (clock_pos g) < 10 ^ 12"
  shows "ValidateAccessToken demo_T (demo_token i r) g =
    (Inr \<lparr>claim_user_id = i, claim_role = r\<rparr>, g\<lparr>clock_pos := Suc (clock_pos g)\<rparr>)"
proof -
  have "demo_decode (demo_encode c) = c" for c
    by (simp add: demo_decode_def demo_encode_def dec_enc_int)
  then show ?thesis using assms uuid_laws_String [OF rfc_uuid_laws]
    by (simp add: demo_token_def jwt_token_service_def jwt_validate_access_token_def time_now_def demo_jwt_def ed25519_only_def)
qed

definition demo_server :: "('r, 't, 'a) world \<Rightarrow> ('r, 't, 'a, bucket) server" where
  "demo_server w = \<lparr>srv_world = w, srv_limiter = new_limiters\<rparr>"

definition demo_request :: "string \<Rightarrow> string \<Rightarrow> string \<Rightarrow> string \<Rightarrow> http_request" where
  "demo_request m p tok body = \<lparr>rq_method = m, rq_path = p, rq_header = [(''Authorization'', ''Bearer '' @ tok)],
     rq_query = [], rq_body = body, rq_client_ip = ''10.0.0.1''\<rparr>"

abbreviation demo_pg_router :: "(pg_state, demo_db redis_conn, log_entry list, bucket) http_env" where
  "demo_pg_router \<equiv> main_router demo_gin rfc_uuid bucket_lib (\<lambda>r. r) demo_P demo_H demo_T demo_A redis_ping
     (Some (\<lambda>w. (None, w))) [''http://localhost:3000'']"


lemma demo_hit:
  "\<exists>l'. kl_hit bucket_lib key (g, newKeyedLimiter r (Suc b)) = (True, g\<lparr>clock_pos := clock_pos g + 2\<rparr>, l')"
  by (simp add: kl_hit_def kl_get_def limiter_allow_def time_now_def newKeyedLimiter_def bucket_allow_def
      bucket_level_def Let_def)

definition later :: "nat \<Rightarrow> ('r, 't, 'a) world \<Rightarrow> ('r, 't, 'a) world" where
  "later n w = w\<lparr>sources := (sources w)\<lparr>clock_pos := clock_pos (sources w) + n\<rparr>\<rparr>"

lemma demo_asks:
  obtains l where "limiter_asks bucket_lib slot key (demo_server w) =
    (True, \<lparr>srv_world = later 2 w, srv_limiter = new_limiters(slot := l)\<rparr>)"
proof -
  obtain r b where n: "(new_limiters slot :: bucket keyed_limiter) = newKeyedLimiter r (Suc b)"
    by (cases slot) (auto simp: new_limiters_def numeral_eq_Suc)
  obtain l' where "kl_hit bucket_lib key (sources w, new_limiters slot) =
      (True, (sources w)\<lparr>clock_pos := clock_pos (sources w) + 2\<rparr>, l')"
    using demo_hit [of key "sources w" r b] unfolding n by blast
  then show thesis by (intro that [of l']) (simp add: limiter_asks_def demo_server_def later_def)
qed

text \<open>The first request of a client reaches the handler of its route.\<close>

lemma demo_enter:
  assumes "he_gin E = demo_gin" "he_rate E = bucket_lib" "m \<noteq> ''OPTIONS''"
    "gin_route demo_gin (map (\<lambda>(m, p, _). (m, p)) (routes E)) m p = Matched i ps"
  obtains c l where "http_handle E (demo_request m p tok body) (demo_server w) =
      snd (snd (routes E ! i)) (c, \<lparr>srv_world = later 2 w, srv_limiter = new_limiters(IpLimit := l)\<rparr>)"
    "gc_request c = demo_request m p tok body"
proof -
  obtain l where l: "limiter_asks bucket_lib IpLimit ''10.0.0.1'' (demo_server w) =
      (True, \<lparr>srv_world = later 2 w, srv_limiter = new_limiters(IpLimit := l)\<rparr>)" using demo_asks by blast
  have q: "rq_method (demo_request m p tok body) = m" "rq_path (demo_request m p tok body) = p"
    "rq_client_ip (demo_request m p tok body) = ''10.0.0.1''"
    by (simp_all add: demo_request_def)
  let ?c = "\<lparr>gc_request = demo_request m p tok body, gc_params = ps, gc_user = None, gc_status = 200, gc_header = [], gc_body = NoBody\<rparr>"
  show thesis using assms l q
    by (intro that [of "prepared E ?c" l]) (simp_all add: http_handle_def gin_chain_eq RateLimit_def)
qed

lemma demo_bearer:
  assumes "gc_request c = demo_request m p (demo_token i r) body"
  shows "RequireAuth demo_T R next (c, s) =
    (case on_world (on_gen (ValidateAccessToken demo_T (demo_token i r))) s of
       (Inl e, s) \<Rightarrow> (if e = RuntimePanic then gin_panic c else gin_JSON 401 (ErrorBody ''invalid token'') c, s)
     | (Inr claims, s) \<Rightarrow>
         (case on_world (on_repo (FindByID R (claim_user_id claims))) s of
            (Inl e, s) \<Rightarrow> (if e = RuntimePanic then gin_panic c else gin_JSON 401 (ErrorBody ''user not found'') c, s)
          | (Inr user, s) \<Rightarrow>
              if \<not> usr_is_active (user_at user (srv_world s)) then (gin_JSON 403 (ErrorBody ''account is inactive'') c, s)
              else next (c\<lparr>gc_user := Some claims\<rparr>, s)))"
proof -
  have "rq_header (gc_request c) = [(''Authorization'', ''Bearer '' @ demo_token i r)]"
    unfolding assms by (simp add: demo_request_def)
  then have a: "gin_GetHeader ''Authorization'' c = ''Bearer '' @ demo_token i r"
    by (simp add: gin_GetHeader_def or_empty_def)
  have "has_prefix (''Bearer '' @ t) ''Bearer ''" "trim_prefix (''Bearer '' @ t) ''Bearer '' = t" for t
    by (rule has_prefix_append, rule trim_prefix_append)
  then show ?thesis unfolding RequireAuth_def prod.case Let_def a by (simp only: not_True_eq_False if_False)
qed

text \<open>The owner renames herself.\<close>

lemma demo_rename:
  "\<exists>c s' u. http_handle demo_pg_router (demo_request ''PUT'' ''/v1/users/me'' (demo_token 1 RoleOwner) ''Rob'')
     (demo_server (demo_pg [demo_user 1 ''bob@e.com'' RoleOwner 0])) = (c, s') \<and>
     pg_view (objects (srv_world s'), repo (srv_world s')) 1 = Some u \<and> usr_name u = ''Rob'' \<and>
     uuid_pos (sources (srv_world s')) = 100 \<and> uuid_source (sources (srv_world s')) = of_nat"
proof -
  let ?w = "demo_pg [demo_user 1 ''bob@e.com'' RoleOwner 0]"
  let ?rq = "demo_request ''PUT'' ''/v1/users/me'' (demo_token 1 RoleOwner) ''Rob''"
  have r: "gin_route demo_gin (map (\<lambda>(m, p, _). (m, p)) (routes demo_pg_router)) ''PUT'' ''/v1/users/me'' = Matched 7 []"
    by (simp add: demo_gin_def routes_def main_router_def Let_def)
  have h: "snd (snd (routes demo_pg_router ! 7)) =
      RequireAuth demo_T demo_P (user_UpdateMe demo_gin (main_user_handler demo_P demo_H demo_A))"
    by (simp add: routes_def main_router_def Let_def)
  have e: "he_gin demo_pg_router = demo_gin" "he_rate demo_pg_router = bucket_lib" by (simp_all add: main_router_def)
  have q: "rq_method ?rq = ''PUT''" "rq_path ?rq = ''/v1/users/me''" "rq_body ?rq = ''Rob''"
    by (simp_all add: demo_request_def)
  obtain c l where c: "http_handle demo_pg_router ?rq (demo_server ?w) =
      RequireAuth demo_T demo_P (user_UpdateMe demo_gin (main_user_handler demo_P demo_H demo_A))
        (c, \<lparr>srv_world = later 2 ?w, srv_limiter = new_limiters(IpLimit := l)\<rparr>)" "gc_request c = ?rq"
    using demo_enter [OF e _ r, of "demo_token 1 RoleOwner" "''Rob''" ?w] unfolding h by auto
  have b: "gin_bind demo_gin [''name''] ''Rob'' = Inr [''Rob'']" by (simp add: demo_gin_def Let_def)
  have n: "new_email (\<lambda>r. r) ''bob@e.com'' = Inr (Email ''bob@e.com'')"
    using demo_email_canonical by (simp add: canonical_email_def)
  have v: "validate_name ''Rob'' = Inr ()" "trim_space ''Rob'' = ''Rob''"
    by (simp_all add: validate_name_def Let_def go_string_eval)
  note pg = on_repo_def postgres_repository_def pg_find_by_id_def pg_exec_def sql_select_def scan_row_def scanUser_def n
    row_of_user_def alloc_def reconstitute_def user_at_def demo_user_def user_key_def demo_pg_lib_def
  show ?thesis
    unfolding c(1) demo_bearer [OF c(2)]
    apply (simp add: on_world_def on_gen_def demo_validate demo_pg_def demo_gen_def later_def)
    apply (simp add: pg)
    apply (simp add: user_UpdateMe_def with_claims_def GetClaims_def c(2) q b on_world_def answer_def
        main_user_handler_def update_profile_execute_def update_name_def on_gen_def v time_now_def)
    apply (simp add: pg set_user_def pg_save_def exec_result_def sql_upsert_def row_text_ok_def conflicts_def
        Let_def pg_view_def user_of_row_def reconstitute_def)
    done
qed

subsection \<open>Properties\<close>

text \<open>
  \<^bold>\<open>C1\<close> The HTTP interface refines the application. Over the in-memory store, whatever request
  arrives, either it leaves accounts, tokens and the audit log as they were and answers without
  data, or it probed Redis, or it ran exactly one use case, after nothing but time had passed, and
  answered with that use case's result and its status. A use case other than registration, login
  and refresh ran for an active account whose valid access token the request carried. The invariant
  of the deployment is kept.
\<close>

theorem http_refines_application:
  fixes L :: "'db redis_lib" and s :: "(memory_store, 'db redis_conn, 'a, 'l) server"
  assumes "uuid_laws U" and "redis_laws L" and "argon2_laws lib" and "lower_laws lo" and "gin_laws G"
    and "memory_world U L lo (srv_world s)"
    and "R = memory_repository U" and "T = jwt_token_service J U L svc" and "H = argon2_hasher lib"
    and "http_handle (main_router G U RL lo R H T A redis_ping None origins) rq s = (c, s')"
  shows "memory_world U L lo (srv_world s') \<and>
    (quiet (mem_inv lo) mem_view (jwt_inv U L) (jwt_spent U L) (srv_world s) (srv_world s') \<and> \<not> data_body (gc_body c) \<or>
     untouched (mem_inv lo) mem_view (jwt_inv U L) (jwt_spent U L) (srv_world s) (srv_world s') \<and> pinged c \<or>
     (\<exists>r w1 rs. quiet (mem_inv lo) mem_view (jwt_inv U L) (jwt_spent U L) (srv_world s) w1 \<and>
        serve lo R H T A r w1 = (rs, srv_world s') \<and> (gc_status c, gc_body c) = http_reply r rs \<and>
        (public_request r \<or> (\<exists>cl. acts_as r cl \<and> bearer_of T (srv_world s) rq cl \<and>
           active_account mem_view (srv_world s) (claim_user_id cl)))))"
proof -
  note laws = memory_laws [OF assms(1-4), of J svc]
  note o = application.http_outcome [OF laws assms(6,5) redis_ping_harmless [OF laws], of None A rq U RL origins]
  then have o: "outcome lo R H T A (mem_inv lo) mem_view (jwt_inv U L) (jwt_spent U L) (srv_world s) rq (c, s')"
    using assms(7-10) by simp
  moreover have "memory_world U L lo (srv_world s')"
    using application.outcome_evolves [OF laws assms(4) o [unfolded assms(7-9)]] by (rule evolves_inv)
  ultimately show ?thesis unfolding outcome_def ran_def prod.case by blast
qed

text \<open>
  An existing account changes only at the hands of its holder or of an owner. Over PostgreSQL,
  with commands failing and replies lost at any point, a request after which a stored account is
  no longer what it was carried a bearer token that was valid at some moment of the request, for an
  account that exists and is active, and that account is the changed one or has the role owner in
  the database, whatever role the token claims.
\<close>

theorem accounts_change_by_holder_or_owner:
  fixes L :: "'db redis_lib" and s :: "(pg_state, 'db redis_conn, 'a, 'l) server"
  assumes "uuid_laws U" and "redis_laws L" and "argon2_laws lib" and "lower_laws lo" and "gin_laws G"
    and "postgres_world U L lo (srv_world s)"
    and "harmless (pg_inv lo) pg_view (jwt_inv U L) (jwt_spent U L) pool_ping"
    and "http_handle (main_router G U RL lo (postgres_repository P lo) (argon2_hasher lib) (jwt_token_service J U L svc) A
      redis_ping (Some pool_ping) origins) rq s = (c, s')"
    and "distinct_draws (sources (srv_world s'))"
    and "pg_view (objects (srv_world s), repo (srv_world s)) i = Some v"
    and "pg_view (objects (srv_world s'), repo (srv_world s')) i \<noteq> Some v"
  shows "\<exists>tok g g' cl u. map_of (rq_header rq) ''Authorization'' = Some (''Bearer '' @ tok) \<and>
    gen_later (sources (srv_world s)) g \<and> jwt_validate_access_token J U svc tok g = (Inr cl, g') \<and>
    pg_view (objects (srv_world s), repo (srv_world s)) (claim_user_id cl) = Some u \<and> usr_is_active u \<and>
    (claim_user_id cl = i \<or> usr_role u = RoleOwner)"
proof -
  note laws = postgres_laws [OF assms(1-4), of P J svc]
  have db: "Some pool_ping = Some db \<Longrightarrow> harmless (pg_inv lo) pg_view (jwt_inv U L) (jwt_spent U L) db" for db
    using assms(7) by simp
  obtain cl where cl: "bearer_of (jwt_token_service J U L svc) (srv_world s) rq cl"
      "active_account pg_view (srv_world s) (claim_user_id cl)"
      "claim_user_id cl = i \<or> (\<exists>u. pg_view (objects (srv_world s), repo (srv_world s)) (claim_user_id cl) = Some u \<and> usr_role u = RoleOwner)"
    using application.http_frame [OF laws assms(4,6,5) redis_ping_harmless [OF laws] db assms(8-11)] by blast
  then obtain tok g g' u where "map_of (rq_header rq) ''Authorization'' = Some (''Bearer '' @ tok)"
      "gen_later (sources (srv_world s)) g" "jwt_validate_access_token J U svc tok g = (Inr cl, g')"
      "pg_view (objects (srv_world s), repo (srv_world s)) (claim_user_id cl) = Some u" "usr_is_active u"
    unfolding bearer_of_def active_account_def by (auto simp: jwt_token_service_def)
  then show ?thesis using cl(3) by (metis option.inject)
qed

lemma accounts_change_by_holder_or_owner_witness:
  "\<exists>tok g g' cl. map_of (rq_header (demo_request ''PUT'' ''/v1/users/me'' (demo_token 1 RoleOwner) ''Rob'')) ''Authorization'' =
     Some (''Bearer '' @ tok) \<and> jwt_validate_access_token demo_jwt rfc_uuid demo_service tok g = (Inr cl, g') \<and> claim_user_id cl = 1"
proof -
  let ?w = "demo_pg [demo_user 1 ''bob@e.com'' RoleOwner 0]"
  obtain c s' u where r: "http_handle demo_pg_router (demo_request ''PUT'' ''/v1/users/me'' (demo_token 1 RoleOwner) ''Rob'')
      (demo_server ?w) = (c, s')" "pg_view (objects (srv_world s'), repo (srv_world s')) 1 = Some u" "usr_name u = ''Rob''"
      "uuid_pos (sources (srv_world s')) = 100" "uuid_source (sources (srv_world s')) = of_nat"
    using demo_rename by blast
  have w: "srv_world (demo_server ?w) = ?w" by (simp add: demo_server_def)
  have d: "distinct_draws (sources (srv_world s'))" by (rule demo_draws) (use r(4,5) in simp_all)
  have p: "harmless (pg_inv (\<lambda>r. r)) pg_view (jwt_inv rfc_uuid demo_redis) (jwt_spent rfc_uuid demo_redis)
      (\<lambda>w :: demo_pg_world. (None, w))"
    by (simp add: harmless_def untouched_def evolves_refl)
  have old: "pg_view (objects ?w, repo ?w) i = (if i = 1 then Some ((demo_user 1 ''bob@e.com'' RoleOwner 0)) else None)" for i
    by (simp add: demo_pg_def pg_view_def row_of_user_def user_of_row_def demo_user_def user_key_def demo_pg_lib_def reconstitute_def)
  have new: "pg_view (objects (srv_world s'), repo (srv_world s')) 1 \<noteq> Some (demo_user 1 ''bob@e.com'' RoleOwner 0)"
    using r(2,3) by (auto simp: demo_user_def)
  have inv: "postgres_world rfc_uuid demo_redis (\<lambda>r. r) (srv_world (demo_server ?w))" unfolding w by (rule demo_pg_inv)
  from accounts_change_by_holder_or_owner [OF rfc_uuid_laws demo_redis_laws demo_argon2_laws lower_laws_id demo_gin_laws
      inv p r(1) d, unfolded w, OF _ new] old
  obtain tok g g' cl x where x: "map_of (rq_header (demo_request ''PUT'' ''/v1/users/me'' (demo_token 1 RoleOwner) ''Rob'')) ''Authorization'' =
     Some (''Bearer '' @ tok)" "jwt_validate_access_token demo_jwt rfc_uuid demo_service tok g = (Inr cl, g')"
     "pg_view (objects ?w, repo ?w) (claim_user_id cl) = Some x" by auto
  then have "claim_user_id cl = 1" using old by (simp split: if_splits)
  then show ?thesis using x(1,2) by blast
qed

abbreviation demo_router :: "(memory_store, demo_db redis_conn, log_entry list, bucket) http_env" where
  "demo_router \<equiv> main_router demo_gin rfc_uuid bucket_lib (\<lambda>r. r) demo_R demo_H demo_T demo_A redis_ping None
     [''http://localhost:3000'']"

lemma http_refines_application_witness:
  "memory_world rfc_uuid demo_redis (\<lambda>r. r) (srv_world (snd (http_handle demo_router
     (demo_request ''POST'' ''/v1/auth/register'' '''' ''bob@e.com,correct horse,Bob'') (demo_server (demo_world [] 1)))))"
proof -
  have "memory_world rfc_uuid demo_redis (\<lambda>r. r) (srv_world (demo_server (demo_world [] 1)))"
    unfolding demo_server_def server.simps by (rule demo_world_inv) simp_all
  from http_refines_application [OF rfc_uuid_laws demo_redis_laws demo_argon2_laws lower_laws_id demo_gin_laws this
      refl refl refl prod.collapse [symmetric]]
  show ?thesis by (rule conjunct1)
qed

end
