(* ===== verification/HttpRates.thy ===== *)
theory HttpRates
  imports HttpFlows
begin

section \<open>The rate of authentication attempts\<close>

text \<open>
  Whole runs of the HTTP server: requests one after another, sweeps of the four limiters, pauses.
  What a run does to the limiter of the authentication routes is a run of that limiter alone, so its
  bound becomes a bound on the attempts of a client.
\<close>

subsection \<open>Runs of the server\<close>

datatype http_event = Serve http_request | Clean limiter_slot | Wait nat

definition now_of :: "('r, 't, 'a, 'l) server \<Rightarrow> time" where
  "now_of s = clock (sources (srv_world s)) (clock_pos (sources (srv_world s)))"

definition clean_slot :: "limiter_slot \<Rightarrow> ('r, 't, 'a, 'l) server \<Rightarrow> ('r, 't, 'a, 'l) server" where
  "clean_slot slot s = (case kl_sweep (sources (srv_world s), srv_limiter s slot) of (g, l) \<Rightarrow>
     s\<lparr>srv_world := (srv_world s)\<lparr>sources := g\<rparr>, srv_limiter := (srv_limiter s)(slot := l)\<rparr>)"

type_synonym http_entry = "time \<times> http_request \<times> gin_context \<times> time"

primrec http_run :: "('r, 't, 'a, 'l) http_env \<Rightarrow> http_event list \<Rightarrow> ('r, 't, 'a, 'l) server \<Rightarrow> http_entry list" where
  "http_run E [] s = []"
| "http_run E (ev # evs) s = (case ev of
      Serve rq \<Rightarrow> (case http_handle E rq s of (c, s') \<Rightarrow> (now_of s, rq, c, now_of s') # http_run E evs s')
    | Clean slot \<Rightarrow> http_run E evs (clean_slot slot s)
    | Wait n \<Rightarrow> http_run E evs (s\<lparr>srv_world := later n (srv_world s)\<rparr>))"

text \<open>A request to register, log in or refresh that the limiters let through.\<close>

definition auth_index :: "('r, 't, 'a, 'l) http_env \<Rightarrow> http_request \<Rightarrow> bool" where
  "auth_index E rq \<longleftrightarrow> (case gin_route (he_gin E) (map (\<lambda>(m, p, _). (m, p)) (routes E)) (rq_method rq) (rq_path rq) of
     Matched i ps \<Rightarrow> i \<in> {3, 4, 5} | _ \<Rightarrow> False)"

definition attempt :: "('r, 't, 'a, 'l) http_env \<Rightarrow> string \<Rightarrow> http_entry \<Rightarrow> bool" where
  "attempt E ip entry \<longleftrightarrow> (case entry of (_, rq, c, _) \<Rightarrow>
     auth_index E rq \<and> rq_client_ip rq = ip \<and> gc_status c \<noteq> 429)"

subsection \<open>Runs of one limiter\<close>

definition leads ::
  "'l rate_lib \<Rightarrow> gen \<times> 'l keyed_limiter \<Rightarrow> (string \<times> time \<times> bool) list \<Rightarrow> gen \<times> 'l keyed_limiter \<Rightarrow> bool" where
  "leads lib x tr y \<longleftrightarrow> (\<exists>levs. \<forall>evs. limiter_run lib (levs @ evs) x = tr @ limiter_run lib evs y)"

lemma leads_refl: "leads lib x [] x"
  unfolding leads_def by (rule exI [of _ "[]"]) simp

lemma leads_trans: "leads lib x tr y \<Longrightarrow> leads lib y tr' z \<Longrightarrow> leads lib x (tr @ tr') z"
  unfolding leads_def by (metis append.assoc)

lemma kl_hit_clock:
  assumes "clock g = clock g'" "clock_pos g = clock_pos g'"
  shows "kl_hit lib key (g', l) = (case kl_hit lib key (g, l) of (ok, _, l') \<Rightarrow> (ok, g'\<lparr>clock_pos := clock_pos g' + 2\<rparr>, l'))"
  using assms by (auto simp: kl_hit_def kl_get_def limiter_allow_def time_now_def split: option.splits prod.splits)

lemma limiter_run_clock:
  assumes "clock g = clock g'" "clock_pos g = clock_pos g'"
  shows "limiter_run lib evs (g, l) = limiter_run lib evs (g', l)"
  using assms
proof (induction evs arbitrary: g g' l)
  case (Cons ev evs)
  show ?case
  proof (cases ev)
    case (Hit key)
    obtain ok g1 l1 where h: "kl_hit lib key (g, l) = (ok, g1, l1)" by (metis prod_cases3)
    then have g1: "g1 = g\<lparr>clock_pos := clock_pos g + 2\<rparr>" by (rule kl_hit_gen)
    have "limiter_run lib evs (g1, l1) = limiter_run lib evs (g'\<lparr>clock_pos := clock_pos g' + 2\<rparr>, l1)"
      unfolding g1 by (rule Cons.IH) (simp_all add: Cons.prems)
    then show ?thesis using Cons.prems h kl_hit_clock [OF Cons.prems, of lib key l] by (simp add: Hit)
  next
    case Sweep
    then show ?thesis using Cons.prems
      by (auto simp: kl_sweep_def time_now_def intro!: Cons.IH)
  next
    case (Pass n)
    then show ?thesis using Cons.prems by (auto intro!: Cons.IH)
  qed
qed simp

lemma leads_later:
  assumes "gen_later g g'"
  shows "leads lib (g, l) [] (g', l)"
proof -
  have "limiter_run lib evs (g\<lparr>clock_pos := clock_pos g + (clock_pos g' - clock_pos g)\<rparr>, l) = limiter_run lib evs (g', l)" for evs
    by (rule limiter_run_clock) (use assms in \<open>simp_all add: gen_later_def\<close>)
  then show ?thesis unfolding leads_def
    by (intro exI [of _ "[Pass (clock_pos g' - clock_pos g)]"]) simp
qed

lemma leads_hit:
  assumes "kl_hit lib key (g, l) = (ok, g', l')"
  shows "leads lib (g, l) [(key, clock g (Suc (clock_pos g)), ok)] (g', l')"
  unfolding leads_def by (rule exI [of _ "[Hit key]"]) (simp add: assms)

lemma leads_sweep: "leads lib x [] (kl_sweep x)"
  unfolding leads_def by (rule exI [of _ "[Sweep]"]) simp

lemma leads_run:
  assumes "leads lib x tr y"
  obtains evs where "limiter_run lib evs x = tr"
  using assms unfolding leads_def by (metis append_Nil2 limiter_run.simps(1))

subsection \<open>What one request does to the limiter of the authentication routes\<close>

definition spares :: "('r, 't, 'a, 'l) http_handler \<Rightarrow> bool" where
  "spares h \<longleftrightarrow> (\<forall>c s. srv_limiter (snd (h (c, s))) AuthLimit = srv_limiter s AuthLimit)"

lemma on_world_limiter [simp]: "srv_limiter (snd (on_world f s)) = srv_limiter s"
  by (simp add: on_world_def split: prod.splits)

lemma on_world_limiter' [simp]: "on_world f s = (x, s') \<Longrightarrow> srv_limiter s' = srv_limiter s"
  using on_world_limiter [of f s] by simp

lemma limiter_asks_other: "limiter_asks L slot key s = (ok, s') \<Longrightarrow> slot \<noteq> AuthLimit \<Longrightarrow>
    srv_limiter s' AuthLimit = srv_limiter s AuthLimit"
  by (auto simp: limiter_asks_def split: prod.splits)

lemma too_many_limiter: "tooManyRequests G (c, s) = (c', s') \<Longrightarrow> srv_limiter s' = srv_limiter s \<and> gc_status c' = 429"
  by (auto simp: tooManyRequests_def gin_JSON_def split: prod.splits)

lemma answer_limiter [simp]: "srv_limiter (snd (answer code body c (x, s))) = srv_limiter s"
  by (simp add: answer_def split: sum.splits)

lemma spares_rate_limit: "slot \<noteq> AuthLimit \<Longrightarrow> spares h \<Longrightarrow> spares (RateLimit G L slot h)"
  unfolding spares_def RateLimit_def
  by (auto simp: limiter_asks_other split: prod.splits dest: too_many_limiter)
    (metis limiter_asks_other prod.collapse too_many_limiter)

lemma spares_user_rate_limit: "slot \<noteq> AuthLimit \<Longrightarrow> spares h \<Longrightarrow> spares (UserRateLimit G U L slot h)"
  unfolding spares_def UserRateLimit_def
  by (auto simp: limiter_asks_other split: prod.splits option.splits dest: too_many_limiter)
    (metis limiter_asks_other prod.collapse too_many_limiter)

lemma spares_require_auth: "spares h \<Longrightarrow> spares (RequireAuth T R h)"
  unfolding spares_def RequireAuth_def Let_def by (auto split: prod.splits sum.splits)

lemma answer_on_world [simp]: "srv_limiter (snd (answer code body c (on_world f s))) = srv_limiter s"
  by (cases "on_world f s") simp

lemma spares_handlers:
  "spares (auth_Register G h)" "spares (auth_Login G h)" "spares (auth_Refresh G h)"
  "spares (user_GetMe h')" "spares (user_GetUser U h')" "spares (user_ListUsers h')" "spares (user_UpdateMe G h')"
  "spares (user_ChangePassword G h')" "spares (user_ChangeRole G U h')" "spares health_Health" "spares (health_Ready h'')"
  by (auto simp: spares_def auth_Register_def auth_Login_def auth_Refresh_def user_GetMe_def user_GetUser_def
      user_ListUsers_def user_UpdateMe_def user_ChangePassword_def user_ChangeRole_def with_claims_def
      health_Health_def health_Ready_def Let_def split: sum.splits option.splits prod.splits)

lemma spares_routes:
  assumes "i < length (routes E)" "i \<notin> {3, 4, 5}"
  shows "spares (snd (snd (routes E ! i)))"
proof -
  have "i \<in> {0, 1, 2, 6, 7, 8, 9, 10, 11}" using assms by (auto simp: routes_def Let_def less_Suc_eq)
  then show ?thesis
    by (auto simp: routes_def Let_def spares_def
        intro!: spares_handlers [unfolded spares_def, rule_format] spares_require_auth [unfolded spares_def, rule_format]
          spares_user_rate_limit [unfolded spares_def, rule_format])
qed

lemma auth_routes:
  assumes "i \<in> {3, 4, 5}"
  obtains h where "snd (snd (routes (main_router G U RL lo R H T A redis db origins) ! i)) = RateLimit G RL AuthLimit h"
    "h \<in> {auth_Register G (main_auth_handler lo R H T A), auth_Login G (main_auth_handler lo R H T A),
       auth_Refresh G (main_auth_handler lo R H T A)}"
    "fst (routes (main_router G U RL lo R H T A redis db origins) ! i) = ''POST''"
  using assms by (auto simp: routes_def Let_def main_router_def)

lemma spares_chain:
  assumes "spares h" "gin_chain E h (c, s) = (c', s')"
  shows "srv_limiter s' AuthLimit = srv_limiter s AuthLimit"
proof -
  have "spares (RateLimit (he_gin E) (he_rate E) IpLimit h)" using assms(1) by (simp add: spares_rate_limit)
  then show ?thesis using assms(2) by (auto simp: gin_chain_eq spares_def split: if_splits) (metis snd_conv)
qed

abbreviation auth_state where "auth_state s \<equiv> (sources (srv_world s), srv_limiter s AuthLimit)"

lemma leads_asks:
  assumes "limiter_asks L AuthLimit key s = (ok, s')"
  shows "leads L (auth_state s) [(key, clock (sources (srv_world s)) (Suc (clock_pos (sources (srv_world s)))), ok)] (auth_state s')"
  using assms leads_hit by (auto simp: limiter_asks_def split: prod.splits)

lemma limiter_asks_later: "limiter_asks L slot key s = (ok, s') \<Longrightarrow> gen_later (sources (srv_world s)) (sources (srv_world s'))"
  unfolding limiter_asks_sources by (simp add: gen_later_def)

lemma leads_spared:
  assumes "gen_later (sources (srv_world s)) (sources (srv_world s'))" "srv_limiter s' AuthLimit = srv_limiter s AuthLimit"
  shows "leads L (auth_state s) [] (auth_state s')"
  using leads_later [OF assms(1), of L "srv_limiter s AuthLimit"] assms(2) by simp

lemma now_later: "steady_clock (clock (sources (srv_world s))) \<Longrightarrow>
    gen_later (sources (srv_world s)) (sources (srv_world s')) \<Longrightarrow> now_of s \<le> now_of s'"
  by (simp add: now_of_def gen_later_def steady_mono)

context application
begin

lemma too_many_later:
  assumes "app_inv rinv view tinv (srv_world s)" "tooManyRequests G (c, s) = (c', s')"
  shows "gen_later (sources (srv_world s)) (sources (srv_world s'))"
  using quiet_too_many [OF quiet_refl [OF assms(1)] assms(2)] quiet_sources by blast

lemma auth_handler_later:
  assumes "lower_laws lo" "app_inv rinv view tinv (srv_world s)" "h (c, s) = (c', s')"
    "h \<in> {auth_Register G (main_auth_handler lo R H T A), auth_Login G (main_auth_handler lo R H T A),
       auth_Refresh G (main_auth_handler lo R H T A)}"
  shows "gen_later (sources (srv_world s)) (sources (srv_world s'))" "srv_limiter s' AuthLimit = srv_limiter s AuthLimit"
proof -
  have "outcomes A (srv_world s) (gc_request c) (c', s')"
    using outcome_public [OF quiet_refl [OF assms(2)]] assms(4) unfolding assms(3) [symmetric] by auto
  from outcome_evolves [OF assms(1) this] show "gen_later (sources (srv_world s)) (sources (srv_world s'))"
    by (simp add: evolves_def)
  have "spares h" using assms(4) spares_handlers by auto
  then show "srv_limiter s' AuthLimit = srv_limiter s AuthLimit"
    using assms(3) by (auto simp: spares_def) (metis snd_conv)
qed

text \<open>An authentication request: at most one question to the limiter, under the client's address.\<close>

lemma auth_chain_leads:
  assumes "lower_laws lo" "app_inv rinv view tinv (srv_world s)" "steady_clock (clock (sources (srv_world s)))"
    "h \<in> {auth_Register G (main_auth_handler lo R H T A), auth_Login G (main_auth_handler lo R H T A),
       auth_Refresh G (main_auth_handler lo R H T A)}"
    "RateLimit G L IpLimit (RateLimit G L AuthLimit h) (c, s) = (c', s')"
  obtains tr where "leads L (auth_state s) tr (auth_state s')"
    "\<And>k t ok. (k, t, ok) \<in> set tr \<Longrightarrow> now_of s \<le> t \<and> t \<le> now_of s'"
    "gc_status c' = 429 \<or> (\<exists>t. tr = [(rq_client_ip (gc_request c), t, True)])"
proof -
  let ?ip = "rq_client_ip (gc_request c)"
  obtain ok1 s1 where a1: "limiter_asks L IpLimit ?ip s = (ok1, s1)" by fastforce
  have q1: "quietly (srv_world s) (srv_world s1)" by (rule quiet_asks [OF quiet_refl [OF assms(2)] a1])
  have l1: "leads L (auth_state s) [] (auth_state s1)"
    using leads_spared [OF limiter_asks_later [OF a1] limiter_asks_other [OF a1]] by simp
  show thesis
  proof (cases ok1)
    case False
    then have t: "tooManyRequests G (c, s1) = (c', s')" using assms(5) a1 by (simp add: RateLimit_def)
    have "leads L (auth_state s1) [] (auth_state s')"
      using leads_spared [OF too_many_later [OF quiet_inv [OF q1] t]] too_many_limiter [OF t] by simp
    then have "leads L (auth_state s) [] (auth_state s')" using leads_trans [OF l1] by fastforce
    then show thesis using too_many_limiter [OF t] by (intro that) auto
  next
    case True
    obtain ok2 s2 where a2: "limiter_asks L AuthLimit ?ip s1 = (ok2, s2)" by fastforce
    define t where "t = clock (sources (srv_world s1)) (Suc (clock_pos (sources (srv_world s1))))"
    have q2: "quietly (srv_world s) (srv_world s2)" by (rule quiet_asks [OF q1 a2])
    have run: "(c', s') = (if \<not> ok2 then tooManyRequests G (c, s2) else h (c, s2))"
      using assms(5) a1 a2 True by (simp add: RateLimit_def)
    have fin: "gen_later (sources (srv_world s2)) (sources (srv_world s')) \<and> srv_limiter s' AuthLimit = srv_limiter s2 AuthLimit \<and>
        (ok2 \<or> gc_status c' = 429)"
    proof (cases ok2)
      case True
      then have "h (c, s2) = (c', s')" using run by simp
      then show ?thesis using auth_handler_later [OF assms(1) quiet_inv [OF q2] _ assms(4)] True by blast
    next
      case False
      then have "tooManyRequests G (c, s2) = (c', s')" using run by simp
      then show ?thesis using too_many_later [OF quiet_inv [OF q2]] too_many_limiter by metis
    qed
    note fin = conjunct1 [OF fin] conjunct1 [OF conjunct2 [OF fin]] conjunct2 [OF conjunct2 [OF fin]]
    have l2: "leads L (auth_state s) [(?ip, t, ok2)] (auth_state s')"
      using leads_trans [OF l1 leads_trans [OF leads_asks [OF a2] leads_spared [OF fin(1,2)]]] by (simp add: t_def)
    have g1: "gen_later (sources (srv_world s)) (sources (srv_world s1))" by (rule limiter_asks_later [OF a1])
    have s2: "sources (srv_world s2) = (sources (srv_world s1))\<lparr>clock_pos := clock_pos (sources (srv_world s1)) + 2\<rparr>"
      unfolding limiter_asks_sources [OF a2] by simp
    have pos: "clock_pos (sources (srv_world s)) \<le> Suc (clock_pos (sources (srv_world s1)))"
        "Suc (clock_pos (sources (srv_world s1))) \<le> clock_pos (sources (srv_world s'))"
        "clock (sources (srv_world s1)) = clock (sources (srv_world s))" "clock (sources (srv_world s')) = clock (sources (srv_world s))"
      using g1 fin(1) by (auto simp: gen_later_def s2)
    then have "now_of s \<le> t \<and> t \<le> now_of s'"
      using steady_mono [OF assms(3)] by (simp add: now_of_def t_def)
    then show thesis using fin(3) by (intro that [OF l2]) auto
  qed
qed

end

subsection \<open>What a run does to it\<close>

text \<open>The questions an entry of a run accounts for.\<close>

definition accounts :: "('r, 't, 'a, 'l) http_env \<Rightarrow> http_entry \<Rightarrow> (string \<times> time \<times> bool) list \<Rightarrow> bool" where
  "accounts E entry tr \<longleftrightarrow> (case entry of (t0, rq, c, t1) \<Rightarrow>
     (\<forall>(k, t, ok) \<in> set tr. t0 \<le> t \<and> t \<le> t1) \<and>
     (auth_index E rq \<longrightarrow> gc_status c = 429 \<or> (\<exists>t. tr = [(rq_client_ip rq, t, True)])))"

definition in_order :: "time \<Rightarrow> http_entry list \<Rightarrow> bool" where
  "in_order t0 run \<longleftrightarrow> sorted (t0 # concat (map (\<lambda>(t, _, _, t'). [t, t']) run))"

lemma sorted_Cons_le: "a \<le> b \<Longrightarrow> sorted (b # xs) \<Longrightarrow> sorted (a # xs)" for a :: time
  by (auto intro: order_trans)

lemma in_order_earlier: "t0 \<le> t1 \<Longrightarrow> in_order t1 run \<Longrightarrow> in_order t0 run"
  unfolding in_order_def by (rule sorted_Cons_le)

lemma in_order_Cons: "t0 \<le> t1 \<Longrightarrow> in_order t1 run \<Longrightarrow> in_order t0 ((t0, rq, c, t1) # run)"
  unfolding in_order_def by (auto intro: order_trans)

context application
begin

lemma http_leads:
  assumes "lower_laws lo" "app_inv rinv view tinv (srv_world s)" "steady_clock (clock (sources (srv_world s)))"
    "gin_laws G" "harmless rinv view tinv spent redis" "\<And>db. dbPinger = Some db \<Longrightarrow> harmless rinv view tinv spent db"
    "E = main_router G U L lo R H T A redis dbPinger origins" "http_handle E rq s = (c, s')"
  obtains tr where "leads L (auth_state s) tr (auth_state s')" "accounts E (now_of s, rq, c, now_of s') tr"
    "evolves rinv view tinv spent (srv_world s) (srv_world s')"
proof -
  have "outcomes A (srv_world s) rq (c, s')"
    unfolding assms(8) [symmetric] assms(7) by (rule http_outcome [OF assms(2,4,5)]) (rule assms(6))
  note ev = outcome_evolves [OF assms(1) this]
  then have gl: "gen_later (sources (srv_world s)) (sources (srv_world s'))" by (simp add: evolves_def)
  have G: "he_gin E = G" "he_rate E = L" by (simp_all add: assms(7) main_router_def)
  let ?m = "gin_route G (map (\<lambda>(m, p, _). (m, p)) (routes E)) (rq_method rq) (rq_path rq)"
  let ?c = "\<lparr>gc_request = rq, gc_params = [], gc_user = None, gc_status = 200, gc_header = [], gc_body = NoBody\<rparr>"
  show thesis
  proof (cases "auth_index E rq")
    case True
    then obtain i ps where m: "?m = Matched i ps" "i \<in> {3, 4, 5}"
      by (auto simp: auth_index_def G split: gin_match.splits)
    obtain h where h: "snd (snd (routes E ! i)) = RateLimit G L AuthLimit h"
      "h \<in> {auth_Register G (main_auth_handler lo R H T A), auth_Login G (main_auth_handler lo R H T A),
         auth_Refresh G (main_auth_handler lo R H T A)}" "fst (routes E ! i) = ''POST''"
      using auth_routes [OF m(2)] unfolding assms(7) by metis
    have "i < length (routes E) \<and> fst (routes E ! i) = rq_method rq"
      using assms(4) m(1) unfolding gin_laws_def by (fastforce split: prod.splits)
    then have "rq_method rq \<noteq> ''OPTIONS''" using h(3) by auto
    then have "RateLimit G L IpLimit (RateLimit G L AuthLimit h) (prepared E (?c\<lparr>gc_params := ps\<rparr>), s) = (c, s')"
      using assms(8) m(1) h(1) by (simp add: http_handle_def G gin_chain_eq Let_def)
    from auth_chain_leads [OF assms(1-3) h(2) this] obtain tr where "leads L (auth_state s) tr (auth_state s')"
        "\<And>k t ok. (k, t, ok) \<in> set tr \<Longrightarrow> now_of s \<le> t \<and> t \<le> now_of s'"
        "gc_status c = 429 \<or> (\<exists>t. tr = [(rq_client_ip rq, t, True)])" by auto
    then show thesis using ev by (intro that [of tr]) (auto simp: accounts_def)
  next
    case False
    have "srv_limiter s' AuthLimit = srv_limiter s AuthLimit"
    proof (cases ?m)
      case (Matched i ps)
      then have "i < length (routes E)" using assms(4) unfolding gin_laws_def by fastforce
      moreover have "i \<notin> {3, 4, 5}" using False Matched by (simp add: auth_index_def G)
      ultimately show ?thesis
        using assms(8) Matched spares_chain [OF spares_routes] by (simp add: http_handle_def G)
    next
      case (Redirected code loc)
      then show ?thesis using assms(8) by (auto simp: http_handle_def G)
    next
      case Unmatched
      have "spares (\<lambda>(c, s). (gin_JSON 404 (TextBody ''404 page not found'') c, s))" by (simp add: spares_def)
      then show ?thesis using assms(8) Unmatched spares_chain by (fastforce simp: http_handle_def G)
    qed
    then show thesis using leads_spared [OF gl] ev False
      by (intro that [of "[]"]) (auto simp: accounts_def)
  qed
qed

lemma http_run_leads:
  assumes "lower_laws lo" "app_inv rinv view tinv (srv_world s)" "steady_clock (clock (sources (srv_world s)))"
    "gin_laws G" "harmless rinv view tinv spent redis" "\<And>db. dbPinger = Some db \<Longrightarrow> harmless rinv view tinv spent db"
    "E = main_router G U L lo R H T A redis dbPinger origins"
  shows "\<exists>trs y. list_all2 (accounts E) (http_run E evs s) trs \<and> leads L (auth_state s) (concat trs) y \<and>
    in_order (now_of s) (http_run E evs s)"
  using assms(2,3)
proof (induction evs arbitrary: s)
  case Nil
  then show ?case by (auto simp: in_order_def intro!: exI [of _ "[]"] leads_refl)
next
  case (Cons ev evs)
  show ?case
  proof (cases ev)
    case (Serve rq)
    obtain c s' where h: "http_handle E rq s = (c, s')" by fastforce
    obtain tr where tr: "leads L (auth_state s) tr (auth_state s')" "accounts E (now_of s, rq, c, now_of s') tr"
        "evolves rinv view tinv spent (srv_world s) (srv_world s')"
      using http_leads [OF assms(1) Cons.prems assms(4,5) _ assms(7) h] assms(6) by blast
    have gl: "gen_later (sources (srv_world s)) (sources (srv_world s'))" using tr(3) by (simp add: evolves_def)
    have "steady_clock (clock (sources (srv_world s')))" using Cons.prems(2) gl by (simp add: gen_later_def)
    then obtain trs y where "list_all2 (accounts E) (http_run E evs s') trs" "leads L (auth_state s') (concat trs) y"
        "in_order (now_of s') (http_run E evs s')"
      using Cons.IH [OF evolves_inv [OF tr(3)]] by blast
    then show ?thesis using tr(2) leads_trans [OF tr(1)] now_later [OF Cons.prems(2) gl] h
      by (intro exI [of _ "tr # trs"] exI [of _ y]) (auto simp: Serve in_order_Cons)
  next
    case (Clean slot)
    obtain g l where k: "kl_sweep (sources (srv_world s), srv_limiter s slot) = (g, l)" by fastforce
    then have g: "g = (sources (srv_world s))\<lparr>clock_pos := Suc (clock_pos (sources (srv_world s)))\<rparr>"
      by (auto simp: kl_sweep_def time_now_def)
    have s': "srv_world (clean_slot slot s) = (srv_world s)\<lparr>sources := g\<rparr>"
        "srv_limiter (clean_slot slot s) = (srv_limiter s)(slot := l)" using k by (simp_all add: clean_slot_def)
    have gl: "gen_later (sources (srv_world s)) g" by (simp add: g gen_later_def)
    have step: "leads L (auth_state s) [] (auth_state (clean_slot slot s))"
      using leads_sweep [of L "auth_state s"] k leads_later [OF gl] s' by (cases "slot = AuthLimit") simp_all
    have i: "app_inv rinv view tinv (srv_world (clean_slot slot s))"
      unfolding s'(1) by (rule evolves_inv [OF gen_step [OF Cons.prems(1) gl]])
    have "steady_clock (clock (sources (srv_world (clean_slot slot s))))" using Cons.prems(2) by (simp add: s' g)
    then obtain trs y where "list_all2 (accounts E) (http_run E evs (clean_slot slot s)) trs"
        "leads L (auth_state (clean_slot slot s)) (concat trs) y"
        "in_order (now_of (clean_slot slot s)) (http_run E evs (clean_slot slot s))"
      using Cons.IH [OF i] by blast
    then show ?thesis using leads_trans [OF step] now_later [OF Cons.prems(2), of "clean_slot slot s"] gl
      by (intro exI [of _ trs] exI [of _ y]) (auto simp: Clean s' intro: in_order_earlier)
  next
    case (Wait n)
    define s' where "s' = s\<lparr>srv_world := later n (srv_world s)\<rparr>"
    have gl: "gen_later (sources (srv_world s)) (sources (srv_world s'))" by (simp add: s'_def later_def gen_later_def)
    have step: "leads L (auth_state s) [] (auth_state s')"
      by (rule leads_spared [OF gl]) (simp add: s'_def)
    have w: "srv_world s' = (srv_world s)\<lparr>sources := sources (srv_world s')\<rparr>" by (simp add: s'_def later_def)
    have i: "app_inv rinv view tinv (srv_world s')"
      by (subst w) (rule evolves_inv [OF gen_step [OF Cons.prems(1) gl]])
    have "steady_clock (clock (sources (srv_world s')))" using Cons.prems(2) by (simp add: s'_def later_def)
    then obtain trs y where "list_all2 (accounts E) (http_run E evs s') trs" "leads L (auth_state s') (concat trs) y"
        "in_order (now_of s') (http_run E evs s')"
      using Cons.IH [OF i] by blast
    then show ?thesis using leads_trans [OF step] now_later [OF Cons.prems(2) gl]
      by (intro exI [of _ trs] exI [of _ y]) (auto simp: Wait s'_def intro: in_order_earlier)
  qed
qed

end

subsection \<open>Counting attempts\<close>

abbreviation started :: "http_entry \<Rightarrow> time" where "started e \<equiv> fst e"
abbreviation finished :: "http_entry \<Rightarrow> time" where "finished e \<equiv> snd (snd (snd e))"

lemma in_order_ConsD: "in_order t0 ((a, rq, c, b) # run) \<Longrightarrow> t0 \<le> a \<and> a \<le> b \<and> in_order b run"
  by (auto simp: in_order_def)

lemma in_order_appendD: "in_order t0 (xs @ ys) \<Longrightarrow> in_order t0 xs \<and> in_order t0 ys"
  by (auto simp: in_order_def sorted_append)

lemma in_order_bounds:
  "in_order t0 run \<Longrightarrow> e \<in> set run \<Longrightarrow>
     t0 \<le> started (hd run) \<and> started (hd run) \<le> started e \<and> finished e \<le> finished (last run)"
proof (induction run arbitrary: t0)
  case (Cons x run)
  obtain a rq c b where x: "x = (a, rq, c, b)" by (metis prod_cases4)
  note o = in_order_ConsD [OF Cons.prems(1) [unfolded x]]
  have last: "b \<le> finished (last run)" if "run \<noteq> []"
  proof -
    obtain a' rq' c' b' where l: "last run = (a', rq', c', b')" by (metis prod_cases4)
    then have "(a', rq', c', b') \<in> set run" using that last_in_set by metis
    then show ?thesis using o l by (force simp: in_order_def)
  qed
  show ?case
  proof (cases "e = x")
    case True
    then show ?thesis using o last x by (cases "run = []") auto
  next
    case False
    then have "e \<in> set run" using Cons.prems(2) by simp
    moreover from this have "run \<noteq> []" by auto
    ultimately show ?thesis using Cons.IH [of b] o x by auto
  qed
qed simp

definition questions ::"string \<Rightarrow> (string \<times> time \<times> bool) list \<Rightarrow> (time \<times> bool) list" where
  "questions key tr = map snd (filter (\<lambda>p. fst p = key) tr)"

lemma questions_append [simp]: "questions key (xs @ ys) = questions key xs @ questions key ys"
  by (simp add: questions_def)

lemma questions_zip: "zip (times_of key tr) (decisions_of key tr) = questions key tr"
  by (induction tr) (auto simp: times_of_def decisions_of_def questions_def)

lemma attempts_questions:
  assumes "list_all2 (accounts E) run trs"
  shows "length (filter (attempt E ip) run) \<le> length (filter snd (questions ip (concat trs)))"
  using assms
proof (induction run trs rule: list_all2_induct)
  case (Cons e run tr trs)
  have "attempt E ip e \<Longrightarrow> \<exists>t. questions ip tr = [(t, True)]"
    using Cons.hyps(1) by (cases e) (auto simp: accounts_def attempt_def questions_def)
  then show ?case using Cons.IH by (cases "attempt E ip e") auto
qed simp

lemma questions_within:
  assumes "list_all2 (accounts E) run trs" "in_order t0 run" "(t, ok) \<in> set (questions ip (concat trs))"
  shows "started (hd run) \<le> t \<and> t \<le> finished (last run)"
proof -
  obtain tr where tr: "tr \<in> set trs" "(ip, t, ok) \<in> set tr" using assms(3) by (auto simp: questions_def)
  then obtain i where i: "i < length run" "trs ! i = tr"
    using list_all2_lengthD [OF assms(1)] by (metis in_set_conv_nth)
  then have "accounts E (run ! i) tr" using assms(1) by (auto simp: list_all2_conv_all_nth)
  then have "started (run ! i) \<le> t \<and> t \<le> finished (run ! i)"
    using tr(2) by (cases "run ! i") (auto simp: accounts_def)
  then show ?thesis using in_order_bounds [OF assms(2) nth_mem [OF i(1)]] by auto
qed

lemma in_order_entry: "in_order t0 run \<Longrightarrow> e \<in> set run \<Longrightarrow> started e \<le> finished e"
proof (induction run arbitrary: t0)
  case (Cons x run)
  obtain a rq c b where x: "x = (a, rq, c, b)" by (metis prod_cases4)
  note in_order_ConsD [OF Cons.prems(1) [unfolded x]]
  then show ?case using Cons.IH [of b] Cons.prems(2) x by auto
qed simp

text \<open>
  \<^bold>\<open>C14\<close> Brute force over HTTP is bounded. Over the in-memory deployment with the limits the router
  sets, however requests of any kind and from any client, sweeps and pauses follow one another, of
  the requests to register, log in or refresh that come from one client address in any stretch of
  a run, at most five, and ten more per second the stretch lasts, get past the limiters.
\<close>

theorem attempts_bounded:
  fixes L :: "'db redis_lib" and w :: "(memory_store, 'db redis_conn, 'a) world" and RL :: "'l rate_lib"
  assumes "uuid_laws U" and "redis_laws L" and "argon2_laws lib" and "lower_laws lo" and "gin_laws G"
    and "rate_laws RL" and "steady_clock (clock (sources w))" and "memory_world U L lo w"
    and "E = main_router G U RL lo (memory_repository U) (argon2_hasher lib) (jwt_token_service J U L svc) A redis_ping None origins"
    and "http_run E evs \<lparr>srv_world = w, srv_limiter = new_limiters\<rparr> = before @ stretch @ after" and "stretch \<noteq> []"
  shows "int (length (filter (attempt E ip) stretch)) * 10 ^ 9
    \<le> 5 * 10 ^ 9 + 10 * (finished (last stretch) - started (hd stretch))"
proof -
  note laws = memory_laws [OF assms(1-4), of J svc]
  let ?s = "\<lparr>srv_world = w, srv_limiter = new_limiters\<rparr> :: (memory_store, 'db redis_conn, 'a, 'l) server"
  have inv: "memory_world U L lo (srv_world ?s)" "steady_clock (clock (sources (srv_world ?s)))" using assms(7,8) by simp_all
  obtain trs y where run: "list_all2 (accounts E) (before @ stretch @ after) trs" "leads RL (auth_state ?s) (concat trs) y"
      "in_order (now_of ?s) (before @ stretch @ after)"
    using application.http_run_leads [OF laws assms(4) inv assms(5) redis_ping_harmless [OF laws] _ assms(9), of evs]
    unfolding assms(10) by auto
  obtain tb ts ta where trs: "trs = tb @ ts @ ta" "list_all2 (accounts E) stretch ts"
    using run(1) by (auto simp: list_all2_append1)
  have o: "in_order (now_of ?s) stretch" using run(3) in_order_appendD by blast
  obtain levs where "limiter_run RL levs (auth_state ?s) = concat trs" using leads_run [OF run(2)] by blast
  then have lim: "limiter_run RL levs (sources w, newKeyedLimiter 10 5) = concat tb @ concat ts @ concat ta"
    by (simp add: new_limiters_def trs(1))
  have count: "length (filter (attempt E ip) stretch) \<le> length (filter snd (questions ip (concat ts)))"
    by (rule attempts_questions [OF trs(2)])
  have d: "started (hd stretch) \<le> finished (last stretch)"
    using in_order_bounds [OF o last_in_set [OF assms(11)]] in_order_entry [OF o last_in_set [OF assms(11)]] by linarith
  show ?thesis
  proof (cases "questions ip (concat ts) = []")
    case True
    then show ?thesis using count d by simp
  next
    case False
    let ?q = "questions ip (concat ts)"
    have "int (length (filter snd ?q)) * 10 ^ 9 \<le> int 5 * 10 ^ 9 + int 10 * (fst (last ?q) - fst (hd ?q))"
      by (rule rate_bound_lemma [OF assms(6,7) _ _ False, where key = ip and evs = levs and
            before = "questions ip (concat tb)" and after = "questions ip (concat ta)"])
        (simp_all add: refills_def lim questions_zip)
    moreover have "started (hd stretch) \<le> fst (hd ?q)" "fst (last ?q) \<le> finished (last stretch)"
      using questions_within [OF trs(2) o, of "fst (hd ?q)" "snd (hd ?q)" ip] questions_within [OF trs(2) o, of "fst (last ?q)" "snd (last ?q)" ip]
        False by simp_all
    moreover have "int (length (filter (attempt E ip) stretch)) * 10 ^ 9 \<le> int (length (filter snd ?q)) * 10 ^ 9"
      using count by simp
    ultimately show ?thesis by simp
  qed
qed

lemma attempts_bounded_witness:
  "let rq = demo_request ''POST'' ''/v1/auth/login'' '''' ''bob@e.com,correct horse'';
       run = http_run demo_router (replicate 7 (Serve rq)) (demo_server (demo_world [] 0))
   in int (length (filter (attempt demo_router ''10.0.0.1'') run)) * 10 ^ 9
        \<le> 5 * 10 ^ 9 + 10 * (finished (last run) - started (hd run))"
proof -
  let ?rq = "demo_request ''POST'' ''/v1/auth/login'' '''' ''bob@e.com,correct horse''"
  let ?run = "http_run demo_router (replicate 7 (Serve ?rq)) \<lparr>srv_world = demo_world [] 0, srv_limiter = new_limiters\<rparr>"
  have steady: "steady_clock (clock (sources (demo_world [] 0)))"
    by (simp add: steady_clock_def demo_world_def demo_gen_def)
  have inv: "memory_world rfc_uuid demo_redis (\<lambda>r. r) (demo_world [] 0)" by (rule demo_world_inv) simp_all
  have ne: "?run \<noteq> []" by (simp add: numeral_eq_Suc split: prod.splits)
  have "?run = [] @ ?run @ []" by simp
  from attempts_bounded [OF rfc_uuid_laws demo_redis_laws demo_argon2_laws lower_laws_id demo_gin_laws bucket_laws
      steady inv refl this ne, of "''10.0.0.1''"]
  show ?thesis by (simp add: demo_server_def Let_def)
qed

end
