(* ===== verification/ConfigLoad.thy ===== *)
theory ConfigLoad
  imports HttpFlows
begin

section \<open>Configuration\<close>

text \<open>
  \<^verbatim>\<open>internal/config/config.go\<close>. viper is a parameter: how a text from the environment is read as an
  integer of a width or as a duration, whether a key can be bound, and the error \<^verbatim>\<open>Unmarshal\<close> makes
  of the errors of the fields. A variable of the environment that is empty counts as unset, and
  only keys with a default or an explicit binding are looked up. \<^verbatim>\<open>main.go\<close> hands
  \<open>AllowedOriginList\<close> to the CORS middleware: the headers of every response, last in this theory.
\<close>

datatype setting = Text string | Number int | Span duration

record viper_lib =
  viper_int :: "nat \<Rightarrow> string \<Rightarrow> error + int"
  viper_duration :: "string \<Rightarrow> error + duration"
  viper_BindEnv :: "string \<Rightarrow> error option"
  viper_join :: "error list \<Rightarrow> error"

record config =
  Host :: string
  Port :: int
  GRPCPort :: int
  Adapter :: string
  DatabaseURL :: string
  RedisURL :: string
  JWTPrivateKeyPath :: string
  JWTPublicKeyPath :: string
  JWTAccessTTL :: duration
  JWTRefreshTTL :: duration
  OTLPEndpoint :: string
  AllowedOrigins :: string
  TrustedProxies :: string
  CircuitFailThreshold :: int
  CircuitResetTimeout :: duration
  RetryMaxAttempts :: int
  RetryInitialBackoff :: duration
  RetryBackoffMultiplier :: int
  DBPoolMaxConns :: int
  DBPoolMinConns :: int
  DBPoolConnectTimeout :: duration
  DBPoolIdleTimeout :: duration
  DBPoolMaxLifetime :: duration
  RedisConnectTimeout :: duration
  RedisCommandTimeout :: duration

abbreviation Second :: duration where "Second \<equiv> 10 ^ 9"
abbreviation Minute :: duration where "Minute \<equiv> 60 * 10 ^ 9"
abbreviation Hour :: duration where "Hour \<equiv> 3600 * 10 ^ 9"

definition config_defaults :: "(string \<times> setting) list" where
  "config_defaults =
    [(''HOST'', Text ''0.0.0.0''),
     (''PORT'', Number 8080),
     (''GRPC_PORT'', Number 50051),
     (''ADAPTER'', Text ''memory''),
     (''REDIS_URL'', Text ''redis://localhost:6379''),
     (''JWT_ACCESS_TTL'', Span (15 * Minute)),
     (''JWT_REFRESH_TTL'', Span (7 * 24 * Hour)),
     (''OTLP_ENDPOINT'', Text ''localhost:4317''),
     (''ALLOWED_ORIGINS'', Text ''http://localhost:3000''),
     (''TRUSTED_PROXIES'', Text ''''),
     (''CIRCUIT_FAILURE_THRESHOLD'', Number 5),
     (''CIRCUIT_RESET_TIMEOUT'', Span (30 * Second)),
     (''RETRY_MAX_ATTEMPTS'', Number 3),
     (''RETRY_INITIAL_BACKOFF'', Span (50 * 10 ^ 6)),
     (''RETRY_BACKOFF_MULTIPLIER'', Number 2),
     (''DB_POOL_MAX_CONNS'', Number 10),
     (''DB_POOL_MIN_CONNS'', Number 2),
     (''DB_POOL_CONNECT_TIMEOUT'', Span (30 * Second)),
     (''DB_POOL_IDLE_TIMEOUT'', Span (10 * Minute)),
     (''DB_POOL_MAX_LIFETIME'', Span (30 * Minute)),
     (''REDIS_CONNECT_TIMEOUT'', Span (2 * Second)),
     (''REDIS_COMMAND_TIMEOUT'', Span (2 * Second))]"

definition bound_keys :: "string list" where
  "bound_keys = [''DATABASE_URL'', ''JWT_PRIVATE_KEY_PATH'', ''JWT_PUBLIC_KEY_PATH'']"

definition viper_Get :: "(string \<Rightarrow> string option) \<Rightarrow> string \<Rightarrow> setting option" where
  "viper_Get env key =
    (if key \<notin> set (map fst config_defaults @ bound_keys) then None
     else case env key of
       Some v \<Rightarrow> if v = '''' then map_of config_defaults key else Some (Text v)
     | None \<Rightarrow> map_of config_defaults key)"

definition get_string :: "(string \<Rightarrow> string option) \<Rightarrow> string \<Rightarrow> string" where
  "get_string env key = (case viper_Get env key of Some (Text s) \<Rightarrow> s | _ \<Rightarrow> '''')"

definition get_int :: "viper_lib \<Rightarrow> nat \<Rightarrow> (string \<Rightarrow> string option) \<Rightarrow> string \<Rightarrow> error + int" where
  "get_int V bits env key = (case viper_Get env key of
      Some (Text s) \<Rightarrow> viper_int V bits s | Some (Number n) \<Rightarrow> Inr n | Some (Span d) \<Rightarrow> Inr d | None \<Rightarrow> Inr 0)"

definition get_duration :: "viper_lib \<Rightarrow> (string \<Rightarrow> string option) \<Rightarrow> string \<Rightarrow> error + duration" where
  "get_duration V env key = (case viper_Get env key of
      Some (Text s) \<Rightarrow> viper_duration V s | Some (Number n) \<Rightarrow> Inr n | Some (Span d) \<Rightarrow> Inr d | None \<Rightarrow> Inr 0)"

definition value_of :: "error + int \<Rightarrow> int" where
  "value_of x = (case x of Inl e \<Rightarrow> 0 | Inr n \<Rightarrow> n)"

definition viper_Unmarshal :: "viper_lib \<Rightarrow> (string \<Rightarrow> string option) \<Rightarrow> error + config" where
  "viper_Unmarshal V env =
    (let int = get_int V 64 env; int32 = get_int V 32 env; dur = get_duration V env; str = get_string env;
         errors = concat (map (case_sum (\<lambda>e. [e]) (\<lambda>n. []))
           [int ''PORT'', int ''GRPC_PORT'', dur ''JWT_ACCESS_TTL'', dur ''JWT_REFRESH_TTL'',
            int ''CIRCUIT_FAILURE_THRESHOLD'', dur ''CIRCUIT_RESET_TIMEOUT'', int ''RETRY_MAX_ATTEMPTS'',
            dur ''RETRY_INITIAL_BACKOFF'', int ''RETRY_BACKOFF_MULTIPLIER'', int32 ''DB_POOL_MAX_CONNS'',
            int32 ''DB_POOL_MIN_CONNS'', dur ''DB_POOL_CONNECT_TIMEOUT'', dur ''DB_POOL_IDLE_TIMEOUT'',
            dur ''DB_POOL_MAX_LIFETIME'', dur ''REDIS_CONNECT_TIMEOUT'', dur ''REDIS_COMMAND_TIMEOUT''])
     in if errors \<noteq> [] then Inl (viper_join V errors)
        else Inr \<lparr>Host = str ''HOST'', Port = value_of (int ''PORT''), GRPCPort = value_of (int ''GRPC_PORT''),
          Adapter = str ''ADAPTER'', DatabaseURL = str ''DATABASE_URL'', RedisURL = str ''REDIS_URL'',
          JWTPrivateKeyPath = str ''JWT_PRIVATE_KEY_PATH'', JWTPublicKeyPath = str ''JWT_PUBLIC_KEY_PATH'',
          JWTAccessTTL = value_of (dur ''JWT_ACCESS_TTL''), JWTRefreshTTL = value_of (dur ''JWT_REFRESH_TTL''),
          OTLPEndpoint = str ''OTLP_ENDPOINT'', AllowedOrigins = str ''ALLOWED_ORIGINS'',
          TrustedProxies = str ''TRUSTED_PROXIES'',
          CircuitFailThreshold = value_of (int ''CIRCUIT_FAILURE_THRESHOLD''),
          CircuitResetTimeout = value_of (dur ''CIRCUIT_RESET_TIMEOUT''),
          RetryMaxAttempts = value_of (int ''RETRY_MAX_ATTEMPTS''),
          RetryInitialBackoff = value_of (dur ''RETRY_INITIAL_BACKOFF''),
          RetryBackoffMultiplier = value_of (int ''RETRY_BACKOFF_MULTIPLIER''),
          DBPoolMaxConns = value_of (int32 ''DB_POOL_MAX_CONNS''), DBPoolMinConns = value_of (int32 ''DB_POOL_MIN_CONNS''),
          DBPoolConnectTimeout = value_of (dur ''DB_POOL_CONNECT_TIMEOUT''),
          DBPoolIdleTimeout = value_of (dur ''DB_POOL_IDLE_TIMEOUT''),
          DBPoolMaxLifetime = value_of (dur ''DB_POOL_MAX_LIFETIME''),
          RedisConnectTimeout = value_of (dur ''REDIS_CONNECT_TIMEOUT''),
          RedisCommandTimeout = value_of (dur ''REDIS_COMMAND_TIMEOUT'')\<rparr>)"

definition config_Load :: "viper_lib \<Rightarrow> (string \<Rightarrow> string option) \<Rightarrow> error + config" where
  "config_Load V env =
    (case List.find (\<lambda>key. viper_BindEnv V key \<noteq> None) bound_keys of
       Some key \<Rightarrow> Inl (the (viper_BindEnv V key))
     | None \<Rightarrow> viper_Unmarshal V env)"

definition splitTrimmed :: "string \<Rightarrow> string list" where
  "splitTrimmed v = filter (\<lambda>t. t \<noteq> '''') (map trim_space (split_on CHR '','' v))"

definition AllowedOriginList :: "config \<Rightarrow> string list" where
  "AllowedOriginList c = splitTrimmed (AllowedOrigins c)"

definition TrustedProxyList :: "config \<Rightarrow> string list" where
  "TrustedProxyList c = splitTrimmed (TrustedProxies c)"

definition config_CircuitBreaker :: "config \<Rightarrow> circuit_breaker" where
  "config_CircuitBreaker c = new_circuit_breaker (CircuitFailThreshold c) (CircuitResetTimeout c)"

definition config_RetryPolicy :: "config \<Rightarrow> retry_policy" where
  "config_RetryPolicy c = new_retry_policy (RetryMaxAttempts c) (RetryInitialBackoff c) (RetryBackoffMultiplier c)"

subsection \<open>The headers of a response\<close>

text \<open>No handler changes a header it was given, except \<^verbatim>\<open>Retry-After\<close>.\<close>

definition keeps :: "('r, 't, 'a, 'l) http_handler \<Rightarrow> bool" where
  "keeps h \<longleftrightarrow> (\<forall>c s k. k \<noteq> ''Retry-After'' \<longrightarrow> map_of (gc_header (fst (h (c, s)))) k = map_of (gc_header c) k)"

lemma keepsD: "keeps h \<Longrightarrow> k \<noteq> ''Retry-After'' \<Longrightarrow> map_of (gc_header (fst (h (c, s)))) k = map_of (gc_header c) k"
  by (simp add: keeps_def)

lemma too_many_headers: "keeps (tooManyRequests G)"
  by (auto simp: keeps_def tooManyRequests_def gin_JSON_def gin_Header_def split: prod.splits)

lemma keeps_rate_limit: "keeps h \<Longrightarrow> keeps (RateLimit G L slot h)"
  unfolding keeps_def RateLimit_def by (auto simp: too_many_headers [unfolded keeps_def, rule_format] split: prod.splits)

lemma keeps_user_rate_limit: "keeps h \<Longrightarrow> keeps (UserRateLimit G U L slot h)"
  unfolding keeps_def UserRateLimit_def
  by (auto simp: too_many_headers [unfolded keeps_def, rule_format] split: prod.splits option.splits)

lemma keeps_require_auth: "keeps h \<Longrightarrow> keeps (RequireAuth T R h)"
  unfolding keeps_def RequireAuth_def Let_def by (auto simp: gin_JSON_def gin_panic_def split: prod.splits sum.splits)

lemma answer_headers [simp]: "gc_header (fst (answer code body c x)) = gc_header c"
  by (cases x) (auto simp: answer_def fail_with_def gin_JSON_def gin_panic_def split: sum.splits)

lemma keeps_handlers:
  "keeps (auth_Register G h)" "keeps (auth_Login G h)" "keeps (auth_Refresh G h)"
  "keeps (user_GetMe h')" "keeps (user_GetUser U h')" "keeps (user_ListUsers h')" "keeps (user_UpdateMe G h')"
  "keeps (user_ChangePassword G h')" "keeps (user_ChangeRole G U h')" "keeps health_Health" "keeps (health_Ready h'')"
  by (auto simp: keeps_def auth_Register_def auth_Login_def auth_Refresh_def user_GetMe_def user_GetUser_def
      user_ListUsers_def user_UpdateMe_def user_ChangePassword_def user_ChangeRole_def with_claims_def
      health_Health_def health_Ready_def Let_def gin_JSON_def fail_with_def gin_panic_def
      split: sum.splits option.splits prod.splits)

lemma keeps_routes: "r \<in> set (routes E) \<Longrightarrow> keeps (snd (snd r))"
proof -
  have "keeps (\<lambda>(c, s). (gin_JSON code b c, s))" for code b by (simp add: keeps_def gin_JSON_def)
  moreover assume "r \<in> set (routes E)"
  ultimately show ?thesis
    by (auto simp: routes_def Let_def intro!: keeps_handlers keeps_rate_limit keeps_user_rate_limit keeps_require_auth)
qed

lemma splitTrimmed_mem:
  "x \<in> set (splitTrimmed v) \<longleftrightarrow> x \<noteq> '''' \<and> (\<exists>p \<in> set (split_on CHR '','' v). trim_space p = x)"
  by (auto simp: splitTrimmed_def)

lemma prepared_headers:
  "\<forall>(k, v) \<in> set security_headers. map_of (gc_header (prepared E c)) k = Some v"
  "gc_header c = [] \<Longrightarrow> map_of (gc_header (prepared E c)) ''Access-Control-Allow-Origin'' =
     (if gin_GetHeader ''Origin'' c \<in> set (he_origins E) then Some (gin_GetHeader ''Origin'' c) else None)"
proof -
  let ?c = "fold (\<lambda>(k, v). gin_Header k v) security_headers c"
  have g: "gin_GetHeader k ?c = gin_GetHeader k c" for k by (simp add: gin_GetHeader_def)
  show "\<forall>(k, v) \<in> set security_headers. map_of (gc_header (prepared E c)) k = Some v"
    by (simp add: prepared_def Let_def security_headers_def gin_Header_def)
  show "map_of (gc_header (prepared E c)) ''Access-Control-Allow-Origin'' =
     (if gin_GetHeader ''Origin'' c \<in> set (he_origins E) then Some (gin_GetHeader ''Origin'' c) else None)" if "gc_header c = []"
    unfolding prepared_def Let_def g using that by (simp add: security_headers_def gin_Header_def)
qed

text \<open>
  \<^bold>\<open>C23\<close> Every response that passes the router carries the seven security headers, whatever the
  handler did, a refusal by a limiter and an unknown path included; and it names an allowed origin
  exactly when the request's \<^verbatim>\<open>Origin\<close> is one of the trimmed, non-empty parts of the configured
  list, and then that origin, never a wildcard that the request did not send.
\<close>

theorem response_headers:
  assumes "gin_laws (he_gin E)" and "he_origins E = AllowedOriginList cfg" and "http_handle E rq s = (c, s')"
    and "\<nexists>code loc. gin_route (he_gin E) (map (\<lambda>(m, p, _). (m, p)) (routes E)) (rq_method rq) (rq_path rq) = Redirected code loc"
  shows "(\<forall>(k, v) \<in> set security_headers. map_of (gc_header c) k = Some v) \<and>
    map_of (gc_header c) ''Access-Control-Allow-Origin'' =
      (case map_of (rq_header rq) ''Origin'' of
         Some origin \<Rightarrow> if origin \<noteq> '''' \<and> (\<exists>p \<in> set (split_on CHR '','' (AllowedOrigins cfg)). trim_space p = origin)
           then Some origin else None
       | None \<Rightarrow> None)"
proof -
  obtain h ps where h: "keeps h" "(c, s') = gin_chain E h (\<lparr>gc_request = rq, gc_params = ps, gc_user = None,
      gc_status = 200, gc_header = [], gc_body = NoBody\<rparr>, s)"
  proof (cases "gin_route (he_gin E) (map (\<lambda>(m, p, _). (m, p)) (routes E)) (rq_method rq) (rq_path rq)")
    case (Matched i ps)
    then have "i < length (routes E)" using assms(1) unfolding gin_laws_def by fastforce
    then have "keeps (snd (snd (routes E ! i)))" by (intro keeps_routes [of _ E] nth_mem)
    then show thesis using assms(3) Matched by (intro that [of "snd (snd (routes E ! i))" ps]) (simp_all add: http_handle_def)
  next
    case Unmatched
    have "keeps (\<lambda>(c, s). (gin_JSON 404 (TextBody ''404 page not found'') c, s))" by (simp add: keeps_def gin_JSON_def)
    from that [OF this, of "[]"] show thesis using assms(3) Unmatched by (simp add: http_handle_def)
  qed (use assms(4) in blast)
  define c0 where "c0 = \<lparr>gc_request = rq, gc_params = ps, gc_user = None, gc_status = 200, gc_header = [], gc_body = NoBody\<rparr>"
  have k: "map_of (gc_header c) k = map_of (gc_header (prepared E c0)) k" if "k \<noteq> ''Retry-After''" for k
  proof (cases "rq_method rq = ''OPTIONS''")
    case True
    then show ?thesis using h(2) by (simp add: gin_chain_eq c0_def)
  next
    case False
    then have "c = fst (RateLimit (he_gin E) (he_rate E) IpLimit h (prepared E c0, s))"
      using arg_cong [OF h(2), of fst] by (simp add: gin_chain_eq c0_def)
    then show ?thesis using keepsD [OF keeps_rate_limit [OF h(1)] that] by simp
  qed
  have "\<forall>(k, v) \<in> set security_headers. k \<noteq> ''Retry-After''" by (simp add: security_headers_def)
  then have "\<forall>(k, v) \<in> set security_headers. map_of (gc_header c) k = Some v"
    using prepared_headers(1) [of E c0] k by fastforce
  moreover have "map_of (gc_header c) ''Access-Control-Allow-Origin'' =
      (if gin_GetHeader ''Origin'' c0 \<in> set (he_origins E) then Some (gin_GetHeader ''Origin'' c0) else None)"
    using k [of "''Access-Control-Allow-Origin''"] prepared_headers(2) [of c0 E] by (simp add: c0_def)
  ultimately show ?thesis
    unfolding assms(2) AllowedOriginList_def splitTrimmed_mem
    by (auto simp: gin_GetHeader_def or_empty_def c0_def split: option.splits)
qed

definition plain_viper :: viper_lib where
  "plain_viper = \<lparr>viper_int = (\<lambda>bits s. Inl (External ''not a number'')), viper_duration = (\<lambda>s. Inl (External ''not a duration'')),
     viper_BindEnv = (\<lambda>key. None), viper_join = hd\<rparr>"

lemma response_headers_witness:
  "\<exists>cfg c s'. config_Load plain_viper (\<lambda>key. if key = ''ALLOWED_ORIGINS'' then Some '' https://a.example , *,'' else None) = Inr cfg \<and>
     http_handle (demo_router\<lparr>he_origins := AllowedOriginList cfg\<rparr>)
       \<lparr>rq_method = ''OPTIONS'', rq_path = ''/v1/users'', rq_header = [(''Origin'', ''https://a.example'')], rq_query = [],
        rq_body = '''', rq_client_ip = ''10.0.0.1''\<rparr> (demo_server (demo_world [] 0)) = (c, s') \<and>
     map_of (gc_header c) ''Access-Control-Allow-Origin'' = Some ''https://a.example'' \<and>
     map_of (gc_header c) ''X-Frame-Options'' = Some ''DENY''"
proof -
  let ?env = "\<lambda>key. if key = ''ALLOWED_ORIGINS'' then Some '' https://a.example , *,'' else None"
  obtain cfg where cfg: "config_Load plain_viper ?env = Inr cfg" "AllowedOrigins cfg = '' https://a.example , *,''"
    by (simp add: config_Load_def plain_viper_def bound_keys_def viper_Unmarshal_def Let_def get_int_def get_duration_def
        get_string_def viper_Get_def config_defaults_def value_of_def)
  let ?E = "demo_router\<lparr>he_origins := AllowedOriginList cfg\<rparr>"
  let ?rq = "\<lparr>rq_method = ''OPTIONS'', rq_path = ''/v1/users'', rq_header = [(''Origin'', ''https://a.example'')], rq_query = [],
        rq_body = '''', rq_client_ip = ''10.0.0.1''\<rparr>"
  obtain c s' where r: "http_handle ?E ?rq (demo_server (demo_world [] 0)) = (c, s')" by fastforce
  have l: "gin_laws (he_gin ?E)" using demo_gin_laws by (simp add: main_router_def)
  have m: "\<nexists>code loc. gin_route (he_gin ?E) (map (\<lambda>(m, p, _). (m, p)) (routes ?E)) (rq_method ?rq) (rq_path ?rq) = Redirected code loc"
    by (auto simp: main_router_def demo_gin_def split: option.splits)
  have t: "trim_space '' https://a.example '' = ''https://a.example''" by (simp add: go_string_eval)
  have "(\<forall>(k, v) \<in> set security_headers. map_of (gc_header c) k = Some v) \<and>
      map_of (gc_header c) ''Access-Control-Allow-Origin'' = Some ''https://a.example''"
    using response_headers [OF l _ r m, of cfg] t by (simp add: cfg(2))
  then show ?thesis using cfg(1) r by (intro exI [of _ cfg] exI [of _ c] exI [of _ s']) (simp add: security_headers_def)
qed

end
