(* ===== verification/GrpcLayer.thy ===== *)
theory GrpcLayer
  imports HttpFlows
begin

section \<open>The gRPC interface\<close>

text \<open>
  \<^verbatim>\<open>internal/interface/grpc\<close>: the status codes, the authentication interceptor and the two servers.
  A request is one of the protobuf messages with the metadata of the call; its method is the one
  the generated service descriptor routes it by. The servers hold the same use cases as the HTTP
  handlers. A panic is not recovered: \<open>Crash\<close>. The formatting of a time is a parameter.
\<close>

subsection \<open>Status codes\<close>

datatype code =
  InvalidArgument | AlreadyExists | NotFound | Unauthenticated | PermissionDenied | Unavailable | Internal

fun status_code :: "error \<Rightarrow> code" where
  "status_code ErrInvalidEmail = InvalidArgument"
| "status_code ErrInvalidPassword = InvalidArgument"
| "status_code ErrInvalidName = InvalidArgument"
| "status_code ErrInvalidRole = InvalidArgument"
| "status_code ErrEmailAlreadyExists = AlreadyExists"
| "status_code ErrUserNotFound = NotFound"
| "status_code ErrInvalidCredentials = Unauthenticated"
| "status_code ErrTokenInvalid = Unauthenticated"
| "status_code ErrAccountInactive = PermissionDenied"
| "status_code ErrInsufficientPerms = PermissionDenied"
| "status_code ErrServiceUnavailable = Unavailable"
| "status_code _ = Internal"

subsection \<open>Messages\<close>

datatype pb_request =
    RegisterRequest string string string
  | LoginRequest string string
  | RefreshTokenRequest string
  | GetMeRequest
  | ListUsersRequest "32 word" "32 word"
  | UpdateProfileRequest string
  | ChangePasswordRequest string string
  | ChangeRoleRequest string string

record pb_user =
  pb_id :: string
  pb_email :: string
  pb_name :: string
  pb_role :: string
  pb_is_active :: bool
  pb_created_at :: string
  pb_updated_at :: string

datatype pb_response =
    AuthResponse (pb_access: string) (pb_refresh: string) (pb_summary: "string \<times> string \<times> string \<times> string")
  | UserResponse pb_user
  | ListUsersResponse "pb_user list" pagination_output
  | ChangePasswordResponse

datatype grpc_result = Status code string | Reply pb_response | Crash

fun full_method :: "pb_request \<Rightarrow> string" where
  "full_method (RegisterRequest e p n) = ''/boilerplate.v1.AuthService/Register''"
| "full_method (LoginRequest e p) = ''/boilerplate.v1.AuthService/Login''"
| "full_method (RefreshTokenRequest t) = ''/boilerplate.v1.AuthService/RefreshToken''"
| "full_method GetMeRequest = ''/boilerplate.v1.UserService/GetMe''"
| "full_method (ListUsersRequest p s) = ''/boilerplate.v1.UserService/ListUsers''"
| "full_method (UpdateProfileRequest n) = ''/boilerplate.v1.UserService/UpdateProfile''"
| "full_method (ChangePasswordRequest c n) = ''/boilerplate.v1.UserService/ChangePassword''"
| "full_method (ChangeRoleRequest i r) = ''/boilerplate.v1.UserService/ChangeRole''"

definition toStatus :: "error \<Rightarrow> grpc_result" where
  "toStatus e = (if e = RuntimePanic then Crash else Status (status_code e) (error_message e))"

definition timeLayout :: string where
  "timeLayout = ''2006-01-02T15:04:05.999999999Z07:00''"

definition toAuthResponse :: "uuid_lib \<Rightarrow> auth_output \<Rightarrow> pb_response" where
  "toAuthResponse U out = AuthResponse (auth_access_token out) (auth_refresh_token out)
     (uuid_String U (sum_id (auth_user out)), sum_email (auth_user out), sum_name (auth_user out), sum_role (auth_user out))"

definition toUserResponse :: "uuid_lib \<Rightarrow> (string \<Rightarrow> time \<Rightarrow> string) \<Rightarrow> user_output \<Rightarrow> pb_user" where
  "toUserResponse U fmt out =
    \<lparr>pb_id = uuid_String U (out_id out), pb_email = out_email out, pb_name = out_name out, pb_role = out_role out,
     pb_is_active = out_is_active out, pb_created_at = fmt timeLayout (out_created_at out),
     pb_updated_at = fmt timeLayout (out_updated_at out)\<rparr>"

definition grpc_answer :: "('x \<Rightarrow> pb_response) \<Rightarrow> (error + 'x) \<times> 'w \<Rightarrow> grpc_result \<times> 'w" where
  "grpc_answer f r = (case r of (Inl e, w) \<Rightarrow> (toStatus e, w) | (Inr out, w) \<Rightarrow> (Reply (f out), w))"

subsection \<open>The interceptor\<close>

record authenticated_caller =
  caller_ID :: uuid
  caller_Role :: role

definition methodsRequiringAuth :: "string list" where
  "methodsRequiringAuth =
    [''/boilerplate.v1.UserService/GetMe'', ''/boilerplate.v1.UserService/UpdateProfile'',
     ''/boilerplate.v1.UserService/ChangePassword'', ''/boilerplate.v1.UserService/ChangeRole'']"

record grpc_call =
  gr_metadata :: "(string \<times> string list) list option"
  gr_message :: pb_request

definition authenticate ::
  "'t token_service \<Rightarrow> 'r user_repository \<Rightarrow> (string \<times> string list) list option \<Rightarrow> ('r, 't, 'a) world \<Rightarrow>
   (grpc_result + authenticated_caller) \<times> ('r, 't, 'a) world" where
  "authenticate T R md w =
    (case md of
       None \<Rightarrow> (Inl (Status Unauthenticated ''missing bearer token''), w)
     | Some md \<Rightarrow>
        (let values = (case map_of md ''authorization'' of None \<Rightarrow> [] | Some vs \<Rightarrow> vs) in
         if values = [] \<or> \<not> has_prefix (hd values) ''Bearer ''
         then (Inl (Status Unauthenticated ''missing bearer token''), w)
         else let token = trim_prefix (hd values) ''Bearer '' in
           case on_gen (ValidateAccessToken T token) w of
             (Inl e, w) \<Rightarrow> (Inl (if e = RuntimePanic then Crash else Status Unauthenticated ''invalid or expired token''), w)
           | (Inr claims, w) \<Rightarrow>
               (case on_repo (FindByID R (claim_user_id claims)) w of
                  (Inl e, w) \<Rightarrow> (Inl (if e = RuntimePanic then Crash else Status Unauthenticated ''invalid or expired token''), w)
                | (Inr user, w) \<Rightarrow>
                    if \<not> usr_is_active (user_at user w) then (Inl (Status PermissionDenied ''account is inactive''), w)
                    else (Inr \<lparr>caller_ID = claim_user_id claims, caller_Role = claim_role claims\<rparr>, w))))"

subsection \<open>AuthServer and UserServer\<close>

type_synonym ('r, 't, 'a) auth_server = "('r, 't, 'a) auth_handler"
type_synonym ('r, 't, 'a) user_server = "('r, 't, 'a) user_handler"

type_synonym 'w rpc = "'w \<Rightarrow> grpc_result \<times> 'w"

definition grpc_Register ::
  "uuid_lib \<Rightarrow> ('r, 't, 'a) auth_server \<Rightarrow> string \<Rightarrow> string \<Rightarrow> string \<Rightarrow> ('r, 't, 'a) world rpc" where
  "grpc_Register U s email password name w =
    grpc_answer (toAuthResponse U) (ah_register s \<lparr>reg_email = email, reg_password = password, reg_name = name\<rparr> w)"

definition grpc_Login :: "uuid_lib \<Rightarrow> ('r, 't, 'a) auth_server \<Rightarrow> string \<Rightarrow> string \<Rightarrow> ('r, 't, 'a) world rpc" where
  "grpc_Login U s email password w =
    grpc_answer (toAuthResponse U) (ah_login s \<lparr>login_email = email, login_password = password\<rparr> w)"

definition grpc_RefreshToken :: "uuid_lib \<Rightarrow> ('r, 't, 'a) auth_server \<Rightarrow> string \<Rightarrow> ('r, 't, 'a) world rpc" where
  "grpc_RefreshToken U s tok w = grpc_answer (toAuthResponse U) (ah_refresh s \<lparr>in_refresh_token = tok\<rparr> w)"

definition with_caller ::
  "(authenticated_caller \<Rightarrow> 'w rpc) \<Rightarrow> authenticated_caller option \<Rightarrow> 'w rpc" where
  "with_caller f caller w =
    (case caller of None \<Rightarrow> (Status Unauthenticated ''missing bearer token'', w) | Some caller \<Rightarrow> f caller w)"

definition grpc_GetMe ::
  "uuid_lib \<Rightarrow> (string \<Rightarrow> time \<Rightarrow> string) \<Rightarrow> ('r, 't, 'a) user_server \<Rightarrow> authenticated_caller option \<Rightarrow> ('r, 't, 'a) world rpc" where
  "grpc_GetMe U fmt s = with_caller (\<lambda>caller w.
     grpc_answer (UserResponse \<circ> toUserResponse U fmt)
       (uh_getUser s (caller_ID caller) (caller_Role caller) (caller_ID caller) w))"

definition grpc_ListUsers ::
  "uuid_lib \<Rightarrow> (string \<Rightarrow> time \<Rightarrow> string) \<Rightarrow> ('r, 't, 'a) user_server \<Rightarrow> 32 word \<Rightarrow> 32 word \<Rightarrow>
   authenticated_caller option \<Rightarrow> ('r, 't, 'a) world rpc" where
  "grpc_ListUsers U fmt s page pageSize = with_caller (\<lambda>caller w.
     grpc_answer (\<lambda>out. ListUsersResponse (map (toUserResponse U fmt) (list_items out)) (list_pagination out))
       (uh_listUsers s (caller_Role caller) \<lparr>in_page = page, in_page_size = pageSize\<rparr> w))"

definition grpc_UpdateProfile ::
  "uuid_lib \<Rightarrow> (string \<Rightarrow> time \<Rightarrow> string) \<Rightarrow> ('r, 't, 'a) user_server \<Rightarrow> string \<Rightarrow> authenticated_caller option \<Rightarrow>
   ('r, 't, 'a) world rpc" where
  "grpc_UpdateProfile U fmt s name = with_caller (\<lambda>caller w.
     grpc_answer (UserResponse \<circ> toUserResponse U fmt) (uh_updateProfile s (caller_ID caller) name w))"

definition grpc_ChangePassword ::
  "('r, 't, 'a) user_server \<Rightarrow> string \<Rightarrow> string \<Rightarrow> authenticated_caller option \<Rightarrow> ('r, 't, 'a) world rpc" where
  "grpc_ChangePassword s current new = with_caller (\<lambda>caller w.
     grpc_answer (\<lambda>_. ChangePasswordResponse)
       (uh_changePassword s (caller_ID caller) \<lparr>current_password = current, new_password = new\<rparr> w))"

definition grpc_ChangeRole ::
  "uuid_lib \<Rightarrow> (string \<Rightarrow> time \<Rightarrow> string) \<Rightarrow> ('r, 't, 'a) user_server \<Rightarrow> string \<Rightarrow> string \<Rightarrow>
   authenticated_caller option \<Rightarrow> ('r, 't, 'a) world rpc" where
  "grpc_ChangeRole U fmt s userId newRole = with_caller (\<lambda>caller w.
     if caller_Role caller \<noteq> RoleOwner then (Status PermissionDenied ''insufficient permissions'', w)
     else case uuid_Parse U userId of
       None \<Rightarrow> (Status InvalidArgument ''invalid user id'', w)
     | Some targetID \<Rightarrow>
         (case parse_role newRole of
            Inl e \<Rightarrow> (Status InvalidArgument ''invalid role'', w)
          | Inr role \<Rightarrow>
              grpc_answer (UserResponse \<circ> toUserResponse U fmt) (uh_changeRole s (caller_ID caller) targetID role w)))"

primrec grpc_dispatch ::
  "uuid_lib \<Rightarrow> (string \<Rightarrow> time \<Rightarrow> string) \<Rightarrow> ('r, 't, 'a) auth_server \<Rightarrow> ('r, 't, 'a) user_server \<Rightarrow>
   pb_request \<Rightarrow> authenticated_caller option \<Rightarrow> ('r, 't, 'a) world rpc" where
  "grpc_dispatch U fmt sa su (RegisterRequest e p n) caller = grpc_Register U sa e p n"
| "grpc_dispatch U fmt sa su (LoginRequest e p) caller = grpc_Login U sa e p"
| "grpc_dispatch U fmt sa su (RefreshTokenRequest t) caller = grpc_RefreshToken U sa t"
| "grpc_dispatch U fmt sa su GetMeRequest caller = grpc_GetMe U fmt su caller"
| "grpc_dispatch U fmt sa su (ListUsersRequest p s) caller = grpc_ListUsers U fmt su p s caller"
| "grpc_dispatch U fmt sa su (UpdateProfileRequest n) caller = grpc_UpdateProfile U fmt su n caller"
| "grpc_dispatch U fmt sa su (ChangePasswordRequest c n) caller = grpc_ChangePassword su c n caller"
| "grpc_dispatch U fmt sa su (ChangeRoleRequest i r) caller = grpc_ChangeRole U fmt su i r caller"

definition UnaryAuthInterceptor ::
  "'t token_service \<Rightarrow> 'r user_repository \<Rightarrow> (pb_request \<Rightarrow> authenticated_caller option \<Rightarrow> ('r, 't, 'a) world rpc) \<Rightarrow>
   grpc_call \<Rightarrow> ('r, 't, 'a) world rpc" where
  "UnaryAuthInterceptor T R handler call w =
    (if full_method (gr_message call) \<notin> set methodsRequiringAuth then handler (gr_message call) None w
     else case authenticate T R (gr_metadata call) w of
       (Inl status, w) \<Rightarrow> (status, w)
     | (Inr caller, w) \<Rightarrow> handler (gr_message call) (Some caller) w)"

definition grpc_handle ::
  "uuid_lib \<Rightarrow> (string \<Rightarrow> time \<Rightarrow> string) \<Rightarrow> (nat \<Rightarrow> nat) \<Rightarrow> 'r user_repository \<Rightarrow> password_hasher \<Rightarrow>
   't token_service \<Rightarrow> 'a audit_port \<Rightarrow> grpc_call \<Rightarrow> ('r, 't, 'a) world rpc" where
  "grpc_handle U fmt lo R H T A =
    UnaryAuthInterceptor T R (grpc_dispatch U fmt (main_auth_handler lo R H T A) (main_user_handler R H A))"

subsection \<open>The two interfaces compared\<close>

text \<open>The REST endpoint of a message, behind the rate limiters, and the request that carries the same.\<close>

primrec rest_endpoint ::
  "gin_lib \<Rightarrow> uuid_lib \<Rightarrow> ('r, 't, 'a) auth_handler \<Rightarrow> ('r, 't, 'a) user_handler \<Rightarrow> pb_request \<Rightarrow> ('r, 't, 'a, 'l) http_handler" where
  "rest_endpoint G U ah uh (RegisterRequest e p n) = auth_Register G ah"
| "rest_endpoint G U ah uh (LoginRequest e p) = auth_Login G ah"
| "rest_endpoint G U ah uh (RefreshTokenRequest t) = auth_Refresh G ah"
| "rest_endpoint G U ah uh GetMeRequest = user_GetMe uh"
| "rest_endpoint G U ah uh (ListUsersRequest p s) = user_ListUsers uh"
| "rest_endpoint G U ah uh (UpdateProfileRequest n) = user_UpdateMe G uh"
| "rest_endpoint G U ah uh (ChangePasswordRequest c n) = user_ChangePassword G uh"
| "rest_endpoint G U ah uh (ChangeRoleRequest i r) = user_ChangeRole G U uh"

definition rest_handler ::
  "gin_lib \<Rightarrow> uuid_lib \<Rightarrow> 't token_service \<Rightarrow> 'r user_repository \<Rightarrow> ('r, 't, 'a) auth_handler \<Rightarrow> ('r, 't, 'a) user_handler \<Rightarrow>
   pb_request \<Rightarrow> ('r, 't, 'a, 'l) http_handler" where
  "rest_handler G U T R ah uh m = (case m of
      RegisterRequest _ _ _ \<Rightarrow> rest_endpoint G U ah uh m
    | LoginRequest _ _ \<Rightarrow> rest_endpoint G U ah uh m
    | RefreshTokenRequest _ \<Rightarrow> rest_endpoint G U ah uh m
    | _ \<Rightarrow> RequireAuth T R (rest_endpoint G U ah uh m))"

definition bearer_header :: "(string \<times> string list) list option \<Rightarrow> string" where
  "bearer_header md = (case md of None \<Rightarrow> '''' | Some md \<Rightarrow>
     (case map_of md ''authorization'' of Some (v # _) \<Rightarrow> v | _ \<Rightarrow> ''''))"

primrec same_content :: "gin_lib \<Rightarrow> gin_context \<Rightarrow> pb_request \<Rightarrow> bool" where
  "same_content G c (RegisterRequest e p n) \<longleftrightarrow>
     gin_bind G [''email'', ''password'', ''name''] (rq_body (gc_request c)) = Inr [e, p, n]"
| "same_content G c (LoginRequest e p) \<longleftrightarrow> gin_bind G [''email'', ''password''] (rq_body (gc_request c)) = Inr [e, p]"
| "same_content G c (RefreshTokenRequest t) \<longleftrightarrow> gin_bind G [''refresh_token''] (rq_body (gc_request c)) = Inr [t]"
| "same_content G c GetMeRequest \<longleftrightarrow> True"
| "same_content G c (ListUsersRequest p s) \<longleftrightarrow> query_int32 ''page'' c = Some p \<and> query_int32 ''page_size'' c = Some s"
| "same_content G c (UpdateProfileRequest n) \<longleftrightarrow> gin_bind G [''name''] (rq_body (gc_request c)) = Inr [n]"
| "same_content G c (ChangePasswordRequest old new) \<longleftrightarrow>
     gin_bind G [''current_password'', ''new_password''] (rq_body (gc_request c)) = Inr [old, new]"
| "same_content G c (ChangeRoleRequest i r) \<longleftrightarrow> gin_Param ''id'' c = i \<and>
     gin_bind G [''role''] (rq_body (gc_request c)) = Inr [r]"

fun code_statuses :: "code \<Rightarrow> nat set" where
  "code_statuses InvalidArgument = {400, 422}"
| "code_statuses AlreadyExists = {409}"
| "code_statuses NotFound = {404}"
| "code_statuses Unauthenticated = {401}"
| "code_statuses PermissionDenied = {403}"
| "code_statuses Unavailable = {503}"
| "code_statuses Internal = {500}"

definition mirrors :: "uuid_lib \<Rightarrow> (string \<Rightarrow> time \<Rightarrow> string) \<Rightarrow> grpc_result \<Rightarrow> gin_context \<Rightarrow> bool" where
  "mirrors U fmt res c \<longleftrightarrow> (case res of
      Status code msg \<Rightarrow> gc_status c \<in> code_statuses code \<and> (\<exists>m. gc_body c = ErrorBody m)
    | Crash \<Rightarrow> gc_status c = 500 \<and> gc_body c = NoBody
    | Reply r \<Rightarrow> (case gc_body c of
          AuthBody out \<Rightarrow> r = toAuthResponse U out \<and> gc_status c \<in> {200, 201}
        | UserBody out \<Rightarrow> r = UserResponse (toUserResponse U fmt out) \<and> gc_status c = 200
        | UsersBody out \<Rightarrow> r = ListUsersResponse (map (toUserResponse U fmt) (list_items out)) (list_pagination out) \<and>
            gc_status c = 200
        | NoBody \<Rightarrow> r = ChangePasswordResponse \<and> gc_status c = 204
        | _ \<Rightarrow> False))"

lemma status_code_statuses: "domainStatus e \<in> code_statuses (status_code e)"
  by (cases e) simp_all

lemma mirrors_failure: "mirrors U fmt (toStatus e) (fail_with e c)"
  using status_code_statuses [of e]
  by (auto simp: mirrors_def toStatus_def fail_with_def gin_panic_def gin_JSON_def)

text \<open>The same use case at the end of both.\<close>

lemma mirrors_same:
  assumes "\<And>out. mirrors U fmt (Reply (f out)) (gin_JSON code (body out) c)"
    "grpc_answer f (uc (srv_world s)) = (res, w')" "answer code body c (on_world uc s) = (c', s')"
  shows "srv_world s' = w' \<and> mirrors U fmt res c'"
  using assms mirrors_failure [of U fmt _ c]
  by (auto simp: grpc_answer_def answer_def on_world_def split: prod.splits sum.splits)

lemma set_user_content [simp]: "gin_Param k (c\<lparr>gc_user := u\<rparr>) = gin_Param k c"
  "query_int32 k (c\<lparr>gc_user := u\<rparr>) = query_int32 k c"
  by (simp_all add: gin_Param_def query_int32_def gin_Query_def)

lemma claims_eta [simp]: "\<lparr>claim_user_id = claim_user_id cl, claim_role = claim_role cl\<rparr> = cl"
  by (cases cl) simp

lemma require_auth_authenticate:
  assumes "gin_GetHeader ''Authorization'' c = bearer_header md"
  shows "case authenticate T R md (srv_world s) of
      (Inl st, w) \<Rightarrow> (\<exists>c1. RequireAuth T R h (c, s) = (c1, s\<lparr>srv_world := w\<rparr>) \<and> mirrors U fmt st c1)
    | (Inr caller, w) \<Rightarrow> RequireAuth T R h (c, s) =
        h (c\<lparr>gc_user := Some \<lparr>claim_user_id = caller_ID caller, claim_role = caller_Role caller\<rparr>\<rparr>, s\<lparr>srv_world := w\<rparr>)"
  using assms
  by (auto simp: authenticate_def RequireAuth_def bearer_header_def Let_def mirrors_def gin_JSON_def gin_panic_def
      has_prefix_def on_world_def split: option.splits list.splits prod.splits sum.splits)

subsection \<open>Properties\<close>

lemma protected_method: "full_method m \<in> set methodsRequiringAuth \<longleftrightarrow>
    (\<exists>n p q. m \<in> {GetMeRequest, UpdateProfileRequest n, ChangePasswordRequest p q, ChangeRoleRequest p q})"
  by (cases m) (auto simp: methodsRequiringAuth_def)

lemma mirrors_protected:
  assumes "full_method m \<in> set methodsRequiringAuth" "same_content G c m"
    "gc_user c = Some \<lparr>claim_user_id = caller_ID caller, claim_role = caller_Role caller\<rparr>"
    "grpc_dispatch U fmt ah uh m (Some caller) (srv_world s) = (res, w')"
    "rest_endpoint G U ah uh m (c, s) = (c', s')"
  shows "srv_world s' = w' \<and> mirrors U fmt res c'"
proof -
  have reply: "mirrors U fmt (Reply ((UserResponse \<circ> toUserResponse U fmt) out)) (gin_JSON 200 (UserBody out) c)"
    "mirrors U fmt (Reply ((\<lambda>_. ChangePasswordResponse) x)) (gin_JSON 204 ((\<lambda>_. NoBody) x) c)" for out and x :: unit
    by (simp_all add: mirrors_def gin_JSON_def)
  note user = mirrors_same [OF reply(1)] and empty = mirrors_same [OF reply(2)]
  note defs = with_claims_def with_caller_def GetClaims_def assms(3)
  consider "m = GetMeRequest" | n where "m = UpdateProfileRequest n" | p q where "m = ChangePasswordRequest p q"
    | p q where "m = ChangeRoleRequest p q" using assms(1) protected_method by auto
  then show ?thesis
  proof cases
    case 1
    then show ?thesis
      using assms(4,5) by (intro user) (simp_all add: defs grpc_GetMe_def user_GetMe_def comp_def)
  next
    case 2
    then show ?thesis
      using assms(2,4,5) by (intro user) (simp_all add: defs grpc_UpdateProfile_def user_UpdateMe_def comp_def)
  next
    case 3
    then show ?thesis
      using assms(2,4,5) by (intro empty) (simp_all add: defs grpc_ChangePassword_def user_ChangePassword_def comp_def)
  next
    case 4
    show ?thesis
    proof (cases "caller_Role caller = RoleOwner \<and> (\<exists>i. uuid_Parse U p = Some i) \<and> (\<exists>r. parse_role q = Inr r)")
      case True
      then obtain i r where "caller_Role caller = RoleOwner" "uuid_Parse U p = Some i" "parse_role q = Inr r" by blast
      then show ?thesis
        using assms(2,4,5) 4 by (intro user) (simp_all add: defs grpc_ChangeRole_def user_ChangeRole_def comp_def)
    next
      case False
      then show ?thesis
        using assms(2,4,5) 4
        by (auto simp: defs grpc_ChangeRole_def user_ChangeRole_def mirrors_def gin_JSON_def fail_with_def parse_role_def
            split: if_splits option.splits)
    qed
  qed
qed

text \<open>
  \<^bold>\<open>C17\<close> gRPC mirrors REST. For every message but \<^verbatim>\<open>ListUsers\<close>, a call over gRPC and a request to the
  corresponding REST endpoint (past the rate limiters, which gRPC does not have) that carry the same
  values and the same bearer token, arriving in the same world, leave the same world, and answer
  alike: the same data, or an error of the same class; what crashes the process over gRPC is a bare
  500 over REST.
\<close>

theorem grpc_mirrors_rest:
  assumes "\<And>p n. m \<noteq> ListUsersRequest p n" and "same_content G c m" and "gc_user c = None"
    and "gin_GetHeader ''Authorization'' c = bearer_header md"
    and "grpc_handle U fmt lo R H T A \<lparr>gr_metadata = md, gr_message = m\<rparr> (srv_world s) = (res, w')"
    and "rest_handler G U T R (main_auth_handler lo R H T A) (main_user_handler R H A) m (c, s) = (c', s')"
  shows "srv_world s' = w' \<and> mirrors U fmt res c'"
proof (cases "full_method m \<in> set methodsRequiringAuth")
  case True
  then have rest: "rest_handler G U T R (main_auth_handler lo R H T A) (main_user_handler R H A) m (c, s) =
      RequireAuth T R (rest_endpoint G U (main_auth_handler lo R H T A) (main_user_handler R H A) m) (c, s)"
    by (auto simp: protected_method rest_handler_def)
  note auth = require_auth_authenticate [OF assms(4), where T = T and R = R and s = s and U = U and fmt = fmt and
      h = "rest_endpoint G U (main_auth_handler lo R H T A) (main_user_handler R H A) m"]
  obtain x w1 where x: "authenticate T R md (srv_world s) = (x, w1)" by fastforce
  show ?thesis
  proof (cases x)
    case (Inl st)
    then have "res = st" "w' = w1" using assms(5) x True by (simp_all add: grpc_handle_def UnaryAuthInterceptor_def)
    then show ?thesis using auth x Inl assms(6) rest by auto
  next
    case (Inr caller)
    let ?c = "c\<lparr>gc_user := Some \<lparr>claim_user_id = caller_ID caller, claim_role = caller_Role caller\<rparr>\<rparr>"
    have d: "grpc_dispatch U fmt (main_auth_handler lo R H T A) (main_user_handler R H A) m (Some caller) (srv_world (s\<lparr>srv_world := w1\<rparr>)) = (res, w')"
      using assms(5) x True Inr by (simp add: grpc_handle_def UnaryAuthInterceptor_def)
    have r: "rest_endpoint G U (main_auth_handler lo R H T A) (main_user_handler R H A) m (?c, s\<lparr>srv_world := w1\<rparr>) = (c', s')"
      using auth x Inr assms(6) rest by simp
    have "same_content G ?c m" using assms(2) by (cases m) simp_all
    from mirrors_protected [OF True this _ d r] show ?thesis by simp
  qed
next
  case False
  have reply: "mirrors U fmt (Reply (toAuthResponse U out)) (gin_JSON 200 (AuthBody out) c)"
    "mirrors U fmt (Reply (toAuthResponse U out)) (gin_JSON 201 (AuthBody out) c)" for out
    by (simp_all add: mirrors_def gin_JSON_def)
  note ok = mirrors_same [OF reply(1)] and created = mirrors_same [OF reply(2)]
  have "\<exists>e p n. m \<in> {RegisterRequest e p n, LoginRequest e p, RefreshTokenRequest e}"
    using False assms(1) by (cases m) (auto simp: methodsRequiringAuth_def)
  then obtain e p n where "m = RegisterRequest e p n \<or> m = LoginRequest e p \<or> m = RefreshTokenRequest e" by auto
  moreover have "grpc_dispatch U fmt (main_auth_handler lo R H T A) (main_user_handler R H A) m None (srv_world s) = (res, w')"
    using assms(5) False by (simp add: grpc_handle_def UnaryAuthInterceptor_def)
  ultimately show ?thesis
    using assms(2,6)
    by (elim disjE; intro created ok)
      (auto simp: rest_handler_def grpc_Register_def auth_Register_def grpc_Login_def auth_Login_def
        grpc_RefreshToken_def auth_Refresh_def)
qed

lemma grpc_mirrors_rest_witness:
  "let c = \<lparr>gc_request = demo_request ''PUT'' ''/v1/users/me'' (demo_token 1 RoleOwner) ''Rob'', gc_params = [], gc_user = None,
         gc_status = 200, gc_header = [], gc_body = NoBody\<rparr>;
       w = demo_pg [demo_user 1 ''bob@e.com'' RoleOwner 0];
       call = \<lparr>gr_metadata = Some [(''authorization'', [''Bearer '' @ demo_token 1 RoleOwner])], gr_message = UpdateProfileRequest ''Rob''\<rparr>
   in mirrors rfc_uuid (\<lambda>l t. l) (fst (grpc_handle rfc_uuid (\<lambda>l t. l) (\<lambda>r. r) demo_P demo_H demo_T demo_A call w))
        (fst (RequireAuth demo_T demo_P (user_UpdateMe demo_gin (main_user_handler demo_P demo_H demo_A)) (c, demo_server w)))"
proof -
  let ?c = "\<lparr>gc_request = demo_request ''PUT'' ''/v1/users/me'' (demo_token 1 RoleOwner) ''Rob'', gc_params = [], gc_user = None,
         gc_status = 200, gc_header = [], gc_body = NoBody\<rparr>"
  let ?md = "Some [(''authorization'', [''Bearer '' @ demo_token 1 RoleOwner])]"
  have b: "same_content demo_gin ?c (UpdateProfileRequest ''Rob'')" by (simp add: demo_gin_def demo_request_def Let_def)
  have h: "gin_GetHeader ''Authorization'' ?c = bearer_header ?md"
    by (simp add: gin_GetHeader_def or_empty_def bearer_header_def demo_request_def)
  have u: "gc_user ?c = None" by simp
  have n: "UpdateProfileRequest ''Rob'' \<noteq> ListUsersRequest p n" for p n by simp
  from grpc_mirrors_rest [OF n b u h prod.collapse [symmetric] prod.collapse [symmetric], where U = rfc_uuid and fmt = "\<lambda>l t. l"
      and lo = "\<lambda>r. r" and R = demo_P and H = demo_H and T = demo_T and A = demo_A
      and s = "demo_server (demo_pg [demo_user 1 ''bob@e.com'' RoleOwner 0])"]
  show ?thesis by (simp add: rest_handler_def demo_server_def Let_def)
qed

text \<open>
  \<^bold>\<open>C34\<close> Users cannot be listed over gRPC. \<^verbatim>\<open>ListUsers\<close> is missing from the methods that need a token,
  so the interceptor never authenticates its caller and the server, which insists on a caller,
  refuses every call, an owner's with a valid token included, without looking at anything.
\<close>

theorem list_users_over_grpc_refused:
  "grpc_handle U fmt lo R H T A \<lparr>gr_metadata = md, gr_message = ListUsersRequest page pageSize\<rparr> w =
     (Status Unauthenticated ''missing bearer token'', w)"
  by (simp add: grpc_handle_def UnaryAuthInterceptor_def methodsRequiringAuth_def grpc_ListUsers_def with_caller_def)

end
