(* ===== verification/Startup.thy ===== *)
theory Startup
  imports ConfigLoad GrpcLayer
begin

section \<open>The start of the server\<close>

text \<open>
  \<^verbatim>\<open>cmd/server/main.go\<close> up to the point where both servers listen. What \<^verbatim>\<open>main\<close> calls outside the
  program (logger, tracing, parsing of URLs, the connection pool, migrations, files, listeners) is
  the record \<open>main_os\<close>: the error of each call, if any. The state is the log \<^verbatim>\<open>main\<close> has written.
  \<^verbatim>\<open>os.Exit\<close> and \<^verbatim>\<open>log.Fatal\<close> end the process: an \<open>exit\<close>. The repositories are empty or connected,
  the circuit breaker is new; the services themselves are those of \<open>HttpLayer\<close> and \<open>GrpcLayer\<close>.
\<close>

subsection \<open>The outside\<close>

record redis_options =
  DialTimeout :: duration
  ReadTimeout :: duration
  WriteTimeout :: duration

record pool_config =
  MaxConns :: int
  MinConns :: int
  MaxConnIdleTime :: duration
  MaxConnLifetime :: duration
  ConnectTimeout :: duration

record main_os =
  os_InitLogger :: "error option"
  os_InitTracing :: "string \<Rightarrow> error option"
  os_InitPrometheus :: "error option"
  os_ParseURL :: "string \<Rightarrow> error option"
  os_ParseConfig :: "string \<Rightarrow> error option"
  os_NewPool :: "duration \<Rightarrow> pool_config \<Rightarrow> error option"
  os_Migrate :: "duration \<Rightarrow> error option"
  os_ReadFile :: "string \<Rightarrow> error + string"
  os_SetTrustedProxies :: "string list \<Rightarrow> error option"
  os_Listen :: "string \<Rightarrow> error option"

datatype exit = ConfigError error | LoggerError error | Fatal string error

datatype main_entry = Info string | Warn string error

text \<open>A failed call ends the process, or leaves a warning.\<close>

definition fatal_if :: "(error \<Rightarrow> exit) \<Rightarrow> error option \<Rightarrow> main_entry list \<Rightarrow> (exit + unit) \<times> main_entry list" where
  "fatal_if exit e log = (case e of Some e \<Rightarrow> Inl (exit e) | None \<Rightarrow> Inr (), log)"

definition fatal_or :: "(error \<Rightarrow> exit) \<Rightarrow> error + 'x \<Rightarrow> main_entry list \<Rightarrow> (exit + 'x) \<times> main_entry list" where
  "fatal_or exit r log = (case r of Inl e \<Rightarrow> Inl (exit e) | Inr x \<Rightarrow> Inr x, log)"

definition warn_if :: "string \<Rightarrow> error option \<Rightarrow> main_entry list \<Rightarrow> main_entry list" where
  "warn_if msg e log = (case e of Some e \<Rightarrow> log @ [Warn msg e] | None \<Rightarrow> log)"

text \<open>\<^verbatim>\<open>fmt.Sprintf("%s:%d", host, port)\<close>.\<close>

definition address :: "string \<Rightarrow> int \<Rightarrow> string" where
  "address host port = host @ '':'' @ (if port < 0 then ''-'' @ show_nat (nat (- port)) else show_nat (nat port))"

subsection \<open>Stages of main\<close>

definition main_redis :: "main_os \<Rightarrow> config \<Rightarrow> main_entry list \<Rightarrow> (exit + redis_options) \<times> main_entry list" where
  "main_redis os cfg log =
    try_do (fatal_if (Fatal ''invalid redis url'') (os_ParseURL os (RedisURL cfg)) log) (\<lambda>_ log.
      (Inr \<lparr>DialTimeout = RedisConnectTimeout cfg, ReadTimeout = RedisCommandTimeout cfg,
            WriteTimeout = RedisCommandTimeout cfg\<rparr>, log))"

datatype adapter = PostgresAdapter pool_config | MemoryAdapter

definition main_adapter :: "main_os \<Rightarrow> config \<Rightarrow> main_entry list \<Rightarrow> (exit + adapter) \<times> main_entry list" where
  "main_adapter os cfg log =
    (if Adapter cfg = ''postgres'' then
       try_do (fatal_if (Fatal ''invalid postgres dsn'') (os_ParseConfig os (DatabaseURL cfg)) log) (\<lambda>_ log.
       let pgxCfg = \<lparr>MaxConns = DBPoolMaxConns cfg, MinConns = DBPoolMinConns cfg,
             MaxConnIdleTime = DBPoolIdleTimeout cfg, MaxConnLifetime = DBPoolMaxLifetime cfg,
             ConnectTimeout = DBPoolConnectTimeout cfg\<rparr>;
           startup = wrap64 (DBPoolConnectTimeout cfg + 30 * Second) in
       try_do (fatal_if (Fatal ''postgres connection error'') (os_NewPool os startup pgxCfg) log) (\<lambda>_ log.
       try_do (fatal_if (Fatal ''postgres migration error'') (os_Migrate os startup) log) (\<lambda>_ log.
         (Inr (PostgresAdapter pgxCfg), log @ [Info ''using postgres adapter'']))))
     else (Inr MemoryAdapter, log @ [Info ''using in-memory adapter'']))"

definition main_tokens ::
  "main_os \<Rightarrow> ('sk, 'pk) jwt_lib \<Rightarrow> config \<Rightarrow> main_entry list \<Rightarrow> (exit + ('sk, 'pk) jwt_service) \<times> main_entry list" where
  "main_tokens os J cfg log =
    try_do (fatal_or (Fatal ''failed to read JWT_PRIVATE_KEY_PATH'') (os_ReadFile os (JWTPrivateKeyPath cfg)) log) (\<lambda>jwtPrivateKey log.
    try_do (fatal_or (Fatal ''failed to read JWT_PUBLIC_KEY_PATH'') (os_ReadFile os (JWTPublicKeyPath cfg)) log) (\<lambda>jwtPublicKey log.
      fatal_or (Fatal ''failed to load Ed25519 JWT keys'')
        (NewJWTService J jwtPrivateKey jwtPublicKey (JWTAccessTTL cfg) (JWTRefreshTTL cfg) (config_RetryPolicy cfg)) log))"

subsection \<open>The running server\<close>

text \<open>
  The libraries the services are built on, and what \<^verbatim>\<open>main\<close> hands to both servers. The in-memory
  audit log and the PostgreSQL one have different states, so there are two kinds of service. The
  timeouts of the HTTP server are those of reading, writing and idling.
\<close>

record ('db, 'l) server_libs =
  sl_gin :: gin_lib
  sl_uuid :: uuid_lib
  sl_rate :: "'l rate_lib"
  sl_lower :: "nat \<Rightarrow> nat"
  sl_argon2 :: argon2_lib
  sl_redis :: "'db redis_lib"
  sl_pg :: pg_lib
  sl_format :: "string \<Rightarrow> time \<Rightarrow> string"
  sl_pool_ping :: "(pg_state, 'db redis_conn, audit_db) pinger"

datatype ('db, 'l) service =
    MemoryService "(memory_store, 'db redis_conn, log_entry list, 'l) http_env"
      "grpc_call \<Rightarrow> (memory_store, 'db redis_conn, log_entry list) world rpc"
  | PostgresService "(pg_state, 'db redis_conn, audit_db, 'l) http_env"
      "grpc_call \<Rightarrow> (pg_state, 'db redis_conn, audit_db) world rpc"

definition main_service ::
  "('db, 'l) server_libs \<Rightarrow> ('sk, 'pk) jwt_lib \<Rightarrow> ('sk, 'pk) jwt_service \<Rightarrow> string list \<Rightarrow> adapter \<Rightarrow> ('db, 'l) service" where
  "main_service B J svc origins a =
    (let U = sl_uuid B; lo = sl_lower B; H = argon2_hasher (sl_argon2 B);
         T = jwt_token_service J U (sl_redis B) svc in
     case a of
       MemoryAdapter \<Rightarrow>
         (let R = memory_repository U; A = memory_audit_record U in
          MemoryService (main_router (sl_gin B) U (sl_rate B) lo R H T A redis_ping None origins)
            (grpc_handle U (sl_format B) lo R H T A))
     | PostgresAdapter pgxCfg \<Rightarrow>
         (let R = postgres_repository (sl_pg B) lo;
              A = postgres_audit_record U (pg_timestamptz (sl_pg B)) (pg_text_ok (sl_pg B)) in
          PostgresService (main_router (sl_gin B) U (sl_rate B) lo R H T A redis_ping (Some (sl_pool_ping B)) origins)
            (grpc_handle U (sl_format B) lo R H T A)))"

record ('db, 'l) started =
  st_service :: "('db, 'l) service"
  st_breaker :: circuit_breaker
  st_redis :: redis_options
  st_http_addr :: string
  st_http_timeouts :: "duration \<times> duration \<times> duration"
  st_grpc_addr :: string

definition main_start ::
  "viper_lib \<Rightarrow> (string \<Rightarrow> string option) \<Rightarrow> main_os \<Rightarrow> ('db, 'l) server_libs \<Rightarrow> ('sk, 'pk) jwt_lib \<Rightarrow>
   (exit + ('db, 'l) started) \<times> main_entry list" where
  "main_start V env os B J =
    try_do (fatal_or ConfigError (config_Load V env) []) (\<lambda>cfg log.
    try_do (fatal_if LoggerError (os_InitLogger os) log) (\<lambda>_ log.
    let log = warn_if ''tracing unavailable'' (os_InitTracing os (OTLPEndpoint cfg)) log;
        log = warn_if ''prometheus unavailable'' (os_InitPrometheus os) log in
    try_do (main_redis os cfg log) (\<lambda>opt log.
    try_do (main_adapter os cfg log) (\<lambda>a log.
    try_do (main_tokens os J cfg log) (\<lambda>svc log.
    try_do (fatal_if (Fatal ''router setup error'') (os_SetTrustedProxies os (TrustedProxyList cfg)) log) (\<lambda>_ log.
    let grpcAddr = address (Host cfg) (GRPCPort cfg) in
    try_do (fatal_if (Fatal ''grpc listener error'') (os_Listen os grpcAddr) log) (\<lambda>_ log.
      (Inr \<lparr>st_service = main_service B J svc (AllowedOriginList cfg) a, st_breaker = config_CircuitBreaker cfg,
            st_redis = opt, st_http_addr = address (Host cfg) (Port cfg),
            st_http_timeouts = (10 * Second, 30 * Second, 60 * Second), st_grpc_addr = grpcAddr\<rparr>, log))))))))"



lemma fatal_if_Inr: "fatal_if x e log = (Inr u, log') \<longleftrightarrow> e = None \<and> log' = log"
  by (auto simp: fatal_if_def split: option.splits)

lemma fatal_or_Inr: "fatal_or x r log = (Inr v, log') \<longleftrightarrow> r = Inr v \<and> log' = log"
  by (auto simp: fatal_or_def split: sum.splits)

lemma main_redis_Inr:
  "main_redis os cfg log = (Inr opt, log') \<Longrightarrow> log' = log \<and> os_ParseURL os (RedisURL cfg) = None"
  by (auto simp: main_redis_def fatal_if_Inr elim!: try_do_InrE)

lemma main_adapter_Inr:
  assumes "main_adapter os cfg log = (Inr a, log')"
  shows "case a of
      PostgresAdapter p \<Rightarrow> Adapter cfg = ''postgres'' \<and> os_ParseConfig os (DatabaseURL cfg) = None \<and>
        os_NewPool os (wrap64 (DBPoolConnectTimeout cfg + 30 * Second)) p = None \<and>
        os_Migrate os (wrap64 (DBPoolConnectTimeout cfg + 30 * Second)) = None \<and> log' = log @ [Info ''using postgres adapter'']
    | MemoryAdapter \<Rightarrow> Adapter cfg \<noteq> ''postgres'' \<and> log' = log @ [Info ''using in-memory adapter'']"
  using assms by (auto simp: main_adapter_def fatal_if_Inr Let_def split: if_splits elim!: try_do_InrE)

lemma main_tokens_Inr:
  assumes "main_tokens os J cfg log = (Inr svc, log')"
  shows "log' = log \<and> (\<exists>sk pk. os_ReadFile os (JWTPrivateKeyPath cfg) = Inr sk \<and> os_ReadFile os (JWTPublicKeyPath cfg) = Inr pk \<and>
    NewJWTService J sk pk (JWTAccessTTL cfg) (JWTRefreshTTL cfg) (config_RetryPolicy cfg) = Inr svc)"
  using assms by (auto simp: main_tokens_def fatal_or_Inr elim!: try_do_InrE)

lemma config_Load_fields:
  assumes "config_Load V env = Inr cfg"
  shows "Adapter cfg = get_string env ''ADAPTER''" "AllowedOrigins cfg = get_string env ''ALLOWED_ORIGINS''"
    "JWTPrivateKeyPath cfg = get_string env ''JWT_PRIVATE_KEY_PATH''" "JWTPublicKeyPath cfg = get_string env ''JWT_PUBLIC_KEY_PATH''"
  using assms by (auto simp: config_Load_def viper_Unmarshal_def Let_def split: option.splits if_splits)

lemma adapter_from_env: "get_string env ''ADAPTER'' = ''postgres'' \<longleftrightarrow> env ''ADAPTER'' = Some ''postgres''"
  by (auto simp: get_string_def viper_Get_def config_defaults_def bound_keys_def split: option.splits)

text \<open>
  \<^bold>\<open>C30\<close> The server runs on what is configured. When \<^verbatim>\<open>main\<close> reaches its listeners, accounts are in
  PostgreSQL exactly when \<^verbatim>\<open>ADAPTER\<close> is \<^verbatim>\<open>postgres\<close>, and then the migrations were applied within the
  time the startup is given; with any other value, a misspelt one included, they are in memory. The
  signing keys are those of the configured files, the HTTP and the gRPC server share one repository,
  hasher, token service and audit log, and the allowed origins are those of \<^verbatim>\<open>ALLOWED_ORIGINS\<close>.
\<close>

theorem server_runs_as_configured:
  assumes "main_start V env os B J = (Inr st, log)"
  shows "\<exists>cfg sk pk svc. config_Load V env = Inr cfg \<and>
    os_ReadFile os (get_string env ''JWT_PRIVATE_KEY_PATH'') = Inr sk \<and>
    os_ReadFile os (get_string env ''JWT_PUBLIC_KEY_PATH'') = Inr pk \<and>
    NewJWTService J sk pk (JWTAccessTTL cfg) (JWTRefreshTTL cfg) (config_RetryPolicy cfg) = Inr svc \<and>
    (let U = sl_uuid B; lo = sl_lower B; H = argon2_hasher (sl_argon2 B); T = jwt_token_service J U (sl_redis B) svc;
         origins = splitTrimmed (get_string env ''ALLOWED_ORIGINS'') in
     if env ''ADAPTER'' = Some ''postgres'' then
       os_Migrate os (wrap64 (DBPoolConnectTimeout cfg + 30 * Second)) = None \<and>
       (let R = postgres_repository (sl_pg B) lo; A = postgres_audit_record U (pg_timestamptz (sl_pg B)) (pg_text_ok (sl_pg B)) in
        st_service st = PostgresService
          (main_router (sl_gin B) U (sl_rate B) lo R H T A redis_ping (Some (sl_pool_ping B)) origins)
          (grpc_handle U (sl_format B) lo R H T A))
     else
       (let R = memory_repository U; A = memory_audit_record U in
        st_service st = MemoryService
          (main_router (sl_gin B) U (sl_rate B) lo R H T A redis_ping None origins)
          (grpc_handle U (sl_format B) lo R H T A)))"
proof -
  obtain cfg opt a svc log1 log2 log3 where
    cfg: "config_Load V env = Inr cfg" and a: "main_adapter os cfg log1 = (Inr a, log2)"
    and svc: "main_tokens os J cfg log2 = (Inr svc, log3)"
    and st: "st_service st = main_service B J svc (AllowedOriginList cfg) a"
    using assms unfolding main_start_def Let_def
    by (elim try_do_InrE) (auto simp: fatal_if_Inr fatal_or_Inr)
  note fields = config_Load_fields [OF cfg]
  show ?thesis
    using cfg main_tokens_Inr [OF svc] main_adapter_Inr [OF a] st adapter_from_env [of env] unfolding fields
    by (cases a) (auto simp: main_service_def Let_def AllowedOriginList_def fields)
qed

text \<open>A misspelt adapter: the keys can be read, everything outside works, and the accounts are in memory.\<close>

definition demo_os :: main_os where
  "demo_os = \<lparr>os_InitLogger = None, os_InitTracing = (\<lambda>_. Some (External ''no collector'')), os_InitPrometheus = None,
     os_ParseURL = (\<lambda>_. None), os_ParseConfig = (\<lambda>_. None), os_NewPool = (\<lambda>_ _. None), os_Migrate = (\<lambda>_. None),
     os_ReadFile = (\<lambda>path. if path = '''' then Inl (External ''open : no such file or directory'') else Inr ''key''),
     os_SetTrustedProxies = (\<lambda>_. None), os_Listen = (\<lambda>_. None)\<rparr>"

definition demo_env :: "string \<Rightarrow> string option" where
  "demo_env = map_of [(''ADAPTER'', ''Postgres''), (''JWT_PRIVATE_KEY_PATH'', ''/keys/private.pem''),
     (''JWT_PUBLIC_KEY_PATH'', ''/keys/public.pem'')]"

definition demo_libs :: "(demo_db, bucket) server_libs" where
  "demo_libs = \<lparr>sl_gin = demo_gin, sl_uuid = rfc_uuid, sl_rate = bucket_lib, sl_lower = (\<lambda>r. r), sl_argon2 = demo_argon2,
     sl_redis = demo_redis, sl_pg = demo_pg_lib, sl_format = (\<lambda>_ _. ''''), sl_pool_ping = (\<lambda>w. (None, w))\<rparr>"

lemma demo_start: "\<exists>st. main_start plain_viper demo_env demo_os demo_libs demo_jwt =
    (Inr st, [Warn ''tracing unavailable'' (External ''no collector''), Info ''using in-memory adapter''])"
proof -
  have "\<exists>cfg. config_Load plain_viper demo_env = Inr cfg"
    by (simp add: config_Load_def plain_viper_def demo_env_def bound_keys_def viper_Unmarshal_def Let_def get_int_def
        get_duration_def viper_Get_def config_defaults_def)
  then obtain cfg where cfg: "config_Load plain_viper demo_env = Inr cfg" ..
  have "Adapter cfg = ''Postgres''" "JWTPrivateKeyPath cfg \<noteq> ''''" "JWTPublicKeyPath cfg \<noteq> ''''"
    using config_Load_fields [OF cfg] by (simp_all add: get_string_def viper_Get_def demo_env_def bound_keys_def config_defaults_def)
  then show ?thesis
    by (simp add: main_start_def cfg fatal_or_def fatal_if_def warn_if_def main_redis_def main_adapter_def main_tokens_def
        demo_os_def NewJWTService_def demo_jwt_def Let_def)
qed

theorem server_runs_as_configured_witness:
  "\<exists>st E grpc. fst (main_start plain_viper demo_env demo_os demo_libs demo_jwt) = Inr st \<and>
     demo_env ''ADAPTER'' = Some ''Postgres'' \<and> st_service st = MemoryService E grpc \<and> he_origins E = [''http://localhost:3000'']"
proof -
  obtain st where st: "main_start plain_viper demo_env demo_os demo_libs demo_jwt =
      (Inr st, [Warn ''tracing unavailable'' (External ''no collector''), Info ''using in-memory adapter''])"
    using demo_start ..
  have env: "demo_env ''ADAPTER'' = Some ''Postgres''" "demo_env ''ADAPTER'' \<noteq> Some ''postgres''"
    by (simp_all add: demo_env_def)
  have origins: "splitTrimmed (get_string demo_env ''ALLOWED_ORIGINS'') = [''http://localhost:3000'']"
    by (simp add: get_string_def viper_Get_def demo_env_def config_defaults_def bound_keys_def splitTrimmed_def go_string_eval)
  show ?thesis
    using server_runs_as_configured [OF st] env(2)
    by (auto simp: Let_def st env(1) origins main_router_def)
qed

end
