(* ===== verification/Migrate.thy ===== *)
theory Migrate
  imports Domain "HOL-Library.Char_ord" "HOL-Library.List_Lexorder"
begin

section \<open>Schema migrations\<close>

text \<open>
  \<^verbatim>\<open>internal/infrastructure/persistence/postgres/migrate.go\<close>, run by replicas that start at the same
  time. A replica acquires a connection, takes the session-level advisory lock over it (one lock, the
  key is the constant \<^verbatim>\<open>migrationLockKey\<close>; \<open>mg_owner\<close> is the replica whose session holds it), applies the
  embedded files in lexical order, unlocks in its deferred function and releases the connection.
  The database holds the lock for a session until that session unlocks or ends. Between any two
  commands another replica may move, a connection may break (\<open>lost\<close>: the client can use it no more)
  and the server may end the session of a broken connection (\<open>ended\<close>); a command whose reply is lost
  may have had its effect.
\<close>

datatype phase =
    Start
  | Locking
  | Running (todo: "string list")
  | Unlocking "error option"
  | Finished "error option"

record migration =
  mg_owner :: "nat option"
  mg_phase :: "nat \<Rightarrow> phase"
  mg_alive :: "nat \<Rightarrow> bool"
  mg_log :: "(nat \<times> string) list"

definition migration_names :: "string list \<Rightarrow> string list" where
  "migration_names files = sort files"

definition wrap_error :: "string \<Rightarrow> string \<Rightarrow> error" where
  "wrap_error context e = External (context @ '': '' @ e)"

text \<open>\<^verbatim>\<open>errors.Join\<close>.\<close>

definition join_errors :: "error option \<Rightarrow> error \<Rightarrow> error" where
  "join_errors e e' = (case e of None \<Rightarrow> e' | Some e \<Rightarrow> External (error_message e @ [CHR 0x0A] @ error_message e'))"

abbreviation goto :: "nat \<Rightarrow> phase \<Rightarrow> migration \<Rightarrow> migration" where
  "goto i p s \<equiv> s\<lparr>mg_phase := (mg_phase s)(i := p)\<rparr>"

inductive mig_step :: "string list \<Rightarrow> migration \<Rightarrow> migration \<Rightarrow> bool" for files where
  acquire: "mg_phase s i = Start \<Longrightarrow>
    mig_step files s (goto i Locking (s\<lparr>mg_alive := (mg_alive s)(i := True)\<rparr>))"
| acquire_fails: "mg_phase s i = Start \<Longrightarrow>
    mig_step files s (goto i (Finished (Some (wrap_error ''acquire connection for migration lock'' e))) s)"
| lock: "mg_phase s i = Locking \<Longrightarrow> mg_alive s i \<Longrightarrow> mg_owner s = None \<Longrightarrow>
    mig_step files s (goto i (Running (migration_names files)) (s\<lparr>mg_owner := Some i\<rparr>))"
| lock_fails: "mg_phase s i = Locking \<Longrightarrow>
    mig_step files s (goto i (Finished (Some (wrap_error ''acquire migration advisory lock'' e))) s)"
| lock_reply_lost: "mg_phase s i = Locking \<Longrightarrow> mg_alive s i \<Longrightarrow> mg_owner s = None \<Longrightarrow>
    mig_step files s (goto i (Finished (Some (wrap_error ''acquire migration advisory lock'' e)))
      (s\<lparr>mg_owner := Some i, mg_alive := (mg_alive s)(i := False)\<rparr>))"
| apply_file: "mg_phase s i = Running (n # ns) \<Longrightarrow> mg_alive s i \<Longrightarrow>
    mig_step files s (goto i (Running ns) (s\<lparr>mg_log := mg_log s @ [(i, n)]\<rparr>))"
| apply_fails: "mg_phase s i = Running (n # ns) \<Longrightarrow>
    mig_step files s (goto i (Unlocking (Some (wrap_error (''apply migration '' @ n) e))) s)"
| apply_reply_lost: "mg_phase s i = Running (n # ns) \<Longrightarrow> mg_alive s i \<Longrightarrow>
    mig_step files s (goto i (Unlocking (Some (wrap_error (''apply migration '' @ n) e)))
      (s\<lparr>mg_log := mg_log s @ [(i, n)], mg_alive := (mg_alive s)(i := False)\<rparr>))"
| all_applied: "mg_phase s i = Running [] \<Longrightarrow> mig_step files s (goto i (Unlocking None) s)"
| unlock: "mg_phase s i = Unlocking e \<Longrightarrow> mg_alive s i \<Longrightarrow>
    mig_step files s (goto i (Finished e) (s\<lparr>mg_owner := None\<rparr>))"
| unlock_fails: "mg_phase s i = Unlocking e \<Longrightarrow>
    mig_step files s (goto i (Finished (Some (join_errors e (wrap_error ''release migration advisory lock'' e')))) s)"
| unlock_reply_lost: "mg_phase s i = Unlocking e \<Longrightarrow> mg_alive s i \<Longrightarrow>
    mig_step files s (goto i (Finished (Some (join_errors e (wrap_error ''release migration advisory lock'' e'))))
      (s\<lparr>mg_owner := None, mg_alive := (mg_alive s)(i := False)\<rparr>))"
| lost: "mig_step files s (s\<lparr>mg_alive := (mg_alive s)(i := False)\<rparr>)"
| ended: "mg_owner s = Some i \<Longrightarrow> \<not> mg_alive s i \<Longrightarrow> mig_step files s (s\<lparr>mg_owner := None\<rparr>)"

definition mig_start :: migration where
  "mig_start = \<lparr>mg_owner = None, mg_phase = (\<lambda>_. Start), mg_alive = (\<lambda>_. False), mg_log = []\<rparr>"

inductive mig_reachable :: "string list \<Rightarrow> migration \<Rightarrow> bool" for files where
  fresh: "mig_reachable files mig_start"
| move: "mig_reachable files s \<Longrightarrow> mig_step files s s' \<Longrightarrow> mig_reachable files s'"

subsection \<open>The lock and the log\<close>

text \<open>
  A replica that can still send commands past the lock is the lock's owner. The log is a sequence
  of blocks, one for each time the lock was granted: \<open>(i, k)\<close> are the first \<open>k\<close> files, applied by \<open>i\<close>.
\<close>

definition block_log :: "string list \<Rightarrow> (nat \<times> nat) list \<Rightarrow> (nat \<times> string) list" where
  "block_log files blocks = concat (map (\<lambda>(i, k). map (Pair i) (take k (migration_names files))) blocks)"

definition past_lock :: "migration \<Rightarrow> nat \<Rightarrow> bool" where
  "past_lock s i \<longleftrightarrow> mg_alive s i \<and> (case mg_phase s i of Running _ \<Rightarrow> True | Unlocking _ \<Rightarrow> True | _ \<Rightarrow> False)"

definition mig_inv :: "string list \<Rightarrow> (nat \<times> nat) list \<Rightarrow> migration \<Rightarrow> bool" where
  "mig_inv files blocks s \<longleftrightarrow>
     mg_log s = block_log files blocks \<and>
     (\<forall>i. past_lock s i \<longrightarrow> mg_owner s = Some i) \<and>
     (\<forall>i ns. mg_phase s i = Running ns \<longrightarrow> (\<exists>k \<le> length files. ns = drop k (migration_names files) \<and>
        (i, k) \<in> set blocks \<and> (mg_owner s = Some i \<longrightarrow> (\<exists>bs. blocks = bs @ [(i, k)])))) \<and>
     (\<forall>i. mg_phase s i = Unlocking None \<or> mg_phase s i = Finished None \<longrightarrow> (i, length files) \<in> set blocks)"

lemma length_migration_names [simp]: "length (migration_names files) = length files"
  by (simp add: migration_names_def)

lemma block_log_snoc: "block_log files (bs @ [(i, k)]) = block_log files bs @ map (Pair i) (take k (migration_names files))"
  by (simp add: block_log_def)

lemma block_log_advance:
  assumes "drop k (migration_names files) = n # ns"
  shows "block_log files (bs @ [(i, Suc k)]) = block_log files (bs @ [(i, k)]) @ [(i, n)]"
    and "drop (Suc k) (migration_names files) = ns" and "Suc k \<le> length files"
proof -
  have lt: "k < length (migration_names files)"
    using assms by (metis drop_all list.discI not_less)
  then have "migration_names files ! k = n" and rest: "drop (Suc k) (migration_names files) = ns"
    using assms by (metis Cons_nth_drop_Suc list.inject)+
  then show "block_log files (bs @ [(i, Suc k)]) = block_log files (bs @ [(i, k)]) @ [(i, n)]"
    using lt by (simp add: block_log_snoc take_Suc_conv_app_nth)
  show "drop (Suc k) (migration_names files) = ns" by (fact rest)
  show "Suc k \<le> length files" using lt by simp
qed

text \<open>The current owner appends one file to the last block, whatever becomes of it afterwards.\<close>

lemma mig_inv_append:
  assumes inv: "mig_inv files blocks s" and ph: "mg_phase s i = Running (n # ns)" and al: "mg_alive s i"
    and log: "mg_log s' = mg_log s @ [(i, n)]" and own': "mg_owner s' = mg_owner s"
    and others: "\<And>j. j \<noteq> i \<Longrightarrow> mg_phase s' j = mg_phase s j \<and> mg_alive s' j = mg_alive s j"
    and ph': "mg_phase s' i = Running ns \<or> (\<exists>e. mg_phase s' i = Unlocking (Some e))"
  shows "\<exists>blocks'. mig_inv files blocks' s'"
proof -
  have own: "mg_owner s = Some i"
    using inv ph al by (simp add: mig_inv_def past_lock_def)
  then obtain k bs where k: "drop k (migration_names files) = n # ns" and bs: "blocks = bs @ [(i, k)]"
    using inv ph unfolding mig_inv_def by (metis (no_types, lifting))
  note adv = block_log_advance [OF k]
  have "past_lock s' j \<Longrightarrow> mg_owner s' = Some j" for j
    using inv own own' others [of j] by (cases "j = i") (auto simp: mig_inv_def past_lock_def)
  moreover have "\<exists>k' \<le> length files. ms = drop k' (migration_names files) \<and> (j, k') \<in> set (bs @ [(i, Suc k)]) \<and>
      (mg_owner s' = Some j \<longrightarrow> (\<exists>b. bs @ [(i, Suc k)] = b @ [(j, k')]))"
    if run: "mg_phase s' j = Running ms" for j ms
  proof (cases "j = i")
    case True
    then show ?thesis using run ph' adv(2,3) by (intro exI [of _ "Suc k"]) auto
  next
    case False
    then show ?thesis
      using inv run others [of j] own own' unfolding mig_inv_def bs by fastforce
  qed
  moreover have "(j, length files) \<in> set (bs @ [(i, Suc k)])"
    if "mg_phase s' j = Unlocking None \<or> mg_phase s' j = Finished None" for j
    using inv that others [of j] ph' unfolding mig_inv_def bs by (cases "j = i") auto
  moreover have "mg_log s' = block_log files (bs @ [(i, Suc k)])"
    using inv log adv(1) unfolding mig_inv_def bs by simp
  ultimately have "mig_inv files (bs @ [(i, Suc k)]) s'"
    unfolding mig_inv_def by blast
  then show ?thesis ..
qed

text \<open>Every other command leaves the blocks as they are.\<close>

lemma mig_inv_keep:
  assumes inv: "mig_inv files blocks s" and log: "mg_log s' = mg_log s"
    and lock: "\<And>i. past_lock s' i \<Longrightarrow> mg_owner s' = Some i"
    and running: "\<And>i ns. mg_phase s' i = Running ns \<Longrightarrow> mg_phase s i = Running ns"
    and owner: "\<And>i ns. mg_phase s' i = Running ns \<Longrightarrow> mg_owner s' = Some i \<Longrightarrow> mg_owner s = Some i"
    and finished: "\<And>i. mg_phase s' i = Unlocking None \<or> mg_phase s' i = Finished None \<Longrightarrow>
      mg_phase s i = Unlocking None \<or> mg_phase s i = Finished None \<or> mg_phase s i = Running []"
  shows "\<exists>blocks'. mig_inv files blocks' s'"
proof -
  have all: "(i, length files) \<in> set blocks" if "mg_phase s i = Running []" for i
    using inv that unfolding mig_inv_def by fastforce
  have "(i, length files) \<in> set blocks" if "mg_phase s' i = Unlocking None \<or> mg_phase s' i = Finished None" for i
    using finished [OF that] all inv unfolding mig_inv_def by blast
  moreover have "\<exists>k \<le> length files. ns = drop k (migration_names files) \<and>
      (i, k) \<in> set blocks \<and> (mg_owner s' = Some i \<longrightarrow> (\<exists>bs. blocks = bs @ [(i, k)]))"
    if "mg_phase s' i = Running ns" for i ns
    using running [OF that] owner [OF that] inv unfolding mig_inv_def by blast
  ultimately have "mig_inv files blocks s'"
    using log lock inv unfolding mig_inv_def by simp
  then show ?thesis ..
qed

lemma mig_inv_lock:
  assumes inv: "mig_inv files blocks s" and "mg_phase s i = Locking" "mg_owner s = None"
  shows "mig_inv files (blocks @ [(i, 0)]) (goto i (Running (migration_names files)) (s\<lparr>mg_owner := Some i\<rparr>))"
proof -
  have "\<not> past_lock s j" for j
    using inv assms(3) unfolding mig_inv_def by fastforce
  then show ?thesis
    using inv assms(2,3) unfolding mig_inv_def by (auto simp: block_log_snoc past_lock_def)
qed

lemma mig_inv_held: "mig_inv files blocks s \<Longrightarrow> past_lock s i \<Longrightarrow> mg_owner s = Some i"
  by (simp add: mig_inv_def)

lemma mig_inv_owner:
  assumes "mig_inv files blocks s"
  shows "mg_phase s i = Running ns \<Longrightarrow> mg_alive s i \<Longrightarrow> mg_owner s = Some i"
    and "mg_phase s i = Unlocking e \<Longrightarrow> mg_alive s i \<Longrightarrow> mg_owner s = Some i"
  using assms unfolding mig_inv_def past_lock_def by fastforce+

lemma mig_inv_step:
  assumes step: "mig_step files s s'" and inv: "mig_inv files blocks s"
  shows "\<exists>blocks'. mig_inv files blocks' s'"
  using step
proof cases
  case (lock i)
  then show ?thesis using mig_inv_lock [OF inv] by blast
next
  case (apply_file i n ns)
  then show ?thesis by (intro mig_inv_append [OF inv apply_file(2,3)]) auto
next
  case (apply_reply_lost i n ns e)
  then show ?thesis by (intro mig_inv_append [OF inv apply_reply_lost(2,3)]) auto
next
  case (unlock i e)
  then show ?thesis
    using mig_inv_owner(2) [OF inv unlock(2,3)]
    by (intro mig_inv_keep [OF inv]) (auto simp: past_lock_def dest: mig_inv_owner [OF inv] split: if_splits phase.splits)
next
  case (unlock_reply_lost i e e')
  then show ?thesis
    using mig_inv_owner(2) [OF inv unlock_reply_lost(2,3)]
    by (intro mig_inv_keep [OF inv]) (auto simp: past_lock_def dest: mig_inv_owner [OF inv] split: if_splits phase.splits)
qed ((rule mig_inv_keep [OF inv];
  auto simp: past_lock_def dest: mig_inv_owner [OF inv] split: if_splits phase.splits)+)

lemma mig_inv_reachable: "mig_reachable files s \<Longrightarrow> \<exists>blocks. mig_inv files blocks s"
proof (induction rule: mig_reachable.induct)
  case fresh
  have "mig_inv files [] mig_start"
    by (simp add: mig_inv_def mig_start_def past_lock_def block_log_def)
  then show ?case ..
next
  case (move s s')
  then show ?case using mig_inv_step by blast
qed

lemma block_log_split:
  assumes "(i, k) \<in> set blocks"
  shows "\<exists>before after. block_log files blocks = before @ map (Pair i) (take k (migration_names files)) @ after"
proof -
  obtain b c where "blocks = b @ (i, k) # c" using assms by (meson split_list)
  then have "block_log files blocks = block_log files b @ map (Pair i) (take k (migration_names files)) @ block_log files c"
    by (simp add: block_log_def)
  then show ?thesis by blast
qed

text \<open>
  \<^bold>\<open>C18\<close> Migrations are serialised. Whatever the replicas, the connections and the server do, in every
  reachable state the applied files form a sequence of blocks, each of them one replica's files from
  the first one on in lexical order, with no file of another replica in between; at most one replica
  can still send commands past the lock; and a replica whose \<^verbatim>\<open>Migrate\<close> returned nil applied every
  file, in order, as one uninterrupted stretch.
\<close>

theorem migrations_serialised:
  assumes "mig_reachable files s"
  shows "(\<exists>blocks. mg_log s = concat (map (\<lambda>(i, k). map (Pair i) (take k (sort files))) blocks)) \<and>
    (\<forall>i j. past_lock s i \<longrightarrow> past_lock s j \<longrightarrow> i = j) \<and>
    (\<forall>i. mg_phase s i = Finished None \<longrightarrow> (\<exists>before after. mg_log s = before @ map (Pair i) (sort files) @ after))"
proof -
  obtain blocks where inv: "mig_inv files blocks s" using mig_inv_reachable [OF assms] ..
  then have log: "mg_log s = block_log files blocks" by (simp add: mig_inv_def)
  have "\<exists>before after. mg_log s = before @ map (Pair i) (sort files) @ after" if "mg_phase s i = Finished None" for i
    using block_log_split [of i "length files" blocks files] inv that log
    by (auto simp: mig_inv_def migration_names_def)
  moreover have "i = j" if "past_lock s i" "past_lock s j" for i j
    using mig_inv_held [OF inv that(1)] mig_inv_held [OF inv that(2)] by simp
  ultimately show ?thesis
    using log unfolding block_log_def migration_names_def by blast
qed

text \<open>
  A run of two replicas over two files: the first one loses the reply of its second file, its session
  ends, the second one applies both files and returns nil.
\<close>

definition demo_files :: "string list" where "demo_files = [''2.sql'', ''1.sql'']"

definition demo_migrated :: migration where
  "demo_migrated =
    \<lparr>mg_owner = None,
     mg_phase = ((\<lambda>_. Start)(0 := Unlocking (Some (wrap_error (''apply migration '' @ ''2.sql'') ''closed'')), 1 := Finished None)),
     mg_alive = ((\<lambda>_. False)(0 := False, 1 := True)),
     mg_log = [(0, ''1.sql''), (0, ''2.sql''), (1, ''1.sql''), (1, ''2.sql'')]\<rparr>"

lemma demo_names: "migration_names demo_files = [''1.sql'', ''2.sql'']"
  by code_simp

lemma mig_move: "mig_reachable files s \<Longrightarrow> mig_step files s t \<Longrightarrow> t = u \<Longrightarrow> mig_reachable files u"
  by (blast intro: mig_reachable.move)

lemma demo_migrated_reachable: "mig_reachable demo_files demo_migrated"
proof -
  note names = demo_names [symmetric]
  let ?s = "\<lambda>own p q a b l. \<lparr>mg_owner = own, mg_phase = (\<lambda>_. Start)(0 := p, 1 := q), mg_alive = (\<lambda>_. False)(0 := a, 1 := b), mg_log = l\<rparr>"
  let ?bad = "Unlocking (Some (wrap_error (''apply migration '' @ ''2.sql'') ''closed''))"
  let ?l = "[(0, ''1.sql''), (0, ''2.sql'')]"
  have "mig_reachable demo_files (?s None Locking Start True False [])"
    by (rule mig_move [OF mig_reachable.fresh], rule mig_step.acquire [of _ 0]) (auto simp: mig_start_def fun_eq_iff)
  then have "mig_reachable demo_files (?s None Locking Locking True True [])"
    by (rule mig_move [OF _ mig_step.acquire [of _ 1]]) (auto simp: fun_eq_iff)
  then have "mig_reachable demo_files (?s (Some 0) (Running [''1.sql'', ''2.sql'']) Locking True True [])"
    by (rule mig_move [OF _ mig_step.lock [of _ 0]]) (auto simp: fun_eq_iff demo_names)
  then have "mig_reachable demo_files (?s (Some 0) (Running [''2.sql'']) Locking True True [(0, ''1.sql'')])"
    by (rule mig_move [OF _ mig_step.apply_file [of _ 0]]) (auto simp: fun_eq_iff)
  then have "mig_reachable demo_files (?s (Some 0) ?bad Locking False True ?l)"
    by (rule mig_move [OF _ mig_step.apply_reply_lost [of _ 0 "''2.sql''" _ _ "''closed''"]]) (auto simp: fun_eq_iff)
  then have "mig_reachable demo_files (?s None ?bad Locking False True ?l)"
    by (rule mig_move [OF _ mig_step.ended [of _ 0]]) (auto simp: fun_eq_iff)
  then have "mig_reachable demo_files (?s (Some 1) ?bad (Running [''1.sql'', ''2.sql'']) False True ?l)"
    by (rule mig_move [OF _ mig_step.lock [of _ 1]]) (auto simp: fun_eq_iff demo_names)
  then have "mig_reachable demo_files (?s (Some 1) ?bad (Running [''2.sql'']) False True (?l @ [(1, ''1.sql'')]))"
    by (rule mig_move [OF _ mig_step.apply_file [of _ 1]]) (auto simp: fun_eq_iff)
  then have "mig_reachable demo_files (?s (Some 1) ?bad (Running []) False True (?l @ [(1, ''1.sql''), (1, ''2.sql'')]))"
    by (rule mig_move [OF _ mig_step.apply_file [of _ 1]]) (auto simp: fun_eq_iff)
  then have "mig_reachable demo_files (?s (Some 1) ?bad (Unlocking None) False True (?l @ [(1, ''1.sql''), (1, ''2.sql'')]))"
    by (rule mig_move [OF _ mig_step.all_applied [of _ 1]]) (auto simp: fun_eq_iff)
  then show ?thesis
    by (rule mig_move [OF _ mig_step.unlock [of _ 1 None]]) (auto simp: fun_eq_iff demo_migrated_def)
qed

theorem migrations_serialised_witness:
  "mig_reachable demo_files demo_migrated \<and> mg_phase demo_migrated 1 = Finished None \<and>
    (\<exists>before after. mg_log demo_migrated = before @ map (Pair 1) (sort demo_files) @ after)"
  using migrations_serialised [OF demo_migrated_reachable] demo_migrated_reachable
  by (simp add: demo_migrated_def)

end
