(* ===== verification/Revocation.thy ===== *)
theory Revocation
  imports JwtService
begin

section \<open>Revocation comes to an end\<close>

text \<open>
  The SCAN loop of \<^verbatim>\<open>RevokeAllRefreshTokens\<close> deletes from the key space it iterates. On a connection
  that delivers, it ends: \<open>D\<close> is a set of databases that deletions do not leave, \<open>n\<close> the number of
  pages within which an iteration over databases of \<open>D\<close> returns to cursor 0 (Redis promises an end
  for a key space of bounded size), \<open>m\<close> the most keys a page has. COUNT is only a hint, so \<open>m\<close> is
  not 100.
\<close>

definition delivers :: "(time \<times> fate) list \<Rightarrow> bool" where
  "delivers ns \<longleftrightarrow> (\<forall>(t, f) \<in> set ns. f = Delivered)"

lemma delivers_simps [simp]:
  "delivers []" "delivers ((t, f) # ns) \<longleftrightarrow> f = Delivered \<and> delivers ns"
  by (auto simp: delivers_def)

definition deletions_stay :: "'db redis_lib \<Rightarrow> 'db set \<Rightarrow> bool" where
  "deletions_stay L D \<longleftrightarrow> (\<forall>d \<in> D. \<forall>t k. redis_del L t k d \<in> D)"

definition scan_ends :: "'db redis_lib \<Rightarrow> string \<Rightarrow> 'db set \<Rightarrow> 64 word \<Rightarrow> nat \<Rightarrow> bool" where
  "scan_ends L pat D cursor n \<longleftrightarrow>
     (\<forall>ds. length ds = n \<longrightarrow> snd ` set ds \<subseteq> D \<longrightarrow> (\<exists>j \<le> n. full_scan L pat 100 cursor (take j ds) \<noteq> None))"

definition pages_within :: "'db redis_lib \<Rightarrow> string \<Rightarrow> 'db set \<Rightarrow> nat \<Rightarrow> bool" where
  "pages_within L pat D m \<longleftrightarrow> (\<forall>d \<in> D. \<forall>t cursor. length (fst (redis_scan L t cursor pat 100 d)) \<le> m)"

lemma scan_ends_0: "\<not> scan_ends L pat D cursor 0"
  by (simp add: scan_ends_def)

lemma scan_ends_next:
  assumes "scan_ends L pat D cursor (Suc n)" "d \<in> D" "redis_scan L t cursor pat 100 d = (ks, next')" "next' \<noteq> 0"
  shows "scan_ends L pat D next' n"
  unfolding scan_ends_def
proof (intro allI impI)
  fix ds :: "(time \<times> 'a) list" assume ds: "length ds = n" "snd ` set ds \<subseteq> D"
  then obtain j where j: "j \<le> Suc n" "full_scan L pat 100 cursor (take j ((t, d) # ds)) \<noteq> None"
    using assms(1,2) unfolding scan_ends_def by (elim allE [of _ "(t, d) # ds"]) auto
  then obtain i where "j = Suc i" by (cases j) auto
  with j assms(3,4) show "\<exists>j \<le> n. full_scan L pat 100 next' (take j ds) \<noteq> None"
    by (intro exI [of _ i]) (auto split: option.splits)
qed

lemma revoke_keys_ends:
  assumes "deletions_stay L D"
  shows "delivers (net c) \<Longrightarrow> length ks \<le> length (net c) \<Longrightarrow> redis_db c \<in> D \<Longrightarrow>
    \<exists>c'. revoke_keys L p ks c = (Inr (), c') \<and> net c' = drop (length ks) (net c) \<and> delivers (net c') \<and> redis_db c' \<in> D"
proof (induction ks arbitrary: c)
  case (Cons k ks)
  then obtain t rest where net: "net c = (t, Delivered) # rest" by (cases "net c") auto
  let ?d = "redis_del L t k (redis_del L t (refreshKey (trim_prefix k p)) (redis_db c))"
  have "?d \<in> D" using assms Cons.prems(3) by (simp add: deletions_stay_def)
  moreover have "round_trip (revoke_command L (trim_prefix k p) k) c = (Inr (), c\<lparr>net := rest, redis_db := ?d\<rparr>)"
    by (simp add: round_trip_def net revoke_command_def)
  ultimately show ?case
    using Cons.IH [of "c\<lparr>net := rest, redis_db := ?d\<rparr>"] Cons.prems(1,2) net by simp
qed simp

lemma revoke_scan_ends:
  assumes "deletions_stay L D" "pages_within L (p @ ''*'') D m"
  shows "scan_ends L (p @ ''*'') D cursor n \<Longrightarrow> delivers (net c) \<Longrightarrow> n * Suc m \<le> length (net c) \<Longrightarrow> redis_db c \<in> D \<Longrightarrow>
    \<exists>c'. revoke_scan L p cursor c = (Inr (), c') \<and> length (net c) \<le> length (net c') + n * Suc m"
proof (induction n arbitrary: cursor c)
  case 0
  then show ?case by (simp add: scan_ends_0)
next
  case (Suc n)
  then obtain t rest where net: "net c = (t, Delivered) # rest" by (cases "net c") auto
  obtain ks next' where scan: "redis_scan L t cursor (p @ ''*'') 100 (redis_db c) = (ks, next')" by fastforce
  let ?c = "c\<lparr>net := rest\<rparr>"
  have rt: "round_trip (scan_command L cursor (p @ ''*'') 100) c = (Inr (ks, next'), ?c)"
    by (simp add: round_trip_def net scan_command_def scan)
  have ks: "length ks \<le> m" using assms(2) Suc.prems(4) scan unfolding pages_within_def by (metis fst_conv)
  then obtain c2 where c2: "revoke_keys L p ks ?c = (Inr (), c2)" "net c2 = drop (length ks) rest"
      "delivers (net c2)" "redis_db c2 \<in> D"
    using revoke_keys_ends [OF assms(1), of ?c ks p] Suc.prems(2-4) net by auto
  show ?case
  proof (cases "next' = 0")
    case True
    then have "revoke_scan L p cursor c = (Inr (), c2)"
      using rt c2(1) by (simp add: revoke_scan.simps [of L p cursor c])
    then show ?thesis using c2(2) net ks by simp
  next
    case False
    then have step: "revoke_scan L p cursor c = revoke_scan L p next' c2"
      using rt c2(1) by (simp add: revoke_scan.simps [of L p cursor c])
    have "n * Suc m \<le> length (net c2)" using Suc.prems(3) ks c2(2) net by simp
    then show ?thesis
      using Suc.IH [OF scan_ends_next [OF Suc.prems(1,4) scan False] c2(3) _ c2(4)] step c2(2) net ks by fastforce
  qed
qed

text \<open>
  \<^bold>\<open>C19\<close>. Revocation comes to an end and does its work. With the circuit closed and a connection that
  delivers \<open>n\<close> times one scan and \<open>m\<close> deletions, \<open>RevokeAllRefreshTokens\<close> returns nil after at most as
  many commands, and then no refresh token of the user is alive whose index entry was there all
  along. The retry policy is not needed, and the loop cannot chase the keys it deletes for ever.
\<close>

theorem revocation_completes:
  assumes "uuid_laws U" and "redis_laws L" and "cb_state (redis_breaker c) = StateClosed"
    and "redis_db c \<in> D" and "deletions_stay L D"
    and "scan_ends L (userRefreshKeyPrefix U uid @ ''*'') D 0 n" and "pages_within L (userRefreshKeyPrefix U uid @ ''*'') D m"
    and "delivers (net c)" and "n * Suc m \<le> length (net c)"
  shows "\<exists>c'. jwt_revoke_all_refresh_tokens U L s uid (g, c) = (Inr (), g, c') \<and>
    length (net c) \<le> length (net c') + n * Suc m \<and>
    (\<forall>tok. (\<forall>(t, f) \<in> set (net c). redis_get L t (userRefreshKey U uid tok) (redis_db c) \<noteq> None) \<longrightarrow>
      tok \<notin> alive L (redis_db c'))"
proof -
  obtain c1 where c1: "revoke_scan L (userRefreshKeyPrefix U uid) 0 c = (Inr (), c1)"
      "length (net c) \<le> length (net c1) + n * Suc m"
    using revoke_scan_ends [OF assms(5,7,6,8,9,4)] by blast
  let ?c = "c1\<lparr>redis_breaker := record_success (redis_breaker c)\<rparr>"
  have run: "jwt_revoke_all_refresh_tokens U L s uid (g, c) = (Inr (), g, ?c)"
    using resilient_delivered [where operation = "revoke_scan L (userRefreshKeyPrefix U uid) 0", OF assms(3) c1(1)]
    by (simp add: jwt_revoke_all_refresh_tokens_def)
  show ?thesis
    using run c1(2) revoke_all_kills [OF assms(2,1) run] by (intro exI [of _ ?c]) auto
qed

text \<open>Two sessions of a user, deleted in one page.\<close>

definition small :: "demo_db set" where "small = {d. length d \<le> 4}"

lemma small_stays: "deletions_stay demo_redis small"
  by (auto simp: deletions_stay_def small_def demo_redis_def AList.delete_eq le_trans [OF length_filter_le])

lemma small_scan_ends: "scan_ends demo_redis pat small 0 1"
  unfolding scan_ends_def by (auto simp: demo_redis_def length_Suc_conv intro!: exI [of _ 1])

lemma small_pages: "pages_within demo_redis pat small 4"
  unfolding pages_within_def small_def demo_redis_def
  by (auto intro: le_trans [OF length_filter_le])

theorem revocation_completes_witness:
  "\<exists>c'. jwt_revoke_all_refresh_tokens rfc_uuid demo_redis demo_service 7
      (demo_gen, demo_conn (map (\<lambda>t. (t, Delivered)) [0, 1, 2, 3, 4])
        [(refreshKey ''tok'', uuid_String rfc_uuid 7, 100), (userRefreshKey rfc_uuid 7 ''tok'', ''tok'', 100)]) =
      (Inr (), demo_gen, c') \<and> ''tok'' \<notin> alive demo_redis (redis_db c')"
proof -
  let ?c = "demo_conn (map (\<lambda>t. (t, Delivered)) [0, 1, 2, 3, 4])
    [(refreshKey ''tok'', uuid_String rfc_uuid 7, 100), (userRefreshKey rfc_uuid 7 ''tok'', ''tok'', 100)]"
  have "cb_state (redis_breaker ?c) = StateClosed" "redis_db ?c \<in> small" "delivers (net ?c)" "1 * Suc 4 \<le> length (net ?c)"
    by (simp_all add: demo_conn_def new_circuit_breaker_def small_def)
  moreover have "\<forall>(t, f) \<in> set (net ?c). redis_get demo_redis t (userRefreshKey rfc_uuid 7 ''tok'') (redis_db ?c) \<noteq> None"
    by (simp add: demo_conn_def demo_redis_def userRefreshKey_def userRefreshKeyPrefix_def refreshKey_def)
  ultimately show ?thesis
    using revocation_completes [OF rfc_uuid_laws demo_redis_laws _ _ small_stays small_scan_ends small_pages, where c = ?c and uid = 7 and s = demo_service and g = demo_gen]
    by blast
qed

end
