(* ===== verification/Concurrent.thy ===== *)
theory Concurrent
  imports Deployment
begin

section \<open>Concurrent requests\<close>

text \<open>
  The servers handle every request in a goroutine of its own, so the calls of the use cases on the
  repository, the hasher, the token service and the audit log interleave. A process is what is left of
  a request: a result, or the next step, which acts on the world and leaves a process. A step is one
  call of a port together with the computation on the request's own values next to it. (The pointers
  the in-memory repository shares are read and written without a lock; there the steps are coarser
  than Go's memory model.) Each \<^verbatim>\<open>Execute\<close> of \<^verbatim>\<open>internal/application/usecase\<close> is
  given again as a process; run alone it is the function of \<open>UseCases\<close>, below.
\<close>

datatype ('w, 'x) proc = Ret 'x | Act "'w \<Rightarrow> ('w, 'x) proc \<times> 'w"

primrec finish :: "('w, 'x) proc \<Rightarrow> 'w \<Rightarrow> 'x \<times> 'w" where
  "finish (Ret x) = (\<lambda>w. (x, w))"
| "finish (Act f) = (\<lambda>w. case map_prod finish (\<lambda>w. w) (f w) of (k, w) \<Rightarrow> k w)"

definition call :: "('w \<Rightarrow> 'x \<times> 'w) \<Rightarrow> ('x \<Rightarrow> ('w, 'y) proc) \<Rightarrow> ('w, 'y) proc" where
  "call op k = Act (\<lambda>w. case op w of (x, w) \<Rightarrow> (k x, w))"

definition try_call ::
  "('w \<Rightarrow> ('e + 'x) \<times> 'w) \<Rightarrow> ('x \<Rightarrow> ('w, 'e + 'y) proc) \<Rightarrow> ('w, 'e + 'y) proc" where
  "try_call op k = call op (case_sum (\<lambda>e. Ret (Inl e)) k)"

lemma finish_call [simp]: "finish (call op k) = (\<lambda>w. case op w of (x, w) \<Rightarrow> finish (k x) w)"
  by (simp add: call_def fun_eq_iff split: prod.splits)

lemma finish_try_call [simp]: "finish (try_call op k) = (\<lambda>w. try_do (op w) (\<lambda>x. finish (k x)))"
  by (auto simp: try_call_def try_do_def fun_eq_iff split: prod.splits sum.splits)

type_synonym ('r, 't, 'a, 'x) use_case = "(('r, 't, 'a) world, error + 'x) proc"

subsection \<open>The use cases as processes\<close>

definition issue_proc ::
  "'t token_service \<Rightarrow> 'a audit_port \<Rightarrow> audit_event_type \<Rightarrow> (role \<Rightarrow> string) \<Rightarrow> (error \<Rightarrow> error) \<Rightarrow> (user \<Rightarrow> uuid) \<Rightarrow> addr \<Rightarrow>
   ('r, 't, 'a, auth_output) use_case" where
  "issue_proc T A ty detail wrap key a =
    call (\<lambda>w. on_tokens (GeneratePair T (key (user_at a w)) (usr_role (user_at a w))) w) (\<lambda>x. case x of
      Inl e \<Rightarrow> Ret (Inl (wrap e))
    | Inr pair \<Rightarrow> call (\<lambda>w. let u = user_at a w in
        (Inr (auth_output_of pair u), record_audit A ty (Some (key u)) None (detail (usr_role u)) w)) Ret)"

definition create_step ::
  "(addr \<Rightarrow> heap \<times> 'r \<Rightarrow> (error + 'x) \<times> heap \<times> 'r) \<Rightarrow> register_input \<Rightarrow> email \<Rightarrow> password_hash \<Rightarrow> role \<Rightarrow>
   ('r, 't, 'a) world \<Rightarrow> (error + 'x \<times> addr) \<times> ('r, 't, 'a) world" where
  "create_step save inp em hash role w =
    try_do (on_gen (new_user em hash (reg_name inp) role) w) (\<lambda>u w.
      case alloc_user u w of (a, w) \<Rightarrow> try_do (on_repo (save a) w) (\<lambda>x w. (Inr (x, a), w)))"

definition register_proc ::
  "(nat \<Rightarrow> nat) \<Rightarrow> 'r user_repository \<Rightarrow> password_hasher \<Rightarrow> 't token_service \<Rightarrow> 'a audit_port \<Rightarrow>
   register_input \<Rightarrow> ('r, 't, 'a, auth_output) use_case" where
  "register_proc lo R H T A inp =
    (let issue = issue_proc T A AuditEventUserRegistered (\<lambda>role. ''user registered with role '' @ role) id user_key;
         store = (\<lambda>em. try_call (on_gen (Hash H (reg_password inp))) (\<lambda>hash.
           try_call (create_step (SaveFirstOwner R) inp em hash RoleOwner) (\<lambda>(claimed, candidate).
             if claimed then issue candidate
             else try_call (create_step (Save R) inp em hash RoleUser) (\<lambda>(_, user). issue user)))) in
     case validate_password (reg_password inp) of
       Inl e \<Rightarrow> Ret (Inl e)
     | Inr _ \<Rightarrow> (case new_email lo (reg_email inp) of
         Inl e \<Rightarrow> Ret (Inl e)
       | Inr em \<Rightarrow>
           call (user_by_email R em) (\<lambda>x. case x of
             Inr (Some existing) \<Rightarrow> Ret (Inl ErrEmailAlreadyExists)
           | Inr None \<Rightarrow> store em
           | Inl e \<Rightarrow> if e \<noteq> ErrUserNotFound then Ret (Inl e) else store em)))"

definition login_proc ::
  "(nat \<Rightarrow> nat) \<Rightarrow> 'r user_repository \<Rightarrow> password_hasher \<Rightarrow> 't token_service \<Rightarrow> 'a audit_port \<Rightarrow>
   login_input \<Rightarrow> ('r, 't, 'a, auth_output) use_case" where
  "login_proc lo R H T A inp =
    (let refuse = (\<lambda>(e, actor, detail). call (\<lambda>w. (Inl e, record_audit A AuditEventLoginFailed actor None detail w)) Ret) in
     case new_email lo (login_email inp) of
       Inl e \<Rightarrow> refuse (ErrInvalidCredentials, None, ''malformed email'')
     | Inr em \<Rightarrow>
         call (user_by_email R em) (\<lambda>x. case x of
           Inl e \<Rightarrow> if e = RuntimePanic then Ret (Inl RuntimePanic)
               else refuse (ErrInvalidCredentials, None, ''no account for email'')
         | Inr None \<Rightarrow> Ret (Inl RuntimePanic)
         | Inr (Some a) \<Rightarrow>
             call (\<lambda>w. let u = user_at a w in
               (if \<not> usr_is_active u then Inl (Some (ErrAccountInactive, Some (user_key u), ''account inactive''))
                else if Verify H (login_password inp) (usr_password_hash u) = Inl RuntimePanic then Inl None
                else if Verify H (login_password inp) (usr_password_hash u) \<noteq> Inr True
                then Inl (Some (ErrInvalidCredentials, Some (user_key u), ''invalid password''))
                else Inr (), w)) (\<lambda>checked. case checked of
               Inl (Some r) \<Rightarrow> refuse r
             | Inl None \<Rightarrow> Ret (Inl RuntimePanic)
             | Inr _ \<Rightarrow> issue_proc T A AuditEventLoginSucceeded (\<lambda>role. ''login succeeded'') id user_key a)))"

text \<open>What \<^verbatim>\<open>RefreshToken.Execute\<close> has left to do after the redemption.\<close>

definition redeemed_proc ::
  "'r user_repository \<Rightarrow> 't token_service \<Rightarrow> 'a audit_port \<Rightarrow> error + redemption_result \<Rightarrow>
   ('r, 't, 'a, auth_output) use_case" where
  "redeemed_proc R T A x = (case x of
     Inl e \<Rightarrow> Ret (Inl ErrInvalidCredentials)
   | Inr redemption \<Rightarrow> (case outcome redemption of
       RedemptionReused \<Rightarrow>
         call (on_tokens (RevokeAllRefreshTokens T (red_user_id redemption))) (\<lambda>ignored.
         call (\<lambda>w. (Inl ErrInvalidCredentials,
           record_audit A AuditEventRefreshTokenReuseDetected (Some (red_user_id redemption)) None
             ''refresh token reuse detected; all sessions revoked'' w)) Ret)
     | RedemptionInvalid \<Rightarrow> Ret (Inl ErrInvalidCredentials)
     | RedemptionOK \<Rightarrow>
         call (\<lambda>w. case on_repo (FindByID R (red_user_id redemption)) w of
             (Inl e, w) \<Rightarrow> (Inl ErrUserNotFound, w)
           | (Inr a, w) \<Rightarrow> (if \<not> usr_is_active (user_at a w) then Inl ErrAccountInactive else Inr a, w)) (\<lambda>x. case x of
             Inl e \<Rightarrow> Ret (Inl e)
           | Inr a \<Rightarrow> issue_proc T A AuditEventTokenRefreshed (\<lambda>role. ''refresh token rotated'') (\<lambda>e. ErrInvalidCredentials)
               (\<lambda>u. red_user_id redemption) a)))"

definition refresh_proc ::
  "'r user_repository \<Rightarrow> 't token_service \<Rightarrow> 'a audit_port \<Rightarrow> refresh_input \<Rightarrow> ('r, 't, 'a, auth_output) use_case" where
  "refresh_proc R T A inp = call (on_tokens (RedeemRefreshToken T (in_refresh_token inp))) (redeemed_proc R T A)"

definition get_user_proc ::
  "'r user_repository \<Rightarrow> uuid \<Rightarrow> role \<Rightarrow> uuid \<Rightarrow> ('r, 't, 'a, user_output) use_case" where
  "get_user_proc R caller_id caller_role target_id =
    (if caller_id \<noteq> target_id \<and> \<not> can_manage_roles caller_role then Ret (Inl ErrInsufficientPerms)
     else call (\<lambda>w. try_do (on_repo (FindByID R target_id) w) (\<lambda>a w. (Inr (user_output_of (user_at a w)), w))) Ret)"

definition list_users_proc ::
  "'r user_repository \<Rightarrow> role \<Rightarrow> list_users_input \<Rightarrow> ('r, 't, 'a, list_users_output) use_case" where
  "list_users_proc R caller_role inp =
    (if \<not> can_manage_roles caller_role then Ret (Inl ErrInsufficientPerms)
     else call (list_users_execute R caller_role inp) Ret)"

definition update_profile_proc ::
  "'r user_repository \<Rightarrow> uuid \<Rightarrow> string \<Rightarrow> ('r, 't, 'a, user_output) use_case" where
  "update_profile_proc R i name =
    try_call (on_repo (FindByID R i)) (\<lambda>a.
    call (\<lambda>w. try_do (on_gen (update_name name (user_at a w)) w) (\<lambda>u w.
      try_do (on_repo (Save R a) (set_user a u w)) (\<lambda>_ w. (Inr (user_output_of (user_at a w)), w)))) Ret)"

definition change_password_proc ::
  "'r user_repository \<Rightarrow> password_hasher \<Rightarrow> 'a audit_port \<Rightarrow> uuid \<Rightarrow> change_password_input \<Rightarrow>
   ('r, 't, 'a, unit) use_case" where
  "change_password_proc R H A i inp =
    (case validate_password (new_password inp) of
       Inl e \<Rightarrow> Ret (Inl e)
     | Inr _ \<Rightarrow>
        try_call (on_repo (FindByID R i)) (\<lambda>a.
        try_call (\<lambda>w.
          if Verify H (current_password inp) (usr_password_hash (user_at a w)) = Inl RuntimePanic then (Inl RuntimePanic, w)
          else if Verify H (current_password inp) (usr_password_hash (user_at a w)) \<noteq> Inr True then (Inl ErrInvalidCredentials, w)
          else on_gen (Hash H (new_password inp)) w) (\<lambda>new_hash.
        try_call (\<lambda>w. case on_gen (update_password new_hash (user_at a w)) w of (u, w) \<Rightarrow> on_repo (Save R a) (set_user a u w)) (\<lambda>_.
        call (\<lambda>w. (Inr (), record_audit A AuditEventPasswordChanged (Some i) (Some i) ''password changed'' w)) Ret))))"

definition change_role_proc ::
  "'r user_repository \<Rightarrow> 'a audit_port \<Rightarrow> uuid \<Rightarrow> uuid \<Rightarrow> role \<Rightarrow> ('r, 't, 'a, user_output) use_case" where
  "change_role_proc R A actor_id target_id new_role =
    try_call (on_repo (FindByID R actor_id)) (\<lambda>actor.
    try_call (on_repo (FindByID R target_id)) (\<lambda>target.
    try_call (\<lambda>w. let previous_role = usr_role (user_at target w) in
      try_do (on_gen (change_role new_role (user_at actor w) (user_at target w)) w) (\<lambda>u w.
      try_do (on_repo (Save R target) (set_user target u w)) (\<lambda>_ w. (Inr previous_role, w)))) (\<lambda>previous_role.
    call (\<lambda>w. let u = user_at target w in
      (Inr (user_output_of u), record_audit A AuditEventRoleChanged (Some actor_id) (Some target_id)
        (''role changed from '' @ previous_role @ '' to '' @ usr_role u) w)) Ret)))"

subsection \<open>Run alone, a process is its use case\<close>

lemma issue_proc_finish:
  "finish (issue_proc T A ty d wrap key a) w =
    (let u = user_at a w in
     case on_tokens (GeneratePair T (key u) (usr_role u)) w of
       (Inl e, w) \<Rightarrow> (Inl (wrap e), w)
     | (Inr pair, w) \<Rightarrow> (Inr (auth_output_of pair u), record_audit A ty (Some (key u)) None (d (usr_role u)) w))"
  by (simp add: issue_proc_def Let_def user_at_def on_tokens_def split: sum.splits prod.splits)

lemma register_finish:
  "finish (register_proc lo R H T A inp) w = register_execute lo R H T A inp w"
  by (auto simp: register_proc_def register_execute_def register_check_def register_store_def register_finish_def
      create_step_def issue_proc_finish try_do_def Let_def split: sum.splits prod.splits option.splits)

lemma login_finish: "finish (login_proc lo R H T A inp) w = login_execute lo R H T A inp w"
  by (auto simp: login_proc_def login_execute_def issue_proc_finish try_do_def Let_def
      split: sum.splits prod.splits option.splits)

lemma refresh_finish: "finish (refresh_proc R T A inp) w = refresh_execute R T A inp w"
  by (auto simp: refresh_proc_def redeemed_proc_def refresh_execute_def issue_proc_finish Let_def
      split: sum.splits prod.splits redemption_outcome.splits)

lemma get_user_finish: "finish (get_user_proc R c r i) w = get_user_execute R c r i w"
  by (simp add: get_user_proc_def get_user_execute_def split: prod.splits)

lemma list_users_finish: "finish (list_users_proc R r inp) w = list_users_execute R r inp w"
  by (simp add: list_users_proc_def list_users_execute_def split: prod.splits)

lemma update_profile_finish: "finish (update_profile_proc R i n) w = update_profile_execute R i n w"
  by (simp add: update_profile_proc_def update_profile_execute_def Let_def split: prod.splits)

lemma change_password_finish: "finish (change_password_proc R H A i inp) w = change_password_execute R H A i inp w"
  by (auto simp: change_password_proc_def change_password_execute_def try_do_def Let_def split: prod.splits sum.splits)

lemma change_role_finish: "finish (change_role_proc R A ac i r) w = change_role_execute R A ac i r w"
  by (auto simp: change_role_proc_def change_role_execute_def try_do_def Let_def split: prod.splits sum.splits)

subsection \<open>Requests\<close>

primrec serve_proc ::
  "(nat \<Rightarrow> nat) \<Rightarrow> 'r user_repository \<Rightarrow> password_hasher \<Rightarrow> 't token_service \<Rightarrow> 'a audit_port \<Rightarrow>
   request \<Rightarrow> (('r, 't, 'a) world, response) proc" where
  "serve_proc lo R H T A (Register inp) = map_proc Auth (register_proc lo R H T A inp)"
| "serve_proc lo R H T A (Login inp) = map_proc Auth (login_proc lo R H T A inp)"
| "serve_proc lo R H T A (Refresh inp) = map_proc Auth (refresh_proc R T A inp)"
| "serve_proc lo R H T A (GetUser c r i) = map_proc Profile (get_user_proc R c r i)"
| "serve_proc lo R H T A (ListUsers r inp) = map_proc Users (list_users_proc R r inp)"
| "serve_proc lo R H T A (UpdateProfile i n) = map_proc Profile (update_profile_proc R i n)"
| "serve_proc lo R H T A (ChangePassword i inp) = map_proc Done (change_password_proc R H A i inp)"
| "serve_proc lo R H T A (ChangeRole ac i r) = map_proc Profile (change_role_proc R A ac i r)"

lemma finish_map_proc: "finish (map_proc h p) s = (case finish p s of (x, s) \<Rightarrow> (h x, s))"
proof (induction p arbitrary: s)
  case (Act f)
  obtain p' s' where fs: "f s = (p', s')" by fastforce
  have "(p', s') \<in> range f" using fs by (metis rangeI)
  from Act [OF this, of p' s'] show ?case using fs by simp
qed simp

lemma finish_map: "finish (map_proc c p) w = tag c (finish p w)"
  by (simp add: finish_map_proc tag_def case_prod_beta)

lemma serve_finish: "finish (serve_proc lo R H T A rq) = serve lo R H T A rq"
  by (rule ext, cases rq)
    (simp_all add: finish_map_proc tag_def case_prod_beta register_finish login_finish refresh_finish get_user_finish
      list_users_finish update_profile_finish change_password_finish change_role_finish)

end
