(* ===== verification/ConcurrentRuns.thy ===== *)
theory ConcurrentRuns
  imports Concurrent AccountFlows
begin

section \<open>Runs of concurrent requests\<close>

text \<open>
  The server as a pool of goroutines: a request arrives with its process, any goroutine makes its next
  step, time passes, the environment of the token service changes, in any order. The method is
  rely--guarantee: \<open>guards\<close> says that a process, whatever the others do within \<open>rely\<close>, makes only steps
  within \<open>guar\<close> and ends with a result that satisfies \<open>post\<close>. A goroutine owns the user objects it allocated or read; others leave them alone.
\<close>

primrec proc_step :: "('w, 'x) proc \<Rightarrow> 'w \<Rightarrow> ('w, 'x) proc \<times> 'w" where
  "proc_step (Ret x) w = (Ret x, w)"
| "proc_step (Act f) w = f w"

record 'w thread =
  th_request :: request
  th_begun :: bool
  th_rest :: "('w, response) proc"

type_synonym ('r, 't, 'a) pool = "('r, 't, 'a) world \<times> ('r, 't, 'a) world thread list"

definition accept ::
  "(nat \<Rightarrow> nat) \<Rightarrow> 'r user_repository \<Rightarrow> password_hasher \<Rightarrow> 't token_service \<Rightarrow> 'a audit_port \<Rightarrow>
   request \<Rightarrow> ('r, 't, 'a) pool \<Rightarrow> ('r, 't, 'a) pool" where
  "accept lo R H T A rq s = (case s of (w, ts) \<Rightarrow>
     (w, ts @ [\<lparr>th_request = rq, th_begun = False, th_rest = serve_proc lo R H T A rq\<rparr>]))"

definition advance :: "nat \<Rightarrow> ('r, 't, 'a) pool \<Rightarrow> ('r, 't, 'a) pool" where
  "advance i s = (case s of (w, ts) \<Rightarrow>
     if i < length ts then
       (case proc_step (th_rest (ts ! i)) w of (p, w) \<Rightarrow> (w, ts[i := (ts ! i)\<lparr>th_begun := True, th_rest := p\<rparr>]))
     else (w, ts))"

inductive conc_step ::
  "(nat \<Rightarrow> nat) \<Rightarrow> 'r user_repository \<Rightarrow> password_hasher \<Rightarrow> 't token_service \<Rightarrow> 'a audit_port \<Rightarrow>
   ('t \<Rightarrow> 't \<Rightarrow> bool) \<Rightarrow> ('r, 't, 'a) pool \<Rightarrow> ('r, 't, 'a) pool \<Rightarrow> bool"
  for lo R H T A env where
  arrive: "conc_step lo R H T A env s (accept lo R H T A rq s)"
| move: "conc_step lo R H T A env s (advance i s)"
| wait: "clock_pos (sources w) \<le> n \<Longrightarrow>
    conc_step lo R H T A env (w, ts) (w\<lparr>sources := (sources w)\<lparr>clock_pos := n\<rparr>\<rparr>, ts)"
| change: "env (tokens w) t \<Longrightarrow> conc_step lo R H T A env (w, ts) (w\<lparr>tokens := t\<rparr>, ts)"

abbreviation conc_run ::
  "(nat \<Rightarrow> nat) \<Rightarrow> 'r user_repository \<Rightarrow> password_hasher \<Rightarrow> 't token_service \<Rightarrow> 'a audit_port \<Rightarrow>
   ('t \<Rightarrow> 't \<Rightarrow> bool) \<Rightarrow> ('r, 't, 'a) pool \<Rightarrow> ('r, 't, 'a) pool \<Rightarrow> bool" where
  "conc_run lo R H T A env \<equiv> (conc_step lo R H T A env)\<^sup>*\<^sup>*"

subsection \<open>Rely and guarantee\<close>

inductive guards ::
  "(nat set \<Rightarrow> 'w \<Rightarrow> 'w \<Rightarrow> bool) \<Rightarrow> (nat set \<Rightarrow> 'w \<Rightarrow> 'w \<Rightarrow> bool) \<Rightarrow> ('w \<Rightarrow> nat) \<Rightarrow> ('x \<Rightarrow> bool) \<Rightarrow>
   nat set \<Rightarrow> 'w \<Rightarrow> ('w, 'x) proc \<Rightarrow> bool"
  for rely guar extent post where
  Ret: "post x \<Longrightarrow> guards rely guar extent post V w (Ret x)"
| Act: "(\<And>w' p w''. rely V w w' \<Longrightarrow> f w' = (p, w'') \<Longrightarrow>
      guar V w' w'' \<and> guards rely guar extent post (V \<union> {extent w'..<extent w''}) w'' p) \<Longrightarrow>
    guards rely guar extent post V w (Act f)"

inductive_cases guards_ActE: "guards rely guar extent post V w (Act f)"
inductive_cases guards_RetE: "guards rely guar extent post V w (Ret x)"

lemma guards_ActD:
  "guards rely guar extent post V w (Act f) \<Longrightarrow> rely V w w' \<Longrightarrow> f w' = (p, w'') \<Longrightarrow>
   guar V w' w'' \<and> guards rely guar extent post (V \<union> {extent w'..<extent w''}) w'' p"
  by (blast elim: guards_ActE)

lemma guards_map: "guards rely guar extent (\<lambda>x. post (c x)) V w p \<Longrightarrow> guards rely guar extent post V w (map_proc c p)"
proof (induction rule: guards.induct)
  case (Act V w f)
  have "guar V w' w'' \<and> guards rely guar extent post (V \<union> {extent w'..<extent w''}) w'' p"
    if r: "rely V w w'" and p: "map_prod (map_proc c) id (f w') = (p, w'')" for w' p w''
  proof -
    obtain q where "f w' = (q, w'')" "p = map_proc c q" using p by (cases "f w'") auto
    then show ?thesis using Act [OF r] by blast
  qed
  then show ?case by (auto intro: guards.Act)
qed (simp add: guards.Ret)

lemma guards_call:
  assumes "\<And>w' x w''. rely V w w' \<Longrightarrow> op w' = (x, w'') \<Longrightarrow>
    guar V w' w'' \<and> guards rely guar extent post (V \<union> {extent w'..<extent w''}) w'' (k x)"
  shows "guards rely guar extent post V w (call op k)"
  unfolding call_def by (rule guards.Act) (use assms in \<open>auto split: prod.splits\<close>)

lemma guards_try_call:
  assumes "\<And>e. post (Inl e)" and "\<And>w' x w''. rely V w w' \<Longrightarrow> op w' = (x, w'') \<Longrightarrow> guar V w' w'' \<and>
    (case x of Inr y \<Rightarrow> guards rely guar extent post (V \<union> {extent w'..<extent w''}) w'' (k y) | Inl _ \<Rightarrow> True)"
  shows "guards rely guar extent post V w (try_call op k)"
  unfolding try_call_def
proof (rule guards_call)
  fix w' x w''
  assume "rely V w w'" "op w' = (x, w'')"
  from assms(2) [OF this] assms(1)
  show "guar V w' w'' \<and> guards rely guar extent post (V \<union> {extent w'..<extent w''}) w''
      (case_sum (\<lambda>e. Ret (Inl e)) k x)"
    by (cases x) (auto intro: guards.Ret)
qed

text \<open>In a pool every process has a guarantee of its own, named by a key.\<close>

definition pool_guards ::
  "(nat set \<Rightarrow> 'w \<Rightarrow> 'w \<Rightarrow> bool) \<Rightarrow> ('k \<Rightarrow> nat set \<Rightarrow> 'w \<Rightarrow> 'w \<Rightarrow> bool) \<Rightarrow> ('w \<Rightarrow> nat) \<Rightarrow>
   ('k \<Rightarrow> 'x \<Rightarrow> bool) \<Rightarrow> 'w \<Rightarrow> ('k \<times> ('w, 'x) proc) list \<Rightarrow> bool" where
  "pool_guards rely guar extent post w ps \<longleftrightarrow> (\<exists>V :: nat \<Rightarrow> nat set.
     (\<forall>i<length ps. V i \<subseteq> {..<extent w} \<and> guards rely (guar (fst (ps ! i))) extent (post (fst (ps ! i))) (V i) w (snd (ps ! i))) \<and>
     (\<forall>i<length ps. \<forall>j<length ps. i \<noteq> j \<longrightarrow> V i \<inter> V j = {}))"

locale rely_guarantee =
  fixes rely :: "nat set \<Rightarrow> 'w \<Rightarrow> 'w \<Rightarrow> bool" and guar :: "'k \<Rightarrow> nat set \<Rightarrow> 'w \<Rightarrow> 'w \<Rightarrow> bool"
    and extent :: "'w \<Rightarrow> nat" and good :: "'w \<Rightarrow> bool"
  assumes rely_refl: "good w \<Longrightarrow> rely V w w"
    and rely_trans: "rely V w w' \<Longrightarrow> rely V w' w'' \<Longrightarrow> rely V w w''"
    and guar_rely: "guar k V w w' \<Longrightarrow> U \<subseteq> {..<extent w} \<Longrightarrow> U \<inter> V = {} \<Longrightarrow> rely U w w'"
    and guar_extent: "guar k V w w' \<Longrightarrow> extent w \<le> extent w'"

context rely_guarantee
begin

lemma guards_later: "guards rely gu extent post V w p \<Longrightarrow> rely V w w' \<Longrightarrow> guards rely gu extent post V w' p"
proof (cases p)
  case (Act f)
  assume g: "guards rely gu extent post V w p" and r: "rely V w w'"
  show ?thesis unfolding Act
    by (rule guards.Act) (rule guards_ActD [where rely = rely, OF g [unfolded Act] rely_trans [OF r]])
qed (auto intro: guards.Ret elim: guards_RetE)

lemma pool_guards_later:
  assumes "pool_guards rely guar extent post w ps" "guar k {} w w'"
  shows "pool_guards rely guar extent post w' ps"
proof -
  obtain V where V: "\<forall>i<length ps. V i \<subseteq> {..<extent w} \<and> guards rely (guar (fst (ps ! i))) extent (post (fst (ps ! i))) (V i) w (snd (ps ! i))"
    "\<forall>i<length ps. \<forall>j<length ps. i \<noteq> j \<longrightarrow> V i \<inter> V j = {}"
    using assms(1) by (auto simp: pool_guards_def)
  have "V i \<subseteq> {..<extent w'} \<and> guards rely (guar (fst (ps ! i))) extent (post (fst (ps ! i))) (V i) w' (snd (ps ! i))" if "i < length ps" for i
    using V(1) that guar_rely [OF assms(2), of "V i"] guar_extent [OF assms(2)] guards_later by fastforce
  then show ?thesis using V(2) by (auto simp: pool_guards_def)
qed

lemma pool_guards_snoc:
  assumes "pool_guards rely guar extent post w ps" "guards rely (guar k) extent (post k) {} w p"
  shows "pool_guards rely guar extent post w (ps @ [(k, p)])"
proof -
  obtain V where V: "\<forall>i<length ps. V i \<subseteq> {..<extent w} \<and> guards rely (guar (fst (ps ! i))) extent (post (fst (ps ! i))) (V i) w (snd (ps ! i))"
    "\<forall>i<length ps. \<forall>j<length ps. i \<noteq> j \<longrightarrow> V i \<inter> V j = {}"
    using assms(1) by (auto simp: pool_guards_def)
  show ?thesis unfolding pool_guards_def
    by (rule exI [of _ "V(length ps := {})"]) (use V assms(2) in \<open>auto simp: nth_append less_Suc_eq\<close>)
qed

lemma pool_guards_step:
  assumes "good w" "pool_guards rely guar extent post w ps" "i < length ps" "ps ! i = (k, Act f)" "f w = (p, w')"
  shows "(\<exists>V. guar k V w w') \<and> pool_guards rely guar extent post w' (ps[i := (k, p)])"
proof -
  obtain V where V: "\<forall>j<length ps. V j \<subseteq> {..<extent w} \<and> guards rely (guar (fst (ps ! j))) extent (post (fst (ps ! j))) (V j) w (snd (ps ! j))"
    "\<forall>j<length ps. \<forall>k<length ps. j \<noteq> k \<longrightarrow> V j \<inter> V k = {}"
    using assms(2) by (auto simp: pool_guards_def)
  let ?W = "V i \<union> {extent w..<extent w'}"
  have gi: "guards rely (guar k) extent (post k) (V i) w (Act f)" using V(1) [rule_format, OF assms(3)] assms(4) by simp
  have g: "guar k (V i) w w' \<and> guards rely (guar k) extent (post k) ?W w' p"
    by (rule guards_ActD [where rely = rely, OF gi rely_refl [OF assms(1)] assms(5)])
  have le: "extent w \<le> extent w'" using g guar_extent by blast
  have other: "guards rely (guar (fst (ps ! j))) extent (post (fst (ps ! j))) (V j) w' (snd (ps ! j))" if j: "j < length ps" "j \<noteq> i" for j
  proof -
    have "V j \<inter> V i = {}" using V(2) j assms(3) by simp
    then have "rely (V j) w w'" using V(1) j(1) g by (auto intro: guar_rely)
    then show ?thesis using guards_later V(1) j(1) by blast
  qed
  have "(V(i := ?W)) j \<subseteq> {..<extent w'} \<and>
      guards rely (guar (fst (ps[i := (k, p)] ! j))) extent (post (fst (ps[i := (k, p)] ! j))) ((V(i := ?W)) j) w' (snd (ps[i := (k, p)] ! j))"
    if j: "j < length ps" for j
  proof -
    have "V j \<subseteq> {..<extent w'}" "{extent w..<extent w'} \<subseteq> {..<extent w'}"
      using V(1) j le by (meson lessThan_subset_iff order_trans, simp add: subset_iff)
    then show ?thesis using g j assms(3) other [OF j] by (cases "j = i") (simp_all add: le)
  qed
  moreover have "(V(i := ?W)) j \<inter> (V(i := ?W)) k = {}" if "j < length ps" "k < length ps" "j \<noteq> k" for j k
  proof -
    have "V m \<inter> {extent w..<extent w'} = {}" if "m < length ps" for m using V(1) that by fastforce
    then show ?thesis using V(2) that assms(3) by (auto simp: Int_Un_distrib Int_Un_distrib2)
  qed
  ultimately have "pool_guards rely guar extent post w' (ps[i := (k, p)])"
    unfolding pool_guards_def by (intro exI [of _ "V(i := ?W)"]) auto
  then show ?thesis using g by blast
qed

end

subsection \<open>What a goroutine may do to the world\<close>

text \<open>
  Beyond \<open>evolves\<close>: no user object and no account goes away, and accounts neither become nor cease to
  be the owner's. This holds of a repository that hands out objects of its own with every lookup and
  admits one owner, as PostgreSQL does.
\<close>

definition single_owner :: "(uuid \<Rightarrow> user option) \<Rightarrow> bool" where
  "single_owner m \<longleftrightarrow> (\<forall>i j u v. m i = Some u \<longrightarrow> m j = Some v \<longrightarrow>
     usr_role u = RoleOwner \<longrightarrow> usr_role v = RoleOwner \<longrightarrow> i = j)"

definition owner_kept :: "(uuid \<Rightarrow> user option) \<Rightarrow> (uuid \<Rightarrow> user option) \<Rightarrow> bool" where
  "owner_kept m m' \<longleftrightarrow> (\<forall>i u. m i = Some u \<longrightarrow>
     (\<exists>u'. m' i = Some u' \<and> (usr_role u' = RoleOwner \<longleftrightarrow> usr_role u = RoleOwner)))"

lemma owner_kept_refl [simp]: "owner_kept m m"
  by (simp add: owner_kept_def)

lemma owner_keptE:
  assumes "owner_kept m m'" "m i = Some u"
  obtains u' where "m' i = Some u'" "usr_role u' = RoleOwner \<longleftrightarrow> usr_role u = RoleOwner"
  using assms unfolding owner_kept_def by blast

lemma owner_kept_trans:
  assumes "owner_kept m m'" "owner_kept m' m''"
  shows "owner_kept m m''"
  unfolding owner_kept_def
proof (intro allI impI)
  fix i u assume u: "m i = Some u"
  obtain u' where u': "m' i = Some u'" "usr_role u' = RoleOwner \<longleftrightarrow> usr_role u = RoleOwner"
    by (rule owner_keptE [OF assms(1) u])
  obtain u'' where "m'' i = Some u''" "usr_role u'' = RoleOwner \<longleftrightarrow> usr_role u' = RoleOwner"
    by (rule owner_keptE [OF assms(2) u'(1)])
  then show "\<exists>u''. m'' i = Some u'' \<and> (usr_role u'' = RoleOwner \<longleftrightarrow> usr_role u = RoleOwner)" using u'(2) by blast
qed

lemma owner_kept_new: "written m u m' \<Longrightarrow> m (user_key u) = None \<Longrightarrow> owner_kept m m'"
  by (auto simp: owner_kept_def written_def)

lemma owner_kept_written:
  assumes "written m u m'" "single_owner m'"
    "\<And>v. m (user_key u) = Some v \<Longrightarrow> (usr_role v = RoleOwner \<longleftrightarrow> usr_role u = RoleOwner) \<or>
      usr_role v \<noteq> RoleOwner \<and> (\<exists>j o'. j \<noteq> user_key u \<and> m j = Some o' \<and> usr_role o' = RoleOwner)"
  shows "owner_kept m m'"
proof -
  obtain u' where u': "usr_role u' = usr_role u" "m' = m(user_key u \<mapsto> u')"
    using assms(1) by (auto simp: written_def content_eq)
  have "(usr_role u' = RoleOwner) = (usr_role v = RoleOwner)" if v: "m (user_key u) = Some v" for v
    using assms(3) [OF v]
  proof
    assume a: "usr_role v \<noteq> RoleOwner \<and> (\<exists>j o'. j \<noteq> user_key u \<and> m j = Some o' \<and> usr_role o' = RoleOwner)"
    then obtain j o' where o': "j \<noteq> user_key u" "m j = Some o'" "usr_role o' = RoleOwner" by blast
    then have "m' j = Some o'" "m' (user_key u) = Some u'" using u'(2) by simp_all
    then have "usr_role u' \<noteq> RoleOwner" using assms(2) o'(1,3) unfolding single_owner_def by blast
    then show ?thesis using a by simp
  qed (simp add: u'(1))
  then show ?thesis using u'(2) by (auto simp: owner_kept_def)
qed

locale private_application = application R lo rinv view T tinv spent env H
  for R :: "'r user_repository" and lo :: "nat \<Rightarrow> nat"
    and rinv :: "heap \<times> 'r \<Rightarrow> bool" and view :: "heap \<times> 'r \<Rightarrow> uuid \<Rightarrow> user option"
    and T :: "'t token_service" and tinv :: "gen \<times> 't \<Rightarrow> bool"
    and spent :: "gen \<times> 't \<Rightarrow> string \<Rightarrow> bool" and env :: "'t \<Rightarrow> 't \<Rightarrow> bool"
    and H :: password_hasher +
  assumes find_by_id_private: "FindByID R i (h, r) = (Inr a, h', r') \<Longrightarrow> length h \<le> a"
    and find_paginated_extends: "FindPaginated R off lim (h, r) = (pg, h', r') \<Longrightarrow> \<exists>ext. h' = h @ ext"
    and owner_law: "rinv S \<Longrightarrow> single_owner (view S)"

definition conc_moves ::
  "(heap \<times> 'r \<Rightarrow> bool) \<Rightarrow> (heap \<times> 'r \<Rightarrow> uuid \<Rightarrow> user option) \<Rightarrow> (gen \<times> 't \<Rightarrow> bool) \<Rightarrow>
   (gen \<times> 't \<Rightarrow> string \<Rightarrow> bool) \<Rightarrow> ('r, 't, 'a) world \<Rightarrow> ('r, 't, 'a) world \<Rightarrow> bool" where
  "conc_moves rinv view tinv spent w w' \<longleftrightarrow> evolves rinv view tinv spent w w' \<and>
     length (objects w) \<le> length (objects w') \<and> dom (stored view w) \<subseteq> dom (stored view w') \<and>
     (distinct_draws (sources w') \<longrightarrow> owner_kept (stored view w) (stored view w'))"

text \<open>
  Others leave the objects of \<open>V\<close> alone; a step of their holder, for a request \<open>rq\<close>, leaves all others
  alone, and all accounts that \<open>rq\<close> may not change.
\<close>

definition conc_rely ::
  "(heap \<times> 'r \<Rightarrow> bool) \<Rightarrow> (heap \<times> 'r \<Rightarrow> uuid \<Rightarrow> user option) \<Rightarrow> (gen \<times> 't \<Rightarrow> bool) \<Rightarrow>
   (gen \<times> 't \<Rightarrow> string \<Rightarrow> bool) \<Rightarrow> addr set \<Rightarrow> ('r, 't, 'a) world \<Rightarrow> ('r, 't, 'a) world \<Rightarrow> bool" where
  "conc_rely rinv view tinv spent V w w' \<longleftrightarrow> app_inv rinv view tinv w \<and> conc_moves rinv view tinv spent w w' \<and>
     (\<forall>a \<in> V. a < length (objects w) \<longrightarrow> user_at a w' = user_at a w)"

definition conc_guar ::
  "(heap \<times> 'r \<Rightarrow> bool) \<Rightarrow> (heap \<times> 'r \<Rightarrow> uuid \<Rightarrow> user option) \<Rightarrow> (gen \<times> 't \<Rightarrow> bool) \<Rightarrow>
   (gen \<times> 't \<Rightarrow> string \<Rightarrow> bool) \<Rightarrow> request \<Rightarrow> addr set \<Rightarrow> ('r, 't, 'a) world \<Rightarrow> ('r, 't, 'a) world \<Rightarrow> bool" where
  "conc_guar rinv view tinv spent rq V w w' \<longleftrightarrow> app_inv rinv view tinv w \<and> conc_moves rinv view tinv spent w w' \<and>
     (\<forall>a < length (objects w). a \<notin> V \<longrightarrow> user_at a w' = user_at a w) \<and>
     (distinct_draws (sources w') \<longrightarrow> (\<forall>i u. stored view w i = Some u \<longrightarrow> \<not> may_change (stored view w) rq i \<longrightarrow>
        stored view w' i = Some u))"

lemma conc_moves_refl: "app_inv rinv view tinv w \<Longrightarrow> conc_moves rinv view tinv spent w w"
  by (simp add: conc_moves_def evolves_refl)

lemma conc_moves_evolves: "conc_moves rinv view tinv spent w w' \<Longrightarrow> evolves rinv view tinv spent w w'"
  by (simp add: conc_moves_def)

lemmas conc_moves_inv = evolves_inv [OF conc_moves_evolves]

lemma conc_moves_trans:
  assumes "conc_moves rinv view tinv spent w w'" "conc_moves rinv view tinv spent w' w''"
  shows "conc_moves rinv view tinv spent w w''"
proof -
  have "evolves rinv view tinv spent w w''" using assms evolves_trans by (auto simp: conc_moves_def)
  moreover have "owner_kept (stored view w) (stored view w'')" if "distinct_draws (sources w'')"
  proof -
    have "distinct_draws (sources w')" using evolves_distinct [OF conc_moves_evolves [OF assms(2)] that] .
    then show ?thesis using assms that owner_kept_trans by (auto simp: conc_moves_def)
  qed
  ultimately show ?thesis using assms by (auto simp: conc_moves_def)
qed

lemma conc_moves_same:
  "evolves rinv view tinv spent w w' \<Longrightarrow> length (objects w) \<le> length (objects w') \<Longrightarrow> stored view w' = stored view w \<Longrightarrow>
   conc_moves rinv view tinv spent w w'"
  by (simp add: conc_moves_def)

sublocale private_application \<subseteq> conc: rely_guarantee "conc_rely rinv view tinv spent" "conc_guar rinv view tinv spent"
    "\<lambda>w. length (objects w)" "app_inv rinv view tinv"
proof (unfold_locales, goal_cases)
  case (2 V w w' w'')
  then have "conc_moves rinv view tinv spent w w''" "length (objects w) \<le> length (objects w')"
    unfolding conc_rely_def using conc_moves_trans by (blast, simp add: conc_moves_def)
  then show ?case using 2 by (simp add: conc_rely_def)
next
  case (3 k V w w' U)
  then have "a \<notin> V" "a < length (objects w)" if "a \<in> U" for a using that by auto
  then show ?case using 3(1) by (simp add: conc_rely_def conc_guar_def)
qed (simp_all add: conc_rely_def conc_guar_def conc_moves_refl, simp add: conc_moves_def)

text \<open>
  What a goroutine knows of an object it read: whose it is, and that it says truly whether this is the
  owner. Its role, password and name may be out of date.
\<close>

definition holds ::
  "(nat \<Rightarrow> nat) \<Rightarrow> (heap \<times> 'r \<Rightarrow> uuid \<Rightarrow> user option) \<Rightarrow> addr set \<Rightarrow> addr \<Rightarrow> uuid \<Rightarrow> ('r, 't, 'a) world \<Rightarrow> bool" where
  "holds lo view V a i w \<longleftrightarrow> a \<in> V \<and> a < length (objects w) \<and> user_key (user_at a w) = i \<and>
     canonical_email lo (usr_email (user_at a w)) \<and> i \<in> dom (stored view w) \<and>
     (distinct_draws (sources w) \<longrightarrow> (\<forall>v. stored view w i = Some v \<longrightarrow>
        (usr_role (user_at a w) = RoleOwner \<longleftrightarrow> usr_role v = RoleOwner)))"

lemma holds_more: "holds lo view V a i w \<Longrightarrow> holds lo view (V \<union> W) a i w"
  by (simp add: holds_def)

context private_application
begin

lemma guar_refl: "app_inv rinv view tinv w \<Longrightarrow> conc_guar rinv view tinv spent rq V w w"
  by (simp add: conc_guar_def conc_moves_refl)

lemma guar_trans:
  assumes "conc_guar rinv view tinv spent rq V w w'" "conc_guar rinv view tinv spent rq V w' w''"
    "stored view w' = stored view w"
  shows "conc_guar rinv view tinv spent rq V w w''"
proof -
  have m: "conc_moves rinv view tinv spent w w'" "conc_moves rinv view tinv spent w' w''"
    using assms by (simp_all add: conc_guar_def)
  have "length (objects w) \<le> length (objects w')" using m(1) by (simp add: conc_moves_def)
  then show ?thesis using assms conc_moves_trans [OF m] by (simp add: conc_guar_def)
qed

lemma guar_inv: "conc_guar rinv view tinv spent rq V w w' \<Longrightarrow> app_inv rinv view tinv w'"
  by (auto simp: conc_guar_def conc_moves_inv)

lemma reads_guar:
  assumes "app_inv rinv view tinv w" "evolves rinv view tinv spent w w'" "stored view w' = stored view w"
    "objects w' = objects w @ ext"
  shows "conc_guar rinv view tinv spent rq V w w'" and "conc_rely rinv view tinv spent V w w'"
  using assms by (simp_all add: conc_guar_def conc_rely_def conc_moves_same user_at_def nth_append)

lemma quiet:
  assumes "app_inv rinv view tinv w"
    "evolves rinv view tinv spent w w' \<and> objects w' = objects w \<and> repo w' = repo w \<and> rest"
  shows "conc_guar rinv view tinv spent rq V w w'" and "conc_rely rinv view tinv spent V w w'"
  using reads_guar [OF assms(1), of w' "[]"] assms(2) by simp_all

lemma gen_guar:
  assumes "app_inv rinv view tinv w" "on_gen f w = (x, w')" "\<And>g x g'. f g = (x, g') \<Longrightarrow> gen_later g g'"
  shows "conc_guar rinv view tinv spent rq V w w'" and "conc_rely rinv view tinv spent V w w'"
  using quiet [OF assms(1), of w'] on_gen_step [OF assms(1,2)] assms(3) by blast+

lemma audit_guar:
  assumes "app_inv rinv view tinv w"
  shows "conc_guar rinv view tinv spent rq V w (record_audit A ty ac ta d w)"
  by (rule quiet [where rest = True, OF assms]) (use audit_step [OF assms] in simp)

lemma find_by_id_guar:
  assumes "app_inv rinv view tinv w" "on_repo (FindByID R i) w = (x, w')"
  shows "conc_guar rinv view tinv spent rq V w w'" and "conc_rely rinv view tinv spent V w w'"
    and "x = Inr a \<Longrightarrow> holds lo view (V \<union> {length (objects w)..<length (objects w')}) a i w'"
proof -
  note s = find_by_id_step [OF assms]
  obtain ext where "objects w' = objects w @ ext" using s by blast
  then show "conc_guar rinv view tinv spent rq V w w'" "conc_rely rinv view tinv spent V w w'"
    using reads_guar [OF assms(1)] s by blast+
  show "holds lo view (V \<union> {length (objects w)..<length (objects w')}) a i w'" if x: "x = Inr a"
  proof -
    obtain h r where "FindByID R i (objects w, repo w) = (Inr a, h, r)" using assms(2) x by (auto simp: on_repo_eq)
    then have "length (objects w) \<le> a" by (rule find_by_id_private)
    then show ?thesis using s x by (auto simp: holds_def)
  qed
qed

lemma find_by_email_guar:
  assumes "app_inv rinv view tinv w" "on_repo (FindByEmail R em) w = (x, w')"
  shows "conc_guar rinv view tinv spent rq V w w'"
proof -
  obtain h r where c: "FindByEmail R em (objects w, repo w) = (x, h, r)" "w' = w\<lparr>objects := h, repo := r\<rparr>"
    using assms(2) by (auto simp: on_repo_eq)
  have i: "rinv (objects w, repo w)" using assms(1) by (simp add: app_inv_def)
  obtain ext where "objects w' = objects w @ ext" using find_by_email_law [OF i c(1)] c(2) by auto
  then show ?thesis using reads_guar [OF assms(1)] find_by_email_step [OF assms] by blast
qed

lemma user_by_email_guar:
  assumes "app_inv rinv view tinv w" "user_by_email R em w = (x, w')"
  shows "conc_guar rinv view tinv spent rq V w w'"
proof -
  obtain y where "on_repo (FindByEmail R em) w = (y, w')"
    using assms(2) by (auto simp: user_by_email_def split: prod.splits sum.splits)
  then show ?thesis by (rule find_by_email_guar [OF assms(1)])
qed

lemma holds_later:
  assumes "holds lo view V a i w" "conc_rely rinv view tinv spent V w w'"
  shows "holds lo view V a i w'"
proof -
  have a: "a \<in> V" "a < length (objects w)" using assms(1) by (simp_all add: holds_def)
  then have o: "user_at a w' = user_at a w" "length (objects w) \<le> length (objects w')"
    using assms(2) by (simp_all add: conc_rely_def conc_moves_def)
  have m: "conc_moves rinv view tinv spent w w'" using assms(2) by (simp add: conc_rely_def)
  have d: "i \<in> dom (stored view w')" using m assms(1) by (auto simp: conc_moves_def holds_def)
  have "usr_role (user_at a w) = RoleOwner \<longleftrightarrow> usr_role v' = RoleOwner"
    if dd: "distinct_draws (sources w')" and v': "stored view w' i = Some v'" for v'
  proof -
    obtain v where v: "stored view w i = Some v" using assms(1) by (auto simp: holds_def)
    have "distinct_draws (sources w)" using evolves_distinct [OF conc_moves_evolves [OF m] dd] .
    then have "usr_role (user_at a w) = RoleOwner \<longleftrightarrow> usr_role v = RoleOwner"
      using assms(1) v by (simp add: holds_def)
    moreover have "owner_kept (stored view w) (stored view w')" using m dd by (simp add: conc_moves_def)
    ultimately show ?thesis using v v' by (fastforce elim: owner_keptE)
  qed
  then show ?thesis using assms(1) o d by (auto simp: holds_def)
qed

lemma save_guar:
  assumes "app_inv rinv view tinv w" "holds lo view V a i w" "usr_id u = usr_id (user_at a w)"
    "usr_email u = usr_email (user_at a w)" "on_repo (Save R a) (set_user a u w) = (x, w')"
    "distinct_draws (sources w) \<Longrightarrow> (usr_role (user_at a w) = RoleOwner \<longleftrightarrow> usr_role u = RoleOwner) \<or>
       usr_role (user_at a w) \<noteq> RoleOwner \<and>
       (\<exists>j o'. j \<noteq> i \<and> stored view w j = Some o' \<and> usr_role o' = RoleOwner)"
    "distinct_draws (sources w) \<Longrightarrow> may_change (stored view w) rq i"
  shows "conc_guar rinv view tinv spent rq V w w'"
proof -
  have h: "a \<in> V" "a < length (objects w)" "canonical_email lo (usr_email u)" "user_key u = i"
    using assms(2-4) by (auto simp: holds_def user_key_def)
  obtain v where v: "stored view w i = Some v" using assms(2) by (auto simp: holds_def)
  note s = save_step [OF assms(1) h(2) assms(3) h(3) assms(5)]
  have inv: "app_inv rinv view tinv w'"
    using assms(1) s h(4) v ids_issued_rewritten [of "stored view w" "sources w" u "stored view w'"]
    unfolding app_inv_def by (elim conjE disjE) auto
  have k: "owner_kept (stored view w) (stored view w')" if d: "distinct_draws (sources w)"
  proof (cases "stored view w' = stored view w")
    case False
    then have wr: "written (stored view w) u (stored view w')" using s by blast
    have "single_owner (stored view w')" using owner_law s by blast
    moreover have "usr_role (user_at a w) = RoleOwner \<longleftrightarrow> usr_role v = RoleOwner"
      using assms(2) d v by (simp add: holds_def)
    ultimately show ?thesis using owner_kept_written [OF wr] assms(6) [OF d] v h(4) by auto
  qed simp
  have "evolves rinv view tinv spent w w'"
    unfolding evolves_def using inv s k by (auto simp: has_owner_def elim: owner_keptE)
  moreover have "dom (stored view w) \<subseteq> dom (stored view w')" using s by (auto simp: written_def)
  moreover have "user_at b w' = user_at b w" if "b \<notin> V" for b
    using s h(1) that by (cases "b = a") (simp_all add: user_at_def)
  moreover have "stored view w' j = Some v'"
    if "distinct_draws (sources w')" "stored view w j = Some v'" "\<not> may_change (stored view w) rq j" for j v'
  proof -
    have "distinct_draws (sources w)" using that(1) s by simp
    then have "j \<noteq> i" using assms(7) that(3) by blast
    then show ?thesis using s that(2) h(4) by (auto simp: written_def)
  qed
  ultimately show ?thesis using assms(1) s k by (simp add: conc_guar_def conc_moves_def)
qed

end

subsection \<open>Every request keeps its guarantee\<close>

context private_application
begin

lemma save_objects:
  assumes "app_inv rinv view tinv w" "a < length (objects w)" "canonical_email lo (usr_email (user_at a w))"
    "on_repo (Save R a) w = (x, w')"
  shows "objects w' = objects w"
proof -
  have s: "on_repo (Save R a) (set_user a (user_at a w) w) = (x, w')"
    using assms(4) by (simp add: set_user_def user_at_def)
  show ?thesis using save_step [OF assms(1,2) refl assms(3) s] by (simp add: user_at_def)
qed

lemma new_user_guar:
  assumes "app_inv rinv view tinv w" "on_gen (new_user em hash name role) w = (Inr u, w1)" "alloc_user u w1 = (a, w2)"
    "evolves rinv view tinv spent w w3" "objects w3 = objects w2"
    "distinct_draws (sources w1) \<longrightarrow> stored view w (user_key u) = None" "sources w3 = sources w1"
    "written (stored view w) u (stored view w3) \<or> stored view w3 = stored view w"
  shows "conc_guar rinv view tinv spent rq V w w3"
proof -
  have "objects w3 = objects w @ [u]"
    using new_user_step [OF assms(1,2)] assms(3,5) by (simp add: alloc_user_eq)
  then show ?thesis
    using assms(1,4,6,7,8) owner_kept_new
    by (auto simp: conc_guar_def conc_moves_def user_at_def nth_append written_def)
qed

lemma new_user_object:
  assumes "app_inv rinv view tinv w" "on_gen (new_user em hash name role) w = (Inr u, w1)" "alloc_user u w1 = (a, w2)"
  shows "app_inv rinv view tinv w2 \<and> a < length (objects w2) \<and> user_at a w2 = u \<and> usr_email u = em \<and> usr_role u = role"
proof -
  note n = new_user_step [OF assms(1,2)]
  have "app_inv rinv view tinv w1" using n evolves_inv by blast
  from alloc_step [OF this assms(3)] show ?thesis using n evolves_inv by blast
qed

lemma create_user_guar:
  assumes "app_inv rinv view tinv w" "canonical_email lo em" "create_step (Save R) inp em hash role w = (x, w')"
  shows "conc_guar rinv view tinv spent rq V w w'"
proof -
  obtain y w1 where n: "on_gen (new_user em hash (reg_name inp) role) w = (y, w1)" by fastforce
  show ?thesis
  proof (cases y)
    case (Inl e)
    then show ?thesis using assms(3) n gen_guar(1) [OF assms(1) n] gen_later_new_user by (auto simp: create_step_def)
  next
    case (Inr u)
    note n = n [unfolded Inr]
    obtain a w2 where al: "alloc_user u w1 = (a, w2)" by fastforce
    obtain z w3 where sv: "on_repo (Save R a) w2 = (z, w3)" by fastforce
    have "w' = w3" using assms(3) n al sv by (cases z) (auto simp: create_step_def)
    moreover have "objects w3 = objects w2"
      using new_user_object [OF assms(1) n al] assms(2) save_objects [OF _ _ _ sv] by blast
    ultimately show ?thesis
      using new_user_guar [OF assms(1) n al, of w3] save_new_step [OF assms(1,2) n al sv] by blast
  qed
qed

lemma create_owner_guar:
  assumes "app_inv rinv view tinv w" "canonical_email lo em"
    "create_step (SaveFirstOwner R) inp em hash RoleOwner w = (x, w')"
  shows "conc_guar rinv view tinv spent rq V w w'"
proof -
  obtain y w1 where n: "on_gen (new_user em hash (reg_name inp) RoleOwner) w = (y, w1)" by fastforce
  show ?thesis
  proof (cases y)
    case (Inl e)
    then show ?thesis using assms(3) n gen_guar(1) [OF assms(1) n] gen_later_new_user by (auto simp: create_step_def)
  next
    case (Inr u)
    note n = n [unfolded Inr]
    obtain a w2 where al: "alloc_user u w1 = (a, w2)" by fastforce
    obtain z w3 where sv: "on_repo (SaveFirstOwner R a) w2 = (z, w3)" by fastforce
    note o = new_user_object [OF assms(1) n al]
    have "w' = w3" using assms(3) n al sv by (cases z) (auto simp: create_step_def)
    moreover have "objects w3 = objects w2"
    proof -
      obtain h r where c: "SaveFirstOwner R a (objects w2, repo w2) = (z, h, r)" "w3 = w2\<lparr>objects := h, repo := r\<rparr>"
        using sv by (auto simp: on_repo_eq)
      have "rinv (objects w2, repo w2)" using o by (simp add: app_inv_def)
      from first_owner_law [OF this _ _ _ c(1)] show ?thesis using o assms(2) c(2) by (simp add: user_at_def)
    qed
    ultimately show ?thesis
      using new_user_guar [OF assms(1) n al, of w3] save_first_owner_step [OF assms(1,2) n al sv] by blast
  qed
qed

end

abbreviation conc_guards ::
  "(heap \<times> 'r \<Rightarrow> bool) \<Rightarrow> (heap \<times> 'r \<Rightarrow> uuid \<Rightarrow> user option) \<Rightarrow> (gen \<times> 't \<Rightarrow> bool) \<Rightarrow>
   (gen \<times> 't \<Rightarrow> string \<Rightarrow> bool) \<Rightarrow> request \<Rightarrow> ('x \<Rightarrow> bool) \<Rightarrow> addr set \<Rightarrow> ('r, 't, 'a) world \<Rightarrow>
   (('r, 't, 'a) world, 'x) proc \<Rightarrow> bool" where
  "conc_guards rinv view tinv spent rq \<equiv>
     guards (conc_rely rinv view tinv spent) (conc_guar rinv view tinv spent rq) (\<lambda>w. length (objects w))"

lemma rely_inv: "conc_rely rinv view tinv spent V w w' \<Longrightarrow> app_inv rinv view tinv w'"
  by (auto simp: conc_rely_def conc_moves_inv)

context private_application
begin

lemma last_guards:
  assumes "\<And>w'. conc_rely rinv view tinv spent V w w' \<Longrightarrow> conc_guar rinv view tinv spent rq V w' (snd (op w')) \<and> post (fst (op w'))"
  shows "conc_guards rinv view tinv spent rq post V w (call op Ret)"
proof (rule guards_call)
  fix w' x w''
  assume "conc_rely rinv view tinv spent V w w'" "op w' = (x, w'')"
  then show "conc_guar rinv view tinv spent rq V w' w'' \<and>
      conc_guards rinv view tinv spent rq post (V \<union> {length (objects w')..<length (objects w'')}) w'' (Ret x)"
    using assms [of w'] by (simp add: guards.Ret)
qed

lemma mutate_guar:
  assumes "app_inv rinv view tinv w" "holds lo view V a i w" "on_gen f w = (y, w1)"
    "\<And>g x g'. f g = (x, g') \<Longrightarrow> gen_later g g'" "usr_id u = usr_id (user_at a w)"
    "usr_email u = usr_email (user_at a w)" "on_repo (Save R a) (set_user a u w1) = (x, w')"
    "distinct_draws (sources w) \<Longrightarrow> (usr_role (user_at a w) = RoleOwner \<longleftrightarrow> usr_role u = RoleOwner) \<or>
       usr_role (user_at a w) \<noteq> RoleOwner \<and>
       (\<exists>j o'. j \<noteq> i \<and> stored view w j = Some o' \<and> usr_role o' = RoleOwner)"
    "distinct_draws (sources w) \<Longrightarrow> may_change (stored view w) rq i"
  shows "conc_guar rinv view tinv spent rq V w w'"
proof -
  have g1: "conc_guar rinv view tinv spent rq V w w1" and g2: "conc_rely rinv view tinv spent V w w1"
    using gen_guar [OF assms(1,3)] assms(4) by blast+
  have s: "evolves rinv view tinv spent w w1 \<and> objects w1 = objects w \<and> repo w1 = repo w"
    using on_gen_step [OF assms(1,3)] assms(4) by blast
  have "conc_guar rinv view tinv spent rq V w1 w'"
  proof (rule save_guar [OF rely_inv [OF g2] holds_later [OF assms(2) g2] _ _ assms(7)])
    assume "distinct_draws (sources w1)"
    then have "distinct_draws (sources w)" using s evolves_distinct by blast
    from assms(8) [OF this]
    show "(usr_role (user_at a w1) = RoleOwner \<longleftrightarrow> usr_role u = RoleOwner) \<or> usr_role (user_at a w1) \<noteq> RoleOwner \<and>
       (\<exists>j o'. j \<noteq> i \<and> stored view w1 j = Some o' \<and> usr_role o' = RoleOwner)"
      using s by (simp add: user_at_def)
  next
    assume "distinct_draws (sources w1)"
    then have "distinct_draws (sources w)" using s evolves_distinct by blast
    from assms(9) [OF this] show "may_change (stored view w1) rq i" using s by simp
  qed (use s assms(5,6) in \<open>simp_all add: user_at_def\<close>)
  from guar_trans [OF g1 this] s show ?thesis by simp
qed

lemma saved_key:
  assumes "app_inv rinv view tinv w" "holds lo view V a i w" "on_gen f w = (y, w1)"
    "\<And>g x g'. f g = (x, g') \<Longrightarrow> gen_later g g'" "usr_id u = usr_id (user_at a w)"
    "usr_email u = usr_email (user_at a w)" "on_repo (Save R a) (set_user a u w1) = (x, w')"
  shows "user_key (user_at a w') = i"
proof -
  have g: "conc_rely rinv view tinv spent V w w1" using gen_guar(2) [OF assms(1,3)] assms(4) by blast
  have w1: "objects w1 = objects w" using on_gen_step [OF assms(1,3)] assms(4) by blast
  note h = holds_later [OF assms(2) g]
  have u: "usr_id u = usr_id (user_at a w1)" "canonical_email lo (usr_email u)" "a < length (objects w1)"
    using assms(2,5,6) w1 by (simp_all add: holds_def user_at_def)
  from save_step [OF rely_inv [OF g] u(3,1,2) assms(7)] show ?thesis
    using h u(1,3) by (auto simp: holds_def user_at_def user_key_def)
qed

lemma issue_guards: "conc_guards rinv view tinv spent rq (\<lambda>_. True) V w (issue_proc T A ty d wrap key a)"
  unfolding issue_proc_def
proof (rule guards_call, intro conjI)
  fix w' x w''
  assume r: "conc_rely rinv view tinv spent V w w'"
    and o: "on_tokens (GeneratePair T (key (user_at a w')) (usr_role (user_at a w'))) w' = (x, w'')"
  show "conc_guar rinv view tinv spent rq V w' w''"
    by (rule quiet(1) [OF rely_inv [OF r] generate_step [OF rely_inv [OF r] o]])
  show "conc_guards rinv view tinv spent rq (\<lambda>_. True) (V \<union> {length (objects w')..<length (objects w'')}) w''
     (case x of Inl e \<Rightarrow> Ret (Inl (wrap e))
      | Inr pair \<Rightarrow> call (\<lambda>w. let u = user_at a w in
          (Inr (auth_output_of pair u), record_audit A ty (Some (key u)) None (d (usr_role u)) w)) Ret)"
    by (cases x) (auto simp: Let_def intro!: guards.Ret last_guards audit_guar [OF rely_inv])
qed

text \<open>Calls after which the process needs to know nothing of the result.\<close>

lemma email_call:
  "(\<And>x V w. conc_guards rinv view tinv spent rq post V w (k x)) \<Longrightarrow>
   conc_guards rinv view tinv spent rq post V w (call (user_by_email R em) k)"
  by (rule guards_call) (blast intro: user_by_email_guar rely_inv)

lemma hash_call:
  "(\<And>e. post (Inl e)) \<Longrightarrow> (\<And>x V w. conc_guards rinv view tinv spent rq post V w (k x)) \<Longrightarrow>
   conc_guards rinv view tinv spent rq post V w (try_call (on_gen (Hash H pw)) k)"
  by (rule guards_try_call) (auto intro!: gen_guar(1) [OF rely_inv] dest: hash_gen split: sum.splits)

lemma owner_call:
  "canonical_email lo em \<Longrightarrow> (\<And>e. post (Inl e)) \<Longrightarrow> (\<And>x V w. conc_guards rinv view tinv spent rq post V w (k x)) \<Longrightarrow>
   conc_guards rinv view tinv spent rq post V w (try_call (create_step (SaveFirstOwner R) inp em h RoleOwner) k)"
  by (rule guards_try_call) (auto intro: create_owner_guar [OF rely_inv] split: sum.splits)

lemma user_call:
  "canonical_email lo em \<Longrightarrow> (\<And>e. post (Inl e)) \<Longrightarrow> (\<And>x V w. conc_guards rinv view tinv spent rq post V w (k x)) \<Longrightarrow>
   conc_guards rinv view tinv spent rq post V w (try_call (create_step (Save R) inp em h role) k)"
  by (rule guards_try_call) (auto intro: create_user_guar [OF rely_inv] split: sum.splits)

lemma audit_last:
  "(\<And>w. post (f w)) \<Longrightarrow> conc_guards rinv view tinv spent rq post V w (call (\<lambda>w. (f w, record_audit A ty (ac w) ta (d w) w)) Ret)"
  by (rule last_guards) (simp add: audit_guar [OF rely_inv])

lemma register_guards:
  assumes "lower_laws lo"
  shows "conc_guards rinv view tinv spent rq (\<lambda>_. True) V w (register_proc lo R H T A inp)"
  using new_email_canonical_aux [OF assms, of "reg_email inp"]
  by (auto simp: register_proc_def Let_def split: sum.splits prod.splits option.splits
      intro!: guards.Ret email_call hash_call owner_call user_call issue_guards)

lemma login_guards: "conc_guards rinv view tinv spent rq (\<lambda>_. True) V w (login_proc lo R H T A inp)"
  unfolding login_proc_def Let_def
  by (auto split: sum.splits option.splits prod.splits
      intro!: guards.Ret email_call audit_last issue_guards guards_call [where k = "case_sum _ _"] guar_refl [OF rely_inv]
        user_by_email_guar [OF rely_inv])

lemma redeem_guar:
  assumes "app_inv rinv view tinv w" "on_tokens (RedeemRefreshToken T tok) w = (x, w')"
  shows "conc_guar rinv view tinv spent rq V w w'"
  by (rule quiet(1) [OF assms(1) redeem_step(1) [OF assms]])

lemma redeemed_guards: "conc_guards rinv view tinv spent rq (\<lambda>_. True) V w (redeemed_proc R T A x)"
proof (cases x)
  case (Inr red)
  show ?thesis
  proof (cases "outcome red")
    case RedemptionReused
    then show ?thesis
      by (auto simp: redeemed_proc_def Inr intro!: guards_call [where k = "\<lambda>_. _"] audit_last
          quiet(1) [OF rely_inv revoke_all_step [OF rely_inv]])
  next
    case RedemptionOK
    show ?thesis unfolding redeemed_proc_def Inr RedemptionOK sum.case redemption_outcome.case
    proof (rule guards_call, intro conjI)
      fix w1 y w2
      assume r: "conc_rely rinv view tinv spent V w w1"
        and o: "(case on_repo (FindByID R (red_user_id red)) w1 of
             (Inl e, w) \<Rightarrow> (Inl ErrUserNotFound, w)
           | (Inr a, w) \<Rightarrow> (if \<not> usr_is_active (user_at a w) then Inl ErrAccountInactive else Inr a, w)) = (y, w2)"
      obtain z where "on_repo (FindByID R (red_user_id red)) w1 = (z, w2)"
        using o by (auto split: prod.splits sum.splits)
      then show "conc_guar rinv view tinv spent rq V w1 w2" by (rule find_by_id_guar(1) [OF rely_inv [OF r]])
    qed (auto split: sum.splits intro!: guards.Ret issue_guards)
  qed (simp add: redeemed_proc_def Inr guards.Ret)
qed (simp add: redeemed_proc_def guards.Ret)

end

context private_application
begin

lemma refresh_guards: "conc_guards rinv view tinv spent rq (\<lambda>_. True) V w (refresh_proc R T A inp)"
  unfolding refresh_proc_def
  by (rule guards_call) (blast intro: redeemed_guards redeem_guar rely_inv)

lemma find_by_id_try:
  assumes "\<And>e. post (Inl e)" and "\<And>a V w. holds lo view V a i w \<Longrightarrow> conc_guards rinv view tinv spent rq post V w (k a)"
  shows "conc_guards rinv view tinv spent rq post V w (try_call (on_repo (FindByID R i)) k)"
proof (rule guards_try_call)
  fix w' x w''
  assume r: "conc_rely rinv view tinv spent V w w'" and o: "on_repo (FindByID R i) w' = (x, w'')"
  note g = find_by_id_guar [OF rely_inv [OF r] o, where V = V]
  show "conc_guar rinv view tinv spent rq V w' w'' \<and> (case x of
      Inr y \<Rightarrow> conc_guards rinv view tinv spent rq post (V \<union> {length (objects w')..<length (objects w'')}) w'' (k y)
    | Inl _ \<Rightarrow> True)"
    using g(1,3) assms(2) by (auto split: sum.splits)
qed (rule assms(1))

text \<open>The account that an answer shows is the one the request names, or the caller may manage roles.\<close>

definition shows_account :: "uuid \<Rightarrow> bool \<Rightarrow> error + user_output \<Rightarrow> bool" where
  "shows_account i allowed x \<longleftrightarrow> (case x of Inr out \<Rightarrow> out_id out = i \<and> allowed | Inl _ \<Rightarrow> True)"

lemma shows_account_Inl [simp]: "shows_account i b (Inl e)"
  by (simp add: shows_account_def)

lemma shows_account_holds: "holds lo view V a i w \<Longrightarrow> shows_account i True (Inr (user_output_of (user_at a w)))"
  by (simp add: shows_account_def holds_def user_output_of_def user_key_def)

lemma get_user_guards:
  "conc_guards rinv view tinv spent rq (shows_account i (c = i \<or> can_manage_roles r)) V w (get_user_proc R c r i)"
proof -
  let ?op = "\<lambda>w. try_do (on_repo (FindByID R i) w) (\<lambda>a w. (Inr (user_output_of (user_at a w)), w))"
  have "conc_guar rinv view tinv spent rq V w' (snd (?op w')) \<and> shows_account i True (fst (?op w'))"
    if "conc_rely rinv view tinv spent V w w'" for V w and w' :: "('r, 't, 'a) world"
  proof -
    obtain x w'' where o: "on_repo (FindByID R i) w' = (x, w'')" by fastforce
    note f = find_by_id_guar(1,3) [OF rely_inv [OF that] o, where V = V]
    show ?thesis using f(1) shows_account_holds [OF f(2)] o by (cases x) simp_all
  qed
  then show ?thesis by (auto simp: get_user_proc_def intro!: guards.Ret last_guards)
qed

lemma list_users_guards: "conc_guards rinv view tinv spent rq (\<lambda>x. is_err x \<or> can_manage_roles r) V w (list_users_proc R r inp)"
proof -
  have "conc_guar rinv view tinv spent rq V w' (snd (list_users_execute R r inp w'))"
    if "conc_rely rinv view tinv spent V w w'" and role: "can_manage_roles r" for w' :: "('r, 't, 'a) world"
  proof -
    note inv = rely_inv [OF that(1)]
    let ?op = "FindPaginated R (wrap64 (sint (page_of inp - 1) * sint (page_size_of inp))) (sint (page_size_of inp))"
    obtain x w'' where o: "on_repo ?op w' = (x, w'')" by fastforce
    then obtain ext where e: "objects w'' = objects w' @ ext"
      using find_paginated_extends by (auto simp: on_repo_eq) blast
    have "conc_guar rinv view tinv spent rq V w' w''"
      using reads_guar(1) [OF inv _ _ e] find_paginated_step [OF inv o] by blast
    moreover have "snd (list_users_execute R r inp w') = w''"
      using o role by (cases x) (auto simp: list_users_execute_def Let_def)
    ultimately show ?thesis by simp
  qed
  then show ?thesis by (auto simp: list_users_proc_def intro!: guards.Ret last_guards)
qed

lemma update_profile_guards:
  "conc_guards rinv view tinv spent (UpdateProfile i n) (shows_account i True) V w (update_profile_proc R i n)"
  unfolding update_profile_proc_def
proof (rule find_by_id_try, simp, rule last_guards)
  fix a V and w w' :: "('r, 't, 'a) world"
  assume h: "holds lo view V a i w" and r: "conc_rely rinv view tinv spent V w w'"
  note inv = rely_inv [OF r] and h = holds_later [OF h r]
  obtain x w1 where n: "on_gen (update_name n (user_at a w')) w' = (x, w1)" by fastforce
  let ?op = "try_do (on_gen (update_name n (user_at a w')) w') (\<lambda>u w.
      try_do (on_repo (Save R a) (set_user a u w)) (\<lambda>_ w. (Inr (user_output_of (user_at a w)), w)))"
  show "conc_guar rinv view tinv spent (UpdateProfile i n) V w' (snd ?op) \<and> shows_account i True (fst ?op)"
  proof (cases x)
    case (Inl e)
    then show ?thesis using gen_guar(1) [OF inv n] n gen_later_update_name by auto
  next
    case (Inr u)
    obtain y w2 where s: "on_repo (Save R a) (set_user a u w1) = (y, w2)" by fastforce
    have "conc_guar rinv view tinv spent (UpdateProfile i n) V w' w2"
      by (rule mutate_guar [OF inv h n gen_later_update_name _ _ s])
        (use n Inr in \<open>auto simp: on_gen_eq update_name_Inr may_change_def\<close>)
    moreover have "user_key (user_at a w2) = i"
      by (rule saved_key [OF inv h n gen_later_update_name _ _ s]) (use n Inr in \<open>auto simp: on_gen_eq update_name_Inr\<close>)
    ultimately show ?thesis using n Inr s by (cases y) (auto simp: shows_account_def user_output_of_def user_key_def)
  qed
qed

lemma change_password_guards: "conc_guards rinv view tinv spent (ChangePassword i inp) (\<lambda>_. True) V w (change_password_proc R H A i inp)"
proof (cases "validate_password (new_password inp)")
  case ok: (Inr un)
  show ?thesis unfolding change_password_proc_def ok sum.case
  proof (rule find_by_id_try, simp, rule guards_try_call, simp)
    fix a V x and w w1 w2 :: "('r, 't, 'a) world"
    assume h: "holds lo view V a i w" and r: "conc_rely rinv view tinv spent V w w1"
      and o: "(if Verify H (current_password inp) (usr_password_hash (user_at a w1)) = Inl RuntimePanic then (Inl RuntimePanic, w1)
          else if Verify H (current_password inp) (usr_password_hash (user_at a w1)) \<noteq> Inr True then (Inl ErrInvalidCredentials, w1)
          else on_gen (Hash H (new_password inp)) w1) = (x, w2)"
    note inv = rely_inv [OF r] and h = holds_later [OF h r]
    have g: "conc_guar rinv view tinv spent (ChangePassword i inp) V w1 w2 \<and> conc_rely rinv view tinv spent V w1 w2"
      using o gen_guar(1) [OF inv, of "Hash H (new_password inp)" x w2 "ChangePassword i inp" V]
        gen_guar(2) [OF inv, of "Hash H (new_password inp)" x w2 V] hash_gen conc.rely_refl [OF inv] guar_refl [OF inv]
      by (auto split: if_splits)
    let ?V = "V \<union> {length (objects w1)..<length (objects w2)}"
    have h2: "holds lo view ?V a i w2" using holds_later [OF h] g holds_more by blast
    have "conc_guards rinv view tinv spent (ChangePassword i inp) (\<lambda>_. True) ?V w2
        (try_call (\<lambda>w. case on_gen (update_password hash (user_at a w)) w of (u, w) \<Rightarrow> on_repo (Save R a) (set_user a u w)) (\<lambda>_.
         call (\<lambda>w. (Inr (), record_audit A AuditEventPasswordChanged (Some i) (Some i) ''password changed'' w)) Ret))" for hash
    proof (rule guards_try_call, simp)
      fix y and w3 w4 :: "('r, 't, 'a) world"
      assume r3: "conc_rely rinv view tinv spent ?V w2 w3"
        and o: "(case on_gen (update_password hash (user_at a w3)) w3 of (u, w) \<Rightarrow> on_repo (Save R a) (set_user a u w)) = (y, w4)"
      obtain u w' where n: "on_gen (update_password hash (user_at a w3)) w3 = (u, w')" by fastforce
      have sv: "on_repo (Save R a) (set_user a u w') = (y, w4)" using o n by simp
      have "conc_guar rinv view tinv spent (ChangePassword i inp) ?V w3 w4"
        by (rule mutate_guar [OF rely_inv [OF r3] holds_later [OF h2 r3] n _ _ _ sv])
          (use n in \<open>auto simp: on_gen_eq update_password_def time_now_def gen_later_def may_change_def\<close>)
      then show "conc_guar rinv view tinv spent (ChangePassword i inp) ?V w3 w4 \<and> (case y of
          Inr _ \<Rightarrow> conc_guards rinv view tinv spent (ChangePassword i inp) (\<lambda>_. True) (?V \<union> {length (objects w3)..<length (objects w4)}) w4
            (call (\<lambda>w. (Inr (), record_audit A AuditEventPasswordChanged (Some i) (Some i) ''password changed'' w)) Ret)
        | Inl _ \<Rightarrow> True)"
        by (auto split: sum.splits intro!: audit_last)
    qed
    then show "conc_guar rinv view tinv spent (ChangePassword i inp) V w1 w2 \<and> (case x of
        Inr hash \<Rightarrow> conc_guards rinv view tinv spent (ChangePassword i inp) (\<lambda>_. True) ?V w2
          (try_call (\<lambda>w. case on_gen (update_password hash (user_at a w)) w of (u, w) \<Rightarrow> on_repo (Save R a) (set_user a u w)) (\<lambda>_.
           call (\<lambda>w. (Inr (), record_audit A AuditEventPasswordChanged (Some i) (Some i) ''password changed'' w)) Ret))
      | Inl _ \<Rightarrow> True)"
      using g by (simp split: sum.splits)
  qed
qed (simp add: change_password_proc_def guards.Ret)

end

context private_application
begin

lemma change_role_guards: "conc_guards rinv view tinv spent (ChangeRole ac i role) (\<lambda>_. True) V w (change_role_proc R A ac i role)"
  unfolding change_role_proc_def
proof (rule find_by_id_try, simp, rule guards_try_call, simp)
  fix a V x and w w1 w2 :: "('r, 't, 'a) world"
  assume h: "holds lo view V a ac w" and r: "conc_rely rinv view tinv spent V w w1"
    and o: "on_repo (FindByID R i) w1 = (x, w2)"
  let ?step = "\<lambda>b w. let previous_role = usr_role (user_at b w) in
      try_do (on_gen (change_role role (user_at a w) (user_at b w)) w) (\<lambda>u w.
      try_do (on_repo (Save R b) (set_user b u w)) (\<lambda>_ w. (Inr previous_role, w)))"
  let ?k = "\<lambda>b. try_call (?step b) (\<lambda>previous_role.
    call (\<lambda>w. let u = user_at b w in
      (Inr (user_output_of u), record_audit A AuditEventRoleChanged (Some ac) (Some i)
        (''role changed from '' @ previous_role @ '' to '' @ usr_role u) w)) Ret)"
  let ?V = "V \<union> {length (objects w1)..<length (objects w2)}"
  note f = find_by_id_guar [OF rely_inv [OF r] o, where V = V]
  have h2: "holds lo view ?V a ac w2" by (rule holds_more [OF holds_later [OF holds_later [OF h r] f(2)]])
  have "conc_guards rinv view tinv spent (ChangeRole ac i role) (\<lambda>_. True) ?V w2 (?k b)" if b: "holds lo view ?V b i w2" for b
  proof (rule guards_try_call, simp)
    fix y and w3 w4 :: "('r, 't, 'a) world"
    assume r3: "conc_rely rinv view tinv spent ?V w2 w3" and o: "?step b w3 = (y, w4)"
    note inv = rely_inv [OF r3] and ha = holds_later [OF h2 r3] and hb = holds_later [OF b r3]
    obtain z w' where n: "on_gen (change_role role (user_at a w3) (user_at b w3)) w3 = (z, w')" by fastforce
    have "conc_guar rinv view tinv spent (ChangeRole ac i role) ?V w3 w4"
    proof (cases z)
      case (Inl e)
      then have "w4 = w'" using o n by (simp add: Let_def)
      then show ?thesis using gen_guar(1) [OF inv n] gen_later_change_role by blast
    next
      case (Inr u)
      have own: "usr_role (user_at a w3) = RoleOwner" "usr_id (user_at a w3) \<noteq> usr_id (user_at b w3)"
        and u: "usr_id u = usr_id (user_at b w3)" "usr_email u = usr_email (user_at b w3)"
        using n Inr by (auto simp: on_gen_eq change_role_Inr)
      have keys: "user_key (user_at a w3) = ac" "user_key (user_at b w3) = i" using ha hb by (simp_all add: holds_def)
      then have ne: "ac \<noteq> i" using own(2) by (metis user_id.expand user_key_def)
      obtain s w5 where sv: "on_repo (Save R b) (set_user b u w') = (s, w5)" by fastforce
      have "w4 = w5" using o n Inr sv by (cases s) (auto simp: Let_def)
      moreover have "conc_guar rinv view tinv spent (ChangeRole ac i role) ?V w3 w5"
      proof (rule mutate_guar [OF inv hb n _ u sv], erule gen_later_change_role, rule disjI2)
        assume "distinct_draws (sources w3)"
        then show "may_change (stored view w3) (ChangeRole ac i role) i"
          using ha own(1) by (auto simp: holds_def may_change_def)
      next
        assume d: "distinct_draws (sources w3)"
        obtain v v' where v: "stored view w3 ac = Some v" "stored view w3 i = Some v'"
          using ha hb by (auto simp: holds_def)
        have "usr_role v = RoleOwner" using ha d v(1) own(1) by (simp add: holds_def)
        moreover have "single_owner (stored view w3)" using owner_law inv by (auto simp: app_inv_def)
        ultimately have "usr_role v' \<noteq> RoleOwner" using ne v unfolding single_owner_def by blast
        then show "usr_role (user_at b w3) \<noteq> RoleOwner \<and>
            (\<exists>j o'. j \<noteq> i \<and> stored view w3 j = Some o' \<and> usr_role o' = RoleOwner)"
          using hb d v ne \<open>usr_role v = RoleOwner\<close> by (auto simp: holds_def)
      qed
      ultimately show ?thesis by simp
    qed
    then show "conc_guar rinv view tinv spent (ChangeRole ac i role) ?V w3 w4 \<and> (case y of
        Inr p \<Rightarrow> conc_guards rinv view tinv spent (ChangeRole ac i role) (\<lambda>_. True) (?V \<union> {length (objects w3)..<length (objects w4)}) w4
          (call (\<lambda>w. let u = user_at b w in (Inr (user_output_of u), record_audit A AuditEventRoleChanged (Some ac) (Some i)
             (''role changed from '' @ p @ '' to '' @ usr_role u) w)) Ret)
      | Inl _ \<Rightarrow> True)"
      by (auto simp: Let_def split: sum.splits intro!: last_guards audit_guar [OF rely_inv])
  qed
  then show "conc_guar rinv view tinv spent (ChangeRole ac i role) V w1 w2 \<and>
      (case x of Inr b \<Rightarrow> conc_guards rinv view tinv spent (ChangeRole ac i role) (\<lambda>_. True) ?V w2 (?k b) | Inl _ \<Rightarrow> True)"
    using f by (simp split: sum.splits)
qed

text \<open>What a request may be answered with: accounts only to a caller who may see them.\<close>

definition entitled :: "request \<Rightarrow> response \<Rightarrow> bool" where
  "entitled rq rs \<longleftrightarrow> (case rs of
      Profile x \<Rightarrow> (case rq of
          GetUser c r i \<Rightarrow> shows_account i (c = i \<or> can_manage_roles r) x
        | UpdateProfile i n \<Rightarrow> shows_account i True x
        | ChangeRole ac i role \<Rightarrow> True
        | _ \<Rightarrow> False)
    | Users x \<Rightarrow> (case rq of ListUsers r inp \<Rightarrow> is_err x \<or> can_manage_roles r | _ \<Rightarrow> False)
    | _ \<Rightarrow> True)"

lemma serve_guards:
  assumes "lower_laws lo"
  shows "conc_guards rinv view tinv spent rq (entitled rq) V w (serve_proc lo R H T A rq)"
  by (cases rq) (simp_all add: entitled_def register_guards [OF assms] login_guards refresh_guards get_user_guards list_users_guards
      update_profile_guards change_password_guards change_role_guards guards_map)

end

subsection \<open>Every run keeps the invariant\<close>

definition th_part :: "'w thread \<Rightarrow> request \<times> ('w, response) proc" where
  "th_part th = (th_request th, th_rest th)"

lemma map_part_update:
  "map th_part (ts[i := th\<lparr>th_begun := b, th_rest := p\<rparr>]) = (map th_part ts)[i := (th_request th, p)]"
  by (simp add: map_update th_part_def)

context private_application
begin

abbreviation pool_ok where
  "pool_ok s \<equiv> app_inv rinv view tinv (fst s) \<and>
     pool_guards (conc_rely rinv view tinv spent) (conc_guar rinv view tinv spent) (\<lambda>w. length (objects w)) entitled
       (fst s) (map th_part (snd s))"

lemma world_step_ok:
  assumes "pool_ok (w, ts)" "evolves rinv view tinv spent w w'" "objects w' = objects w" "repo w' = repo w"
  shows "conc_moves rinv view tinv spent w w' \<and> pool_ok (w', ts)"
proof -
  have inv: "app_inv rinv view tinv w" using assms(1) by simp
  have g: "conc_guar rinv view tinv spent (UpdateProfile i n) {} w w'" for i n
    using quiet(1) [OF inv, of w' True] assms(2-4) by simp
  then have "conc_moves rinv view tinv spent w w'" by (simp add: conc_guar_def)
  then show ?thesis using conc.pool_guards_later [OF _ g] assms(1) conc_moves_inv by auto
qed

lemma advance_ok:
  assumes "pool_ok s"
  shows "conc_moves rinv view tinv spent (fst s) (fst (advance i s)) \<and> pool_ok (advance i s) \<and>
    (stored view (fst (advance i s)) = stored view (fst s) \<or>
     i < length (snd s) \<and> (\<exists>V. conc_guar rinv view tinv spent (th_request (snd s ! i)) V (fst s) (fst (advance i s))))"
proof -
  obtain w ts where s: "s = (w, ts)" by fastforce
  have inv: "app_inv rinv view tinv w" using assms s by simp
  show ?thesis
  proof (cases "i < length ts")
    case False
    then show ?thesis using assms inv by (simp add: s advance_def conc_moves_refl)
  next
    case i: True
    let ?rq = "th_request (ts ! i)"
    show ?thesis
    proof (cases "th_rest (ts ! i)")
      case (Ret x)
      have "(map th_part ts)[i := (?rq, Ret x)] = map th_part ts"
        using i Ret by (metis list_update_id nth_map th_part_def)
      then show ?thesis
        using assms inv i Ret by (simp add: s advance_def conc_moves_refl map_part_update del: map_update)
    next
      case (Act f)
      obtain p w' where f: "f w = (p, w')" by fastforce
      have "(\<exists>V. conc_guar rinv view tinv spent ?rq V w w') \<and>
          pool_guards (conc_rely rinv view tinv spent) (conc_guar rinv view tinv spent) (\<lambda>w. length (objects w)) entitled
            w' ((map th_part ts)[i := (?rq, p)])"
        by (rule conc.pool_guards_step [where f = f, OF inv _ _ _ f]) (use assms i Act in \<open>simp_all add: s th_part_def\<close>)
      then show ?thesis
        using i Act f conc_moves_inv by (auto simp: s advance_def map_part_update conc_guar_def simp del: map_update)
    qed
  qed
qed

text \<open>A goroutine that has answered was entitled to its answer.\<close>

lemma pool_entitled:
  assumes "pool_ok (w, ts)" "k < length ts" "th_rest (ts ! k) = Ret rs"
  shows "entitled (th_request (ts ! k)) rs"
proof -
  obtain V where "guards (conc_rely rinv view tinv spent) (conc_guar rinv view tinv spent (th_request (ts ! k)))
      (\<lambda>w. length (objects w)) (entitled (th_request (ts ! k))) V w (Ret rs)"
    using assms by (fastforce simp: pool_guards_def th_part_def)
  then show ?thesis by (rule guards_RetE)
qed

text \<open>A goroutine changes a stored account only when its request may.\<close>

lemma advance_frame:
  assumes "pool_ok s" "distinct_draws (sources (fst (advance i s)))" "stored view (fst s) j = Some u"
    "stored view (fst (advance i s)) j \<noteq> Some u"
  shows "i < length (snd s) \<and> may_change (stored view (fst s)) (th_request (snd s ! i)) j"
  using advance_ok [OF assms(1), of i] assms(2-4) by (auto simp: conc_guar_def)

lemma conc_step_ok:
  assumes "lower_laws lo" "conc_step lo R H T A env s s'" "pool_ok s"
  shows "conc_moves rinv view tinv spent (fst s) (fst s') \<and> pool_ok s'"
  using assms(2,3)
proof cases
  case (arrive rq)
  obtain w ts where s: "s = (w, ts)" by fastforce
  have inv: "app_inv rinv view tinv w" using assms(3) s by simp
  have "pool_guards (conc_rely rinv view tinv spent) (conc_guar rinv view tinv spent) (\<lambda>w. length (objects w)) entitled w
      (map th_part ts @ [(rq, serve_proc lo R H T A rq)])"
    by (rule conc.pool_guards_snoc [OF _ serve_guards [OF assms(1)]]) (use assms(3) s in simp)
  then show ?thesis using arrive inv by (simp add: s accept_def conc_moves_refl th_part_def)
next
  case (move i)
  then show ?thesis using advance_ok [OF assms(3)] by simp
next
  case (wait w n ts)
  have ok: "pool_ok (w, ts)" using assms(3) unfolding wait(1) .
  then have "evolves rinv view tinv spent w (w\<lparr>sources := (sources w)\<lparr>clock_pos := n\<rparr>\<rparr>)"
    by (intro wait_step wait(3)) simp
  from world_step_ok [OF ok this] show ?thesis unfolding wait(1,2) by simp
next
  case (change w t ts)
  have ok: "pool_ok (w, ts)" using assms(3) unfolding change(1) .
  then have "evolves rinv view tinv spent w (w\<lparr>tokens := t\<rparr>)" by (intro env_step change(3)) simp
  from world_step_ok [OF ok this] show ?thesis unfolding change(1,2) by simp
qed

lemma empty_pool_ok: "app_inv rinv view tinv w \<Longrightarrow> pool_ok (w, [])"
  by (simp add: pool_guards_def)

lemma conc_run_ok:
  assumes "lower_laws lo" "conc_run lo R H T A env s s'" "pool_ok s"
  shows "conc_moves rinv view tinv spent (fst s) (fst s') \<and> pool_ok s'"
  using assms(2)
proof (induction rule: rtranclp_induct)
  case base
  then show ?case using assms(3) conc_moves_refl by blast
next
  case (step s' s'')
  then show ?case using conc_step_ok [OF assms(1) step.hyps(2)] conc_moves_trans by blast
qed

end

subsection \<open>One winner for every refresh token\<close>

text \<open>
  A goroutine that serves \<^verbatim>\<open>RefreshToken\<close> and has made its first call holds a ticket as long as it can
  still answer with tokens. Before the token is spent there is no ticket for it, afterwards one.
\<close>

primrec may_return :: "('x \<Rightarrow> bool) \<Rightarrow> ('w, 'x) proc \<Rightarrow> bool" where
  "may_return P (Ret x) = P x"
| "may_return P (Act f) = (\<exists>w. fst (map_prod (may_return P) (\<lambda>w. w) (f w)))"

definition answers_tokens :: "response \<Rightarrow> bool" where
  "answers_tokens r \<longleftrightarrow> (case r of Auth (Inr _) \<Rightarrow> True | _ \<Rightarrow> False)"

definition refreshes :: "string \<Rightarrow> request \<Rightarrow> bool" where
  "refreshes tok rq \<longleftrightarrow> (case rq of Refresh inp \<Rightarrow> in_refresh_token inp = tok | _ \<Rightarrow> False)"

definition exchanged :: "string \<Rightarrow> 'w thread \<Rightarrow> bool" where
  "exchanged tok th \<longleftrightarrow> refreshes tok (th_request th) \<and> (case th_rest th of Ret r \<Rightarrow> answers_tokens r | Act _ \<Rightarrow> False)"

definition ticket :: "string \<Rightarrow> 'w thread \<Rightarrow> bool" where
  "ticket tok th \<longleftrightarrow> th_begun th \<and> refreshes tok (th_request th) \<and> may_return answers_tokens (th_rest th)"

lemma may_return_step: "proc_step p w = (p', w') \<Longrightarrow> may_return P p' \<Longrightarrow> may_return P p"
proof (cases p)
  case (Act f)
  assume "proc_step p w = (p', w')" "may_return P p'"
  then have "fst (map_prod (may_return P) (\<lambda>w. w) (f w))" using Act by simp
  then show ?thesis using Act by auto
qed simp

lemma may_return_redeemed:
  "may_return answers_tokens (map_proc Auth (redeemed_proc R T A x)) \<Longrightarrow>
   \<exists>res. x = Inr res \<and> outcome res = RedemptionOK"
  by (cases x; cases "outcome (projr x)")
    (auto simp: redeemed_proc_def call_def answers_tokens_def split: prod.splits)

lemma filter_update_length:
  "i < length xs \<Longrightarrow> length (filter P (xs[i := x])) + (if P (xs ! i) then 1 else 0) =
     length (filter P xs) + (if P x then 1 else 0)"
proof (induction xs arbitrary: i)
  case (Cons y xs)
  then show ?case by (cases i) (fastforce simp: Cons.IH)+
qed simp

definition fresh_threads ::
  "(nat \<Rightarrow> nat) \<Rightarrow> 'r user_repository \<Rightarrow> password_hasher \<Rightarrow> 't token_service \<Rightarrow> 'a audit_port \<Rightarrow>
   ('r, 't, 'a) world thread list \<Rightarrow> bool" where
  "fresh_threads lo R H T A ts \<longleftrightarrow>
     (\<forall>th \<in> set ts. \<not> th_begun th \<longrightarrow> th_rest th = serve_proc lo R H T A (th_request th))"

lemma fresh_threads_step: "conc_step lo R H T A env s s' \<Longrightarrow> fresh_threads lo R H T A (snd s) \<Longrightarrow> fresh_threads lo R H T A (snd s')"
  by (induction rule: conc_step.induct)
    (auto simp: accept_def advance_def fresh_threads_def split: prod.splits dest!: subsetD [OF set_update_subset_insert])

lemma exchanged_ticket:
  assumes "fresh_threads lo R H T A ts" "th \<in> set ts" "exchanged tok th"
  shows "ticket tok th"
proof -
  obtain inp r where r: "th_request th = Refresh inp" "th_rest th = Ret r"
    using assms(3) by (auto simp: exchanged_def refreshes_def split: request.splits proc.splits)
  then have "th_begun th" using assms(1,2) by (auto simp: fresh_threads_def refresh_proc_def call_def)
  then show ?thesis using assms(3) r by (simp add: ticket_def exchanged_def)
qed

context private_application
begin

lemma tickets_move:
  assumes "pool_ok (w, ts)" "fresh_threads lo R H T A ts" "i < length ts"
    "proc_step (th_rest (ts ! i)) w = (p, w')" "distinct_draws (sources w')" "conc_moves rinv view tinv spent w w'"
    "length (filter (ticket tok) ts) \<le> (if spent (sources w, tokens w) tok then 1 else 0)"
  shows "length (filter (ticket tok) (ts[i := (ts ! i)\<lparr>th_begun := True, th_rest := p\<rparr>])) \<le>
    (if spent (sources w', tokens w') tok then 1 else 0)"
proof -
  let ?th = "(ts ! i)\<lparr>th_begun := True, th_rest := p\<rparr>"
  have later: "spent (sources w, tokens w) tok \<Longrightarrow> spent (sources w', tokens w') tok"
    using evolves_spent [OF conc_moves_evolves [OF assms(6)] assms(5)] .
  note len = filter_update_length [OF assms(3), of "ticket tok" ?th]
  show ?thesis
  proof (cases "ticket tok ?th \<longrightarrow> ticket tok (ts ! i)")
    case True
    then have "length (filter (ticket tok) (ts[i := ?th])) \<le> length (filter (ticket tok) ts)"
      using len by (auto split: if_splits)
    then show ?thesis using assms(7) later by (auto split: if_splits)
  next
    case False
    then have t: "refreshes tok (th_request (ts ! i))" "may_return answers_tokens p" "\<not> ticket tok (ts ! i)"
      by (auto simp: ticket_def)
    have "\<not> th_begun (ts ! i)" using t may_return_step [OF assms(4)] by (auto simp: ticket_def)
    moreover obtain inp where inp: "th_request (ts ! i) = Refresh inp" "in_refresh_token inp = tok"
      using t(1) by (auto simp: refreshes_def split: request.splits)
    ultimately have "th_rest (ts ! i) = map_proc Auth (refresh_proc R T A inp)"
      using assms(2,3) by (auto simp: fresh_threads_def)
    then obtain x where x: "on_tokens (RedeemRefreshToken T tok) w = (x, w')" "p = map_proc Auth (redeemed_proc R T A x)"
      using assms(4) inp(2) by (auto simp: refresh_proc_def call_def split: prod.splits)
    obtain res where "x = Inr res" "outcome res = RedemptionOK"
      using may_return_redeemed t(2) x(2) by blast
    then have "\<not> spent (sources w, tokens w) tok \<and> spent (sources w', tokens w') tok"
      using redeem_step(2) [OF _ x(1)] assms(1,5) by simp
    then show ?thesis using len assms(7) t(3) by (simp split: if_splits)
  qed
qed

lemma tickets_step:
  assumes "lower_laws lo" "conc_step lo R H T A env s s'" "pool_ok s" "fresh_threads lo R H T A (snd s)"
    "distinct_draws (sources (fst s'))"
    "length (filter (ticket tok) (snd s)) \<le> (if spent (sources (fst s), tokens (fst s)) tok then 1 else 0)"
  shows "length (filter (ticket tok) (snd s')) \<le> (if spent (sources (fst s'), tokens (fst s')) tok then 1 else 0)"
proof -
  have m: "conc_moves rinv view tinv spent (fst s) (fst s')" using conc_step_ok [OF assms(1-3)] by blast
  have later: "spent (sources (fst s), tokens (fst s)) tok \<Longrightarrow> spent (sources (fst s'), tokens (fst s')) tok"
    using evolves_spent [OF conc_moves_evolves [OF m] assms(5)] .
  show ?thesis using assms(2)
  proof cases
    case (arrive rq)
    then show ?thesis using assms(6) by (cases s) (simp add: accept_def ticket_def)
  next
    case (move i)
    obtain w ts where s: "s = (w, ts)" by fastforce
    obtain p w' where p: "proc_step (th_rest (ts ! i)) w = (p, w')" by fastforce
    show ?thesis
    proof (cases "i < length ts")
      case i: True
      then show ?thesis using tickets_move [OF _ _ i p] move s p m assms(3-6) by (simp add: advance_def)
    qed (use move s assms(6) in \<open>simp add: advance_def\<close>)
  next
    case (wait w n ts)
    then show ?thesis using assms(6) later by (auto split: if_splits)
  next
    case (change w t ts)
    then show ?thesis using assms(6) later by (auto split: if_splits)
  qed
qed

lemma exchanged_at_most_once:
  assumes "lower_laws lo" "conc_run lo R H T A env (w, []) s" "app_inv rinv view tinv w"
    "distinct_draws (sources (fst s))"
  shows "length (filter (exchanged tok) (snd s)) \<le> 1"
proof -
  have "pool_ok s \<and> fresh_threads lo R H T A (snd s) \<and> (distinct_draws (sources (fst s)) \<longrightarrow>
      length (filter (ticket tok) (snd s)) \<le> (if spent (sources (fst s), tokens (fst s)) tok then 1 else 0))"
    using assms(2)
  proof (induction rule: rtranclp_induct)
    case base
    then show ?case using empty_pool_ok [OF assms(3)] by (simp add: fresh_threads_def)
  next
    case (step s' s'')
    then have ok: "pool_ok s'" "fresh_threads lo R H T A (snd s')" by blast+
    note m = conc_step_ok [OF assms(1) step.hyps(2) ok(1)]
    have "distinct_draws (sources (fst s''))\<Longrightarrow> distinct_draws (sources (fst s'))"
      using m evolves_distinct conc_moves_evolves by blast
    then show ?case
      using m fresh_threads_step [OF step.hyps(2) ok(2)] tickets_step [OF assms(1) step.hyps(2) ok] step.IH by blast
  qed
  then have f: "fresh_threads lo R H T A (snd s)" and t: "length (filter (ticket tok) (snd s)) \<le> 1"
    using assms(4) by (auto split: if_splits)
  have "filter (exchanged tok) (snd s) = filter (exchanged tok) (filter (ticket tok) (snd s))"
    unfolding filter_filter by (rule filter_cong) (use exchanged_ticket [OF f] in auto)
  then show ?thesis using t length_filter_le [of "exchanged tok" "filter (ticket tok) (snd s)"] by simp
qed

end

end
