(* ===== verification/ConcurrentAccounts.thy ===== *)
theory ConcurrentAccounts
  imports ConcurrentRuns
begin

section \<open>Concurrent requests on the database\<close>

text \<open>
  PostgreSQL hands out a new object with every row it scans and admits one owner, so the runs of
  \<open>ConcurrentRuns\<close> on it keep their invariant. The properties are those of the deployment: who wins a
  refresh token, who is the owner, whatever the order in which concurrent requests make their calls.
\<close>

lemma scan_row_private:
  "scan_row lo p h = (Inr a, h', s') \<Longrightarrow> length h \<le> a"
  by (auto simp: scan_row_def alloc_def split: prod.splits sum.splits list.splits)

lemma scan_rows_extends: "scan_rows lo rows h = (x, h') \<Longrightarrow> \<exists>ext. h' = h @ ext"
proof (induction rows arbitrary: h x h')
  case (Cons r rows)
  then show ?case by (fastforce simp: alloc_def split: sum.splits prod.splits)
qed simp

lemma pg_paginated_extends:
  "pg_find_paginated lo off lim (h, r) = (pg, h', r') \<Longrightarrow> \<exists>ext. h' = h @ ext"
  using scan_rows_extends [of lo _ h] by (fastforce simp: pg_find_paginated_def split: prod.splits sum.splits)

lemma one_row_owner:
  assumes "length (filter p xs) \<le> 1" "x \<in> set xs" "y \<in> set xs" "p x" "p y"
  shows "x = y"
proof -
  have "x \<in> set (filter p xs)" "y \<in> set (filter p xs)" using assms(2-5) by simp_all
  then show ?thesis using assms(1) by (cases "filter p xs") auto
qed

lemma pg_single_owner:
  assumes "pg_inv lo S"
  shows "single_owner (pg_view S)"
proof -
  have c: "pg_constraints (users_table (snd S))" using assms by (simp add: pg_inv_def)
  have o: "length (filter (\<lambda>r. row_role r = ''owner'') (users_table (snd S))) \<le> 1" using c by (simp add: pg_constraints_def)
  show ?thesis
    using pg_view_Some [OF c, of "fst S"] by (auto simp: single_owner_def dest: one_row_owner [OF o])
qed

sublocale deployment \<subseteq> pool: private_application "postgres_repository P lo" lo "pg_inv lo" pg_view
    "jwt_token_service J U L svc" "jwt_inv U L" "jwt_spent U L" "jwt_env L" "argon2_hasher lib"
proof (unfold_locales, goal_cases)
  case (1 i h r a h' r')
  then show ?case by (auto simp: postgres_repository_def pg_find_by_id_def dest: scan_row_private)
next
  case (2 off lim h r pg h' r')
  then show ?case using pg_paginated_extends by (auto simp: postgres_repository_def)
next
  case (3 S)
  then show ?case by (rule pg_single_owner)
qed

interpretation demo_pool: private_application demo_P "\<lambda>r. r" "pg_inv (\<lambda>r. r)" pg_view
    demo_T "jwt_inv rfc_uuid demo_redis" "jwt_spent rfc_uuid demo_redis" "jwt_env demo_redis" demo_H
  by (rule demo.pool.private_application_axioms)

context deployment
begin

lemma pool_application:
  "private_application (postgres_repository P lo) lo (pg_inv lo) pg_view
    (jwt_token_service J U L svc) (jwt_inv U L) (jwt_spent U L) (jwt_env L) (argon2_hasher lib)"
  by (rule pool.private_application_axioms)

end

lemma pool_laws:
  assumes "uuid_laws U" "redis_laws L" "argon2_laws lib" "lower_laws lo"
  shows "private_application (postgres_repository P lo) lo (pg_inv lo) pg_view
    (jwt_token_service J U L svc) (jwt_inv U L) (jwt_spent U L) (jwt_env L) (argon2_hasher lib)"
  by (rule deployment.pool_application [OF deploymentI [OF assms]])

subsection \<open>Two requests with one refresh token, for the witnesses\<close>

definition demo_token :: string where "demo_token = uuid_String rfc_uuid 5"

definition demo_race :: demo_pg_world where
  "demo_race = (demo_pg [demo_user 1 ''bob@e.com'' RoleOwner 0])\<lparr>tokens :=
     demo_conn [(0, Delivered), (0, Delivered), (0, Delivered), (0, Delivered)] [(refreshKey demo_token, uuid_String rfc_uuid 1, 100)]\<rparr>"

abbreviation demo_step where
  "demo_step \<equiv> conc_run (\<lambda>r. r) demo_P demo_H demo_T demo_A (jwt_env demo_redis)"

abbreviation demo_request :: request where
  "demo_request \<equiv> Refresh \<lparr>in_refresh_token = demo_token\<rparr>"

lemma demo_race_inv: "postgres_world rfc_uuid demo_redis (\<lambda>r. r) demo_race"
proof -
  have "alive demo_redis (redis_db (tokens demo_race)) \<subseteq> {demo_token}"
    by (auto simp: alive_def demo_redis_def demo_race_def demo_conn_def refreshKey_def split: if_splits)
  moreover have "demo_token \<in> issued rfc_uuid (demo_gen\<lparr>uuid_pos := 100\<rparr>)"
    by (auto simp: issued_def demo_token_def demo_gen_def intro!: exI [of _ 5])
  ultimately have "jwt_inv rfc_uuid demo_redis (demo_gen\<lparr>uuid_pos := 100\<rparr>, tokens demo_race)"
    by (auto simp: jwt_inv_def)
  then show ?thesis using demo_pg_inv by (simp add: app_inv_def demo_race_def demo_pg_def)
qed

lemma proc_step_call: "proc_step (map_proc c (call op k)) w = (case op w of (x, w) \<Rightarrow> (map_proc c (k x), w))"
  by (simp add: call_def split: prod.splits)

lemma advance_nth:
  "i < length ts \<Longrightarrow> proc_step (th_rest (ts ! i)) w = (p, w') \<Longrightarrow>
   advance i (w, ts) = (w', ts[i := (ts ! i)\<lparr>th_begun := True, th_rest := p\<rparr>])"
  by (simp add: advance_def)

lemma resilient_round_trip:
  assumes "cb_state (redis_breaker c) = StateClosed" "net c = (t, Delivered) # rest" "command t (redis_db c) = (Inr v, d)"
  shows "resilient policy (round_trip command) (g, c) =
    (Inr v, g, c\<lparr>net := rest, redis_db := d, redis_breaker := record_success (redis_breaker c)\<rparr>)"
  by (subst resilient_delivered [OF assms(1)]) (auto simp: round_trip_def assms(2,3))

lemma demo_redeem:
  obtains c c' where
    "RedeemRefreshToken demo_T demo_token (g, tokens demo_race) = (Inr \<lparr>outcome = RedemptionOK, red_user_id = 1\<rparr>, g, c)"
    "RedeemRefreshToken demo_T demo_token (g, c) = (Inr \<lparr>outcome = RedemptionReused, red_user_id = 1\<rparr>, g, c')"
    "net c' = [(0, Delivered)]" "cb_state (redis_breaker c') = StateClosed"
proof -
  let ?used = "[(usedRefreshKey demo_token, uuid_String rfc_uuid 1, reuse_tombstone_ttl)]"
  let ?live = "[(refreshKey demo_token, uuid_String rfc_uuid 1, 100)]"
  have db: "redeem_command demo_redis demo_token 0 ?live = (Inr [''OK'', uuid_String rfc_uuid 1], ?used)"
    "redeem_command demo_redis demo_token 0 ?used = (Inr [''REUSED'', uuid_String rfc_uuid 1], ?used)"
    "del_command demo_redis (userRefreshKey rfc_uuid 1 demo_token) 0 ?used = (Inr (), ?used)"
    by (simp_all add: redeem_command_def redeem_script_def demo_redis_def refreshKey_def usedRefreshKey_def
        reuse_tombstone_ttl_def del_command_def userRefreshKey_def userRefreshKeyPrefix_def)
  have id: "uuid_Parse rfc_uuid (uuid_String rfc_uuid 1) = Some 1" by (rule uuid_laws_String(1) [OF rfc_uuid_laws])
  have c0: "cb_state (redis_breaker (tokens demo_race)) = StateClosed" "redis_db (tokens demo_race) = ?live"
    "net (tokens demo_race) = [(0, Delivered), (0, Delivered), (0, Delivered), (0, Delivered)]"
    by (simp_all add: demo_race_def demo_conn_def new_circuit_breaker_def)
  have closed: "cb_state (record_success b) = StateClosed" for b by (simp add: record_success_def)
  have "\<exists>c. RedeemRefreshToken demo_T demo_token (g, tokens demo_race) = (Inr \<lparr>outcome = RedemptionOK, red_user_id = 1\<rparr>, g, c) \<and>
      cb_state (redis_breaker c) = StateClosed \<and> net c = [(0, Delivered), (0, Delivered)] \<and> redis_db c = ?used"
    by (simp add: jwt_token_service_def jwt_redeem_refresh_token_def resilient_round_trip c0 db closed parseRedeemUserID_def id)
  then obtain c where c: "RedeemRefreshToken demo_T demo_token (g, tokens demo_race) = (Inr \<lparr>outcome = RedemptionOK, red_user_id = 1\<rparr>, g, c)"
    "cb_state (redis_breaker c) = StateClosed" "net c = [(0, Delivered), (0, Delivered)]" "redis_db c = ?used" by blast
  have "\<exists>c'. RedeemRefreshToken demo_T demo_token (g, c) = (Inr \<lparr>outcome = RedemptionReused, red_user_id = 1\<rparr>, g, c') \<and>
      cb_state (redis_breaker c') = StateClosed \<and> net c' = [(0, Delivered)]"
    by (simp add: jwt_token_service_def jwt_redeem_refresh_token_def resilient_round_trip c(2-4) db closed parseRedeemUserID_def id)
  then show thesis using that c(1) by blast
qed

text \<open>Both requests redeem; then the first goes on to its end.\<close>

lemma demo_race_steps:
  obtains p1 q1 w1 w2 p3 w3 p4 w4 r w5 where
    "proc_step (serve_proc (\<lambda>r. r) demo_P demo_H demo_T demo_A demo_request) demo_race = (p1, w1)"
    "proc_step (serve_proc (\<lambda>r. r) demo_P demo_H demo_T demo_A demo_request) w1 = (Act q1, w2)"
    "proc_step p1 w2 = (p3, w3)" "proc_step p3 w3 = (p4, w4)" "proc_step p4 w4 = (Ret r, w5)"
    "answers_tokens r" "distinct_draws (sources w5)"
proof -
  obtain c c' where c: "RedeemRefreshToken demo_T demo_token (demo_gen\<lparr>uuid_pos := 100\<rparr>, tokens demo_race) =
      (Inr \<lparr>outcome = RedemptionOK, red_user_id = 1\<rparr>, demo_gen\<lparr>uuid_pos := 100\<rparr>, c)"
    "RedeemRefreshToken demo_T demo_token (demo_gen\<lparr>uuid_pos := 100\<rparr>, c) =
      (Inr \<lparr>outcome = RedemptionReused, red_user_id = 1\<rparr>, demo_gen\<lparr>uuid_pos := 100\<rparr>, c')"
    "net c' = [(0, Delivered)]" "cb_state (redis_breaker c') = StateClosed" by (rule demo_redeem)
  obtain q c2 where q: "GeneratePair demo_T 1 RoleOwner (demo_gen\<lparr>uuid_pos := 100\<rparr>, c') =
      (Inr q, demo_gen\<lparr>uuid_pos := 100\<rparr>\<lparr>clock_pos := Suc (clock_pos demo_gen), uuid_pos := Suc 100\<rparr>, c2)"
    by (rule demo_pair [OF c(4,3), of 1 RoleOwner "demo_gen\<lparr>uuid_pos := 100\<rparr>"]) simp
  have n: "new_email (\<lambda>r. r) ''bob@e.com'' = Inr (Email ''bob@e.com'')"
    using demo_email_canonical by (simp add: canonical_email_def)
  have d: "distinct_draws (demo_gen\<lparr>uuid_pos := 102, clock_pos := i\<rparr>)" for i
    by (rule demo_draws) (simp_all add: demo_gen_def)
  define w1 where "w1 = demo_race\<lparr>tokens := c\<rparr>"
  define w2 where "w2 = demo_race\<lparr>tokens := c'\<rparr>"
  let ?p = "serve_proc (\<lambda>r. r) demo_P demo_H demo_T demo_A demo_request"
  let ?r = "\<lambda>out. map_proc Auth (redeemed_proc demo_P demo_T demo_A (Inr \<lparr>outcome = out, red_user_id = 1\<rparr>))"
  have src: "sources demo_race = demo_gen\<lparr>uuid_pos := 100\<rparr>" by (simp add: demo_race_def demo_pg_def)
  have 1: "proc_step ?p demo_race = (?r RedemptionOK, w1)" "proc_step ?p w1 = (?r RedemptionReused, w2)"
    by (simp_all add: refresh_proc_def proc_step_call on_tokens_def src c w1_def w2_def)
  obtain q1 where 2: "?r RedemptionReused = Act q1" by (simp add: redeemed_proc_def call_def)
  define a where "a = user_of_row (row_of_user demo_pg_lib (demo_user 1 ''bob@e.com'' RoleOwner 0))"
  define w3 where "w3 = w2\<lparr>objects := [a], repo := (repo w2)\<lparr>pg_net := [Delivered, Delivered]\<rparr>\<rparr>"
  let ?i = "map_proc Auth (issue_proc demo_T demo_A AuditEventTokenRefreshed (\<lambda>role. ''refresh token rotated'')
     (\<lambda>e. ErrInvalidCredentials) (\<lambda>u. 1) 0)"
  have a: "usr_role a = RoleOwner" "user_at 0 w3 = a" by (simp_all add: a_def w3_def user_at_def demo_user_def)
  have 3: "proc_step (?r RedemptionOK) w2 = (?i, w3)"
    by (simp add: redeemed_proc_def proc_step_call on_repo_def postgres_repository_def pg_find_by_id_def pg_exec_def
        sql_select_def scan_row_def scanUser_def n alloc_def w3_def w2_def a_def demo_race_def demo_pg_def demo_user_def
        user_key_def user_at_def user_of_row_def reconstitute_def row_of_user_def issue_proc_def)
  define w4 where "w4 = w3\<lparr>sources := demo_gen\<lparr>uuid_pos := 101, clock_pos := Suc (clock_pos demo_gen)\<rparr>, tokens := c2\<rparr>"
  have w3: "sources w3 = demo_gen\<lparr>uuid_pos := 100\<rparr>" "tokens w3 = c'" by (simp_all add: w3_def w2_def src)
  have "\<exists>p4. proc_step ?i w3 = (p4, w4) \<and> (\<exists>r w5. proc_step p4 w4 = (Ret r, w5) \<and> answers_tokens r \<and> distinct_draws (sources w5))"
    using d by (simp add: issue_proc_def proc_step_call on_tokens_def w3 a q w4_def Let_def answers_tokens_def
        record_audit_def on_gen_def new_audit_event_def uuid_new_def time_now_def)
  then obtain p4 r w5 where "proc_step ?i w3 = (p4, w4)" "proc_step p4 w4 = (Ret r, w5)" "answers_tokens r"
      "distinct_draws (sources w5)" by blast
  with 1 2 3 show thesis using that by metis
qed

lemma demo_race_run:
  obtains s where "demo_step (demo_race, []) s" "distinct_draws (sources (fst s))"
    "length (snd s) = 2" "\<forall>th \<in> set (snd s). refreshes demo_token (th_request th) \<and> th_begun th"
    "length (filter (exchanged demo_token) (snd s)) = 1"
proof -
  let ?p = "serve_proc (\<lambda>r. r) demo_P demo_H demo_T demo_A demo_request"
  let ?th = "\<lambda>b p. \<lparr>th_request = demo_request, th_begun = b, th_rest = p\<rparr>"
  let ?S = "\<lambda>s s'. conc_step (\<lambda>r. r) demo_P demo_H demo_T demo_A (jwt_env demo_redis) s s'"
  obtain p1 q1 w1 w2 p3 w3 p4 w4 r w5 where st: "proc_step ?p demo_race = (p1, w1)" "proc_step ?p w1 = (Act q1, w2)"
    "proc_step p1 w2 = (p3, w3)" "proc_step p3 w3 = (p4, w4)" "proc_step p4 w4 = (Ret r, w5)"
    and r: "answers_tokens r" and d: "distinct_draws (sources w5)" by (rule demo_race_steps)
  have arrive: "?S (demo_race, ts) (demo_race, ts @ [?th False ?p])" for ts
    using conc_step.arrive [of _ _ _ _ _ _ "(demo_race, ts)" demo_request] by (simp add: accept_def)
  have move: "?S (w, ts) (w', ts[i := (ts ! i)\<lparr>th_begun := True, th_rest := p\<rparr>])"
    if "i < length ts" "proc_step (th_rest (ts ! i)) w = (p, w')" for i ts w w' p
    using conc_step.move [of _ _ _ _ _ _ "(w, ts)" i] advance_nth [OF that] by simp
  let ?s = "(w5, [?th True (Ret r), ?th True (Act q1)])"
  have 1: "?S (demo_race, []) (demo_race, [?th False ?p])" using arrive [of "[]"] by simp
  have 2: "?S (demo_race, [?th False ?p]) (demo_race, [?th False ?p, ?th False ?p])"
    using arrive [of "[?th False ?p]"] by simp
  have 3: "?S (demo_race, [?th False ?p, ?th False ?p]) (w1, [?th True p1, ?th False ?p])"
    using move [of 0 "[?th False ?p, ?th False ?p]" demo_race] st(1) by (simp del: serve_proc.simps)
  have 4: "?S (w1, [?th True p1, ?th False ?p]) (w2, [?th True p1, ?th True (Act q1)])"
    using move [of 1 "[?th True p1, ?th False ?p]" w1] st(2) by (simp del: serve_proc.simps)
  have 5: "?S (w2, [?th True p1, ?th True (Act q1)]) (w3, [?th True p3, ?th True (Act q1)])"
    using move [of 0 "[?th True p1, ?th True (Act q1)]" w2] st(3) by simp
  have 6: "?S (w3, [?th True p3, ?th True (Act q1)]) (w4, [?th True p4, ?th True (Act q1)])"
    using move [of 0 "[?th True p3, ?th True (Act q1)]" w3] st(4) by simp
  have 7: "?S (w4, [?th True p4, ?th True (Act q1)]) ?s"
    using move [of 0 "[?th True p4, ?th True (Act q1)]" w4] st(5) by simp
  note step = converse_rtranclp_into_rtranclp [where r = ?S]
  have "demo_step (demo_race, []) ?s"
    by (rule step [OF 1], rule step [OF 2], rule step [OF 3], rule step [OF 4], rule step [OF 5], rule step [OF 6],
        rule step [OF 7], rule rtranclp.rtrancl_refl)
  moreover have "length (filter (exchanged demo_token) (snd ?s)) = 1" using r by (simp add: exchanged_def refreshes_def)
  ultimately show thesis using that [of ?s] d by (simp add: refreshes_def)
qed

text \<open>The invariant of goroutines, read off the table of users.\<close>

lemma owner_row_kept:
  assumes "conc_moves (pg_inv lo) pg_view (jwt_inv U L) (jwt_spent U L) w w'" "postgres_world U L lo w"
    "distinct_draws (sources w')" "r \<in> set (users_table (repo w))" "row_role r = ''owner''"
  shows "pg_constraints (users_table (repo w')) \<and>
    row_id ` set (users_table (repo w)) \<subseteq> row_id ` set (users_table (repo w')) \<and>
    (\<exists>r'. filter (\<lambda>r. row_role r = ''owner'') (users_table (repo w')) = [r'] \<and> row_id r' = row_id r)"
proof -
  have c: "pg_constraints (users_table (repo w))" "pg_constraints (users_table (repo w'))"
    using assms(2) conc_moves_inv [OF assms(1)] by (simp_all add: app_inv_def pg_inv_def)
  have "pg_view (objects w, repo w) (row_id r) = Some (user_of_row r)" using assms(4) by (auto simp: pg_view_Some [OF c(1)])
  moreover have "owner_kept (pg_view (objects w, repo w)) (pg_view (objects w', repo w'))"
    using assms(1,3) by (simp add: conc_moves_def)
  ultimately obtain u where "pg_view (objects w', repo w') (row_id r) = Some u" "usr_role u = RoleOwner"
    using assms(5) by (auto elim: owner_keptE)
  then obtain r' where r': "r' \<in> set (users_table (repo w'))" "row_id r' = row_id r" "row_role r' = ''owner''"
    by (auto simp: pg_view_Some [OF c(2)])
  then have "r' \<in> set (filter (\<lambda>r. row_role r = ''owner'') (users_table (repo w')))" by simp
  moreover have "length (filter (\<lambda>r. row_role r = ''owner'') (users_table (repo w'))) \<le> 1"
    using c(2) by (simp add: pg_constraints_def)
  ultimately have "filter (\<lambda>r. row_role r = ''owner'') (users_table (repo w')) = [r']"
    by (cases "filter (\<lambda>r. row_role r = ''owner'') (users_table (repo w'))") auto
  moreover have "row_id ` set (users_table (repo w)) \<subseteq> row_id ` set (users_table (repo w'))"
    using assms(1) by (simp add: conc_moves_def dom_pg_view)
  ultimately show ?thesis using c(2) r'(2) by blast
qed

subsection \<open>Properties\<close>

text \<open>
  A refresh token is exchanged at most once, whatever the interleaving. Requests arrive at any
  time and make their calls on Redis and PostgreSQL in any order, with arbitrary failures: among all
  requests that present one refresh token, at most one is answered with new tokens, as long as no
  UUID is drawn twice.
\<close>

theorem refresh_token_exchanged_once:
  fixes L :: "'db redis_lib" and w :: "(pg_state, 'db redis_conn, 'a) world"
  assumes "uuid_laws U" and "redis_laws L" and "argon2_laws lib" and "lower_laws lo"
    and "postgres_world U L lo w" and "distinct_draws (sources (fst s))"
    and "conc_run lo (postgres_repository P lo) (argon2_hasher lib) (jwt_token_service J U L svc) A (jwt_env L) (w, []) s"
  shows "length (filter (exchanged tok) (snd s)) \<le> 1"
  by (rule private_application.exchanged_at_most_once [OF pool_laws [OF assms(1-4)] assms(4,7,5,6)])

lemma refresh_token_exchanged_once_witness:
  "\<exists>s. demo_step (demo_race, []) s \<and> length (snd s) = 2 \<and>
     (\<forall>th \<in> set (snd s). refreshes demo_token (th_request th) \<and> th_begun th) \<and>
     length (filter (exchanged demo_token) (snd s)) = 1"
proof -
  obtain s where s: "demo_step (demo_race, []) s" "distinct_draws (sources (fst s))"
    "length (snd s) = 2" "\<forall>th \<in> set (snd s). refreshes demo_token (th_request th) \<and> th_begun th"
    "length (filter (exchanged demo_token) (snd s)) = 1" by (rule demo_race_run)
  from refresh_token_exchanged_once [OF rfc_uuid_laws demo_redis_laws demo_argon2_laws lower_laws_id demo_race_inv s(2,1), of demo_token]
  show ?thesis using s by (intro exI [of _ s]) simp
qed

text \<open>
  The constraints of the database and its owner survive concurrency. Whatever requests run
  concurrently, ids and emails stay unique, no account goes away, and the account that is the owner
  stays the owner and the only one: no interleaving of role changes, profile updates and
  registrations demotes it or makes a second one.
\<close>

theorem owner_stays_under_concurrency:
  fixes L :: "'db redis_lib" and w :: "(pg_state, 'db redis_conn, 'a) world"
  assumes "uuid_laws U" and "redis_laws L" and "argon2_laws lib" and "lower_laws lo"
    and "postgres_world U L lo w" and "distinct_draws (sources (fst s))"
    and "conc_run lo (postgres_repository P lo) (argon2_hasher lib) (jwt_token_service J U L svc) A (jwt_env L) (w, []) s"
    and "r \<in> set (users_table (repo w))" and "row_role r = ''owner''"
  shows "pg_constraints (users_table (repo (fst s))) \<and>
    row_id ` set (users_table (repo w)) \<subseteq> row_id ` set (users_table (repo (fst s))) \<and>
    (\<exists>r'. filter (\<lambda>r. row_role r = ''owner'') (users_table (repo (fst s))) = [r'] \<and> row_id r' = row_id r)"
proof -
  note app = pool_laws [OF assms(1-4)]
  have "conc_moves (pg_inv lo) pg_view (jwt_inv U L) (jwt_spent U L) w (fst s)"
    using private_application.conc_run_ok [OF app assms(4,7)] private_application.empty_pool_ok [OF app assms(5)] by simp
  then show ?thesis by (rule owner_row_kept [OF _ assms(5,6,8,9)])
qed

lemma owner_stays_under_concurrency_witness:
  "\<exists>s r'. demo_step (demo_race, []) s \<and> length (snd s) = 2 \<and>
     filter (\<lambda>r. row_role r = ''owner'') (users_table (repo (fst s))) = [r'] \<and> row_id r' = 1"
proof -
  obtain s where s: "demo_step (demo_race, []) s" "distinct_draws (sources (fst s))" "length (snd s) = 2" by (rule demo_race_run)
  let ?r = "row_of_user demo_pg_lib (demo_user 1 ''bob@e.com'' RoleOwner 0)"
  have r: "?r \<in> set (users_table (repo demo_race))" "row_role ?r = ''owner''" "row_id ?r = 1"
    by (simp_all add: demo_race_def demo_pg_def demo_user_def user_key_def)
  from owner_stays_under_concurrency [OF rfc_uuid_laws demo_redis_laws demo_argon2_laws lower_laws_id demo_race_inv s(2,1) r(1,2)]
  show ?thesis using s(1,3) r(3) by (intro exI [of _ s]) auto
qed

end
