(* ===== verification/LostUpdates.thy ===== *)
theory LostUpdates
  imports ConcurrentAccounts
begin

section \<open>Lost updates\<close>

text \<open>
  \<^verbatim>\<open>UpdateProfile\<close>, \<^verbatim>\<open>ChangePassword\<close> and \<^verbatim>\<open>ChangeUserRole\<close> read a user, change the object and write
  the whole row back (\<^verbatim>\<open>ON CONFLICT (id) DO UPDATE\<close> sets every column), outside any transaction and
  without a version check. What another request wrote in between is overwritten.
\<close>

context private_application
begin

lemma finish_guar:
  assumes "conc_guards rinv view tinv spent rq post V w p" "app_inv rinv view tinv w" "finish p w = (x, w')"
  shows "conc_moves rinv view tinv spent w w' \<and> (\<forall>a < length (objects w). a \<notin> V \<longrightarrow> user_at a w' = user_at a w)"
  using assms
proof (induction arbitrary: x w' rule: guards.induct)
  case (Ret y V w)
  then show ?case using conc_moves_refl by simp
next
  case (Act V w f)
  obtain p w1 where f: "f w = (p, w1)" by fastforce
  let ?W = "V \<union> {length (objects w)..<length (objects w1)}"
  have g: "conc_guar rinv view tinv spent rq V w w1" using Act.IH [OF conc.rely_refl [OF Act.prems(1)] f] by blast
  have "finish p w1 = (x, w')" using Act.prems(2) f by simp
  then have g': "conc_moves rinv view tinv spent w1 w' \<and> (\<forall>a < length (objects w1). a \<notin> ?W \<longrightarrow> user_at a w' = user_at a w1)"
    using Act.IH [OF conc.rely_refl [OF Act.prems(1)] f] guar_inv [OF g] by blast
  have "conc_moves rinv view tinv spent w w1" using g by (simp add: conc_guar_def)
  then have "conc_moves rinv view tinv spent w w'" "length (objects w) \<le> length (objects w1)"
    using g' conc_moves_trans by (blast, simp add: conc_moves_def)
  then show ?case using g g' by (simp add: conc_guar_def)
qed

lemma serve_frame:
  assumes "lower_laws lo" "app_inv rinv view tinv w" "serve lo R H T A rq w = (rs, w')" "a < length (objects w)"
  shows "app_inv rinv view tinv w' \<and> a < length (objects w') \<and> user_at a w' = user_at a w"
proof -
  have "conc_moves rinv view tinv spent w w' \<and> (\<forall>a < length (objects w). a \<notin> {} \<longrightarrow> user_at a w' = user_at a w)"
    by (rule finish_guar [OF serve_guards [OF assms(1)] assms(2)]) (use assms(3) in \<open>simp add: serve_finish\<close>)
  then show ?thesis using assms(4) by (auto simp: conc_moves_inv) (simp add: conc_moves_def)
qed

lemma profile_write_back:
  assumes "lower_laws lo" "app_inv rinv view tinv w"
    "proc_step (serve_proc lo R H T A (UpdateProfile i name)) w = (p, w1)"
    "serve lo R H T A rq w1 = (rs, w2)" "finish p w2 = (Profile (Inr out), w3)"
  shows "\<exists>u v. stored view w i = Some u \<and> stored view w3 i = Some v \<and> usr_name v = trim_space name \<and>
    usr_password_hash v = usr_password_hash u \<and> usr_role v = usr_role u \<and> usr_is_active v = usr_is_active u"
proof -
  obtain x where f: "on_repo (FindByID R i) w = (x, w1)"
    and p: "p = map_proc Profile (case_sum (\<lambda>e. Ret (Inl e)) (\<lambda>a. call (\<lambda>w. try_do (on_gen (update_name name (user_at a w)) w) (\<lambda>u w.
      try_do (on_repo (Save R a) (set_user a u w)) (\<lambda>_ w. (Inr (user_output_of (user_at a w)), w)))) Ret) x)"
    using assms(3) by (auto simp: update_profile_proc_def try_call_def proc_step_call split: prod.splits)
  note s1 = find_by_id_step [OF assms(2) f]
  obtain a where x: "x = Inr a" using assms(5) p by (cases x) auto
  let ?u = "user_at a w1"
  have a: "a < length (objects w1)" "stored view w i = Some ?u" "user_key ?u = i" "canonical_email lo (usr_email ?u)"
    using s1 x by auto
  note fr = serve_frame [OF assms(1) evolves_inv [OF conjunct1 [OF s1]] assms(4) a(1)]
  obtain y w2' where n: "on_gen (update_name name (user_at a w2)) w2 = (y, w2')" by fastforce
  obtain u where y: "y = Inr u" using assms(5) p x n by (cases y) (auto simp: finish_map tag_def)
  have u: "u = ?u\<lparr>usr_name := trim_space name, usr_updated_at := usr_updated_at u\<rparr>"
    using n y fr by (auto simp: on_gen_eq update_name_Inr)
  have s2: "evolves rinv view tinv spent w2 w2' \<and> objects w2' = objects w2"
    using on_gen_step [OF conjunct1 [OF fr] n] gen_later_update_name by blast
  obtain z w3' where sv: "on_repo (Save R a) (set_user a u w2') = (z, w3')" by fastforce
  have z: "\<not> is_err z" "w3' = w3" using assms(5) p x n y sv by (cases z; auto simp: finish_map tag_def)+
  have ids: "usr_id u = usr_id ?u" "usr_email u = usr_email ?u" by (subst u, simp)+
  have same: "user_at a w2' = ?u" "a < length (objects w2')" using s2 fr by (auto simp: user_at_def)
  have "written (stored view w2') u (stored view w3)"
    using save_step [OF evolves_inv [OF conjunct1 [OF s2]] same(2) _ _ sv] ids a(4) same(1) z by auto
  moreover have "user_key u = i" using ids(1) a(3) by (simp add: user_key_def)
  ultimately obtain v where "stored view w3 i = Some v" "content v = content u" by (auto elim: written_self)
  moreover have "usr_name u = trim_space name" "usr_password_hash u = usr_password_hash ?u" "usr_role u = usr_role ?u"
      "usr_is_active u = usr_is_active ?u" by (subst u, simp)+
  ultimately show ?thesis using a(2) by (simp add: content_eq)
qed

end

subsection \<open>A promotion undone by a profile update\<close>

text \<open>
  Amy, \<open>2\<close>, changes her name while the owner makes her an administrator. Her request has read her row
  when the promotion runs; then it writes.
\<close>

definition demo_busy :: demo_pg_world where
  "demo_busy = (demo_pg demo_pair_of_users)\<lparr>repo :=
     (repo (demo_pg demo_pair_of_users))\<lparr>pg_net := replicate 5 Delivered\<rparr>\<rparr>"

lemma demo_busy_inv: "postgres_world rfc_uuid demo_redis (\<lambda>r. r) demo_busy"
proof -
  let ?d = "demo_pg demo_pair_of_users"
  have "pg_inv lo (objects ?d, repo demo_busy) = pg_inv lo (objects ?d, repo ?d)"
    "pg_view (objects ?d, repo demo_busy) = pg_view (objects ?d, repo ?d)" for lo
    by (rule pg_inv_cong, simp add: demo_busy_def)+
  moreover have "objects demo_busy = objects ?d" "sources demo_busy = sources ?d" "tokens demo_busy = tokens ?d"
    by (simp_all add: demo_busy_def)
  ultimately show ?thesis using demo_two_pg by (simp add: app_inv_def)
qed

lemma demo_promotion:
  obtains p w1 out w2 out' w3 where
    "proc_step (serve_proc (\<lambda>r. r) demo_P demo_H demo_T demo_A (UpdateProfile 2 ''Amy'')) demo_busy = (p, w1)"
    "serve (\<lambda>r. r) demo_P demo_H demo_T demo_A (ChangeRole 1 2 RoleAdmin) w1 = (Profile (Inr out), w2)"
    "finish p w2 = (Profile (Inr out'), w3)" "out_role out = RoleAdmin"
    "map_option usr_role (pg_view (objects demo_busy, repo demo_busy) 2) = Some RoleUser"
proof -
  have n: "new_email (\<lambda>r. r) ''bob@e.com'' = Inr (Email ''bob@e.com'')" "new_email (\<lambda>r. r) ''amy@e.com'' = Inr (Email ''amy@e.com'')"
    using demo_email_canonical demo_email_amy by (simp_all add: canonical_email_def)
  have nm: "validate_name ''Amy'' = Inr ()" "trim_space ''Amy'' = ''Amy''"
    by (simp_all add: validate_name_def Let_def go_string_eval)
  note step = proc_step_call on_repo_def postgres_repository_def pg_find_by_id_def pg_exec_def sql_select_def scan_row_def
    scanUser_def n row_of_user_def alloc_def reconstitute_def user_at_def on_gen_def time_now_def set_user_def pg_save_def
    exec_result_def sql_upsert_def row_text_ok_def demo_pg_lib_def conflicts_def
  note start = demo_busy_def demo_pg_def demo_pair_of_users_def demo_user_def user_key_def demo_gen_def
  let ?p = "serve_proc (\<lambda>r. r) demo_P demo_H demo_T demo_A (UpdateProfile 2 ''Amy'')"
  have "\<exists>p w1 out w2 out' w3. proc_step ?p demo_busy = (p, w1) \<and>
      serve (\<lambda>r. r) demo_P demo_H demo_T demo_A (ChangeRole 1 2 RoleAdmin) w1 = (Profile (Inr out), w2) \<and>
      finish p w2 = (Profile (Inr out'), w3) \<and> out_role out = RoleAdmin"
    by (simp add: update_profile_proc_def try_call_def tag_def finish_map change_role_execute_def change_role_def
        update_name_def nm step start Let_def user_output_of_def numeral_eq_Suc)
  moreover have "map_option usr_role (pg_view (objects demo_busy, repo demo_busy) 2) = Some RoleUser"
    by (simp add: pg_view_def start row_of_user_def)
  ultimately show thesis using that by blast
qed

subsection \<open>Properties\<close>

text \<open>
  \<^bold>\<open>C32\<close> A profile update writes back what it read. Let \<^verbatim>\<open>UpdateProfile\<close> read an account, any other
  request be served completely, and the profile update then succeed: whatever that request did, the
  account again has the password hash, the role and the active flag it had when it was read. A password
  change or a role change that was answered with success in between is lost, and the old password is
  valid again.
\<close>

theorem profile_update_undoes_other_writes:
  fixes L :: "'db redis_lib" and w :: "(pg_state, 'db redis_conn, 'a) world"
  assumes "uuid_laws U" and "redis_laws L" and "argon2_laws lib" and "lower_laws lo"
    and "postgres_world U L lo w"
    and "proc_step (serve_proc lo (postgres_repository P lo) (argon2_hasher lib) (jwt_token_service J U L svc) A
           (UpdateProfile i name)) w = (p, w1)"
    and "serve lo (postgres_repository P lo) (argon2_hasher lib) (jwt_token_service J U L svc) A rq w1 = (rs, w2)"
    and "finish p w2 = (Profile (Inr out), w3)"
  shows "\<exists>u v. pg_view (objects w, repo w) i = Some u \<and> pg_view (objects w3, repo w3) i = Some v \<and>
    usr_name v = trim_space name \<and> usr_password_hash v = usr_password_hash u \<and>
    usr_role v = usr_role u \<and> usr_is_active v = usr_is_active u"
  by (rule private_application.profile_write_back [OF pool_laws [OF assms(1-4)] assms(4-8)])

lemma profile_update_undoes_other_writes_witness:
  "\<exists>p w1 out w2 out' w3. proc_step (serve_proc (\<lambda>r. r) demo_P demo_H demo_T demo_A (UpdateProfile 2 ''Amy'')) demo_busy = (p, w1) \<and>
     serve (\<lambda>r. r) demo_P demo_H demo_T demo_A (ChangeRole 1 2 RoleAdmin) w1 = (Profile (Inr out), w2) \<and>
     out_role out = RoleAdmin \<and> finish p w2 = (Profile (Inr out'), w3) \<and>
     map_option usr_role (pg_view (objects w3, repo w3) 2) = Some RoleUser"
proof -
  obtain p w1 out w2 out' w3 where d:
    "proc_step (serve_proc (\<lambda>r. r) demo_P demo_H demo_T demo_A (UpdateProfile 2 ''Amy'')) demo_busy = (p, w1)"
    "serve (\<lambda>r. r) demo_P demo_H demo_T demo_A (ChangeRole 1 2 RoleAdmin) w1 = (Profile (Inr out), w2)"
    "finish p w2 = (Profile (Inr out'), w3)" "out_role out = RoleAdmin"
    "map_option usr_role (pg_view (objects demo_busy, repo demo_busy) 2) = Some RoleUser" by (rule demo_promotion)
  from profile_update_undoes_other_writes [OF rfc_uuid_laws demo_redis_laws demo_argon2_laws lower_laws_id demo_busy_inv d(1-3)]
  show ?thesis using d by (intro exI) auto
qed

end
