(* ===== verification/RevocationRace.thy ===== *)
theory RevocationRace
  imports ConcurrentAccounts
begin

section \<open>A revocation and an exchange in flight\<close>

text \<open>
  \<^verbatim>\<open>RefreshToken\<close> redeems the old token and stores the new one in separate commands. A revocation of all
  sessions that runs in between finds neither: the old token is gone and the new one is not there yet.
\<close>

lemma resilient_value:
  assumes "resilient policy operation (g, c) = (Inr v, g', c')"
  shows "\<exists>c1 c2. operation c1 = (Inr v, c2) \<and> redis_db c' = redis_db c2"
proof -
  let ?op = "\<lambda>(g, c). case operation c of (r, c) \<Rightarrow> (r, g :: gen, c)"
  obtain al b g1 where a: "allow_request (redis_breaker c) g = (al, b, g1)" by (metis prod_cases3)
  obtain x g2 c2 where rt: "retry_with_backoff ctx_wait policy isRedisRetryable ?op 0 (g1, c) = (x, g2, c2)"
    by (metis prod_cases3)
  have "x = Inr v" "redis_db c' = redis_db c2"
    using assms a rt by (auto simp: resilient_def call_with_resilience_def split: sum.splits if_splits prod.splits)
  moreover have "\<forall>v. x = Inr v \<longrightarrow> (\<exists>s1. True \<and> ?op s1 = (Inr v, (g2, c2)))"
    using retry_rel [where P = "\<lambda>_ _. True", OF _ _ _ _ rt] by simp
  ultimately show ?thesis by (fastforce split: prod.splits)
qed

lemma generated_alive:
  assumes "redis_laws L" "10 ^ 6 \<le> refreshTTL svc" "10 ^ 6 dvd refreshTTL svc"
    "jwt_generate_pair J U L svc uid r (g, c) = (Inr pair, g', c')"
  shows "\<exists>t. redis_get L t (refreshKey (RefreshToken pair)) (redis_db c') = Some (uuid_String U uid)"
proof -
  obtain g1 g2 where run: "resilient (retryPolicy svc) (round_trip (store_refresh U L uid (RefreshToken pair) (refreshTTL svc))) (g1, c) =
      (Inr (), g2, c')"
    using assms(4) by (auto simp: jwt_generate_pair_def Let_def time_now_def split: sum.splits prod.splits)
  obtain c1 c2 where o: "round_trip (store_refresh U L uid (RefreshToken pair) (refreshTTL svc)) c1 = (Inr (), c2)"
    "redis_db c' = redis_db c2" using resilient_value [OF run] by blast
  obtain t where "redis_db c2 = redis_set L t (userRefreshKey U uid (RefreshToken pair)) (RefreshToken pair) (refreshTTL svc)
      (redis_set L t (refreshKey (RefreshToken pair)) (uuid_String U uid) (refreshTTL svc) (redis_db c1))"
    using o(1) by (auto simp: round_trip_def store_refresh_def Let_def split: list.splits prod.splits fate.splits)
  moreover have "refreshKey (RefreshToken pair) \<noteq> userRefreshKey U uid (RefreshToken pair)" by simp
  moreover have "0 < refreshTTL svc" using assms(2) by simp
  ultimately show ?thesis
    using redis_get_set [OF assms(1-3), of t t] redis_get_set_other [OF assms(1)] o(2) by (intro exI [of _ t]) auto
qed

lemma issue_answers:
  assumes "finish (issue_proc T A ty d wrap key a) w = (Inr out, w')"
  shows "\<exists>pair g t. GeneratePair T (key (user_at a w)) (usr_role (user_at a w)) (sources w, tokens w) = (Inr pair, g, t) \<and>
    auth_refresh_token out = RefreshToken pair \<and> tokens w' = t"
  using assms
  by (auto simp: issue_proc_finish on_tokens_def Let_def auth_output_of_def split: sum.splits prod.splits)

lemma redeemed_answers:
  assumes "finish (redeemed_proc R T A x) w = (Inr out, w')"
  shows "\<exists>res r g c pair t. x = Inr res \<and> outcome res = RedemptionOK \<and>
    GeneratePair T (red_user_id res) r (g, c) = (Inr pair, t) \<and> auth_refresh_token out = RefreshToken pair \<and> tokens w' = snd t"
proof -
  obtain res where x: "x = Inr res" "outcome res = RedemptionOK"
    using assms by (auto simp: redeemed_proc_def split: sum.splits redemption_outcome.splits prod.splits)
  then show ?thesis
    using assms by (auto simp: redeemed_proc_def split: sum.splits prod.splits if_splits dest!: issue_answers) (metis snd_conv)+
qed

lemma exchange_in_flight:
  assumes "redis_laws L" "10 ^ 6 \<le> refreshTTL svc" "10 ^ 6 dvd refreshTTL svc"
    "proc_step (serve_proc lo R H (jwt_token_service J U L svc) A (Refresh inp)) w = (p, w1)"
    "finish p w2 = (Auth (Inr out), w3)"
  shows "\<exists>uid t. fst (jwt_redeem_refresh_token U L svc (in_refresh_token inp) (sources w, tokens w)) =
      Inr \<lparr>outcome = RedemptionOK, red_user_id = uid\<rparr> \<and>
    redis_get L t (refreshKey (auth_refresh_token out)) (redis_db (tokens w3)) = Some (uuid_String U uid)"
proof -
  let ?T = "jwt_token_service J U L svc"
  obtain x where x: "on_tokens (RedeemRefreshToken ?T (in_refresh_token inp)) w = (x, w1)"
    "p = map_proc Auth (redeemed_proc R ?T A x)"
    using assms(4) by (auto simp: refresh_proc_def proc_step_call split: prod.splits)
  have "finish (redeemed_proc R ?T A x) w2 = (Inr out, w3)"
    using assms(5) x(2) by (auto simp: finish_map tag_def prod_eq_iff)
  from redeemed_answers [OF this] obtain res r g c pair g' c' where res: "x = Inr res" "outcome res = RedemptionOK"
    and pair: "jwt_generate_pair J U L svc (red_user_id res) r (g, c) = (Inr pair, g', c')"
    "auth_refresh_token out = RefreshToken pair" "tokens w3 = c'"
    by (auto simp: jwt_token_service_def)
  have "fst (jwt_redeem_refresh_token U L svc (in_refresh_token inp) (sources w, tokens w)) = Inr res"
    using x(1) res(1) by (auto simp: on_tokens_eq jwt_token_service_def)
  moreover have "res = \<lparr>outcome = RedemptionOK, red_user_id = red_user_id res\<rparr>" using res(2) by simp
  ultimately show ?thesis using generated_alive [OF assms(1-3) pair(1)] pair(2,3) by metis
qed

subsection \<open>A replay detected while the token is exchanged\<close>

definition demo_theft :: demo_pg_world where
  "demo_theft = demo_race\<lparr>tokens :=
     demo_conn (replicate 5 (0, Delivered)) [(refreshKey demo_token, uuid_String rfc_uuid 1, 100)]\<rparr>"

lemma demo_theft_tokens:
  obtains c c' c'' where
    "RedeemRefreshToken demo_T demo_token (g, tokens demo_theft) = (Inr \<lparr>outcome = RedemptionOK, red_user_id = 1\<rparr>, g, c)"
    "RedeemRefreshToken demo_T demo_token (g, c) = (Inr \<lparr>outcome = RedemptionReused, red_user_id = 1\<rparr>, g, c')"
    "RevokeAllRefreshTokens demo_T 1 (g, c') = (Inr (), g, c'')"
    "net c'' = [(0, Delivered)]" "cb_state (redis_breaker c'') = StateClosed"
proof -
  let ?used = "[(usedRefreshKey demo_token, uuid_String rfc_uuid 1, reuse_tombstone_ttl)]"
  let ?live = "[(refreshKey demo_token, uuid_String rfc_uuid 1, 100)]"
  have db: "redeem_command demo_redis demo_token 0 ?live = (Inr [''OK'', uuid_String rfc_uuid 1], ?used)"
    "redeem_command demo_redis demo_token 0 ?used = (Inr [''REUSED'', uuid_String rfc_uuid 1], ?used)"
    "del_command demo_redis (userRefreshKey rfc_uuid 1 demo_token) 0 ?used = (Inr (), ?used)"
    by (simp_all add: redeem_command_def redeem_script_def demo_redis_def refreshKey_def usedRefreshKey_def
        reuse_tombstone_ttl_def del_command_def userRefreshKey_def userRefreshKeyPrefix_def)
  have id: "uuid_Parse rfc_uuid (uuid_String rfc_uuid 1) = Some 1" by (rule uuid_laws_String(1) [OF rfc_uuid_laws])
  have c0: "cb_state (redis_breaker (tokens demo_theft)) = StateClosed" "redis_db (tokens demo_theft) = ?live"
    "net (tokens demo_theft) = (0, Delivered) # (0, Delivered) # replicate 3 (0, Delivered)"
    by (simp_all add: demo_theft_def demo_conn_def new_circuit_breaker_def numeral_eq_Suc)
  have closed: "cb_state (record_success b) = StateClosed" for b by (simp add: record_success_def)
  have "\<exists>c. RedeemRefreshToken demo_T demo_token (g, tokens demo_theft) = (Inr \<lparr>outcome = RedemptionOK, red_user_id = 1\<rparr>, g, c) \<and>
      cb_state (redis_breaker c) = StateClosed \<and> net c = replicate 3 (0, Delivered) \<and> redis_db c = ?used"
    by (simp add: jwt_token_service_def jwt_redeem_refresh_token_def resilient_round_trip c0 db closed parseRedeemUserID_def id)
  then obtain c where c: "RedeemRefreshToken demo_T demo_token (g, tokens demo_theft) = (Inr \<lparr>outcome = RedemptionOK, red_user_id = 1\<rparr>, g, c)"
    "cb_state (redis_breaker c) = StateClosed" "net c = (0, Delivered) # replicate 2 (0, Delivered)" "redis_db c = ?used"
    by (auto simp: numeral_eq_Suc)
  have "\<exists>c'. RedeemRefreshToken demo_T demo_token (g, c) = (Inr \<lparr>outcome = RedemptionReused, red_user_id = 1\<rparr>, g, c') \<and>
      cb_state (redis_breaker c') = StateClosed \<and> net c' = replicate 2 (0, Delivered) \<and> redis_db c' = ?used"
    by (simp add: jwt_token_service_def jwt_redeem_refresh_token_def resilient_round_trip c(2-4) db closed parseRedeemUserID_def id)
  then obtain c' where c': "RedeemRefreshToken demo_T demo_token (g, c) = (Inr \<lparr>outcome = RedemptionReused, red_user_id = 1\<rparr>, g, c')"
    "cb_state (redis_breaker c') = StateClosed" "net c' = [(0, Delivered), (0, Delivered)]" "redis_db c' = ?used"
    by (auto simp: numeral_eq_Suc)
  have "round_trip (scan_command demo_redis 0 (userRefreshKeyPrefix rfc_uuid 1 @ ''*'') 100) c' = (Inr ([], 0), c'\<lparr>net := [(0, Delivered)]\<rparr>)"
    using c'(3,4) by (simp add: round_trip_def scan_command_def demo_redis_def butlast_append userRefreshKeyPrefix_def usedRefreshKey_def)
  then have scan: "revoke_scan demo_redis (userRefreshKeyPrefix rfc_uuid 1) 0 c' = (Inr (), c'\<lparr>net := [(0, Delivered)]\<rparr>)"
    by (subst revoke_scan.simps) simp
  have "\<exists>c''. RevokeAllRefreshTokens demo_T 1 (g, c') = (Inr (), g, c'') \<and> net c'' = [(0, Delivered)] \<and>
      cb_state (redis_breaker c'') = StateClosed"
    using resilient_delivered [where operation = "revoke_scan demo_redis (userRefreshKeyPrefix rfc_uuid 1) 0", OF c'(2) scan]
    by (simp add: jwt_token_service_def jwt_revoke_all_refresh_tokens_def closed)
  then show thesis using that c(1) c'(1) by blast
qed

lemma demo_theft_steps:
  obtains p w1 rs w2 out w3 where
    "proc_step (serve_proc (\<lambda>r. r) demo_P demo_H demo_T demo_A demo_request) demo_theft = (p, w1)"
    "serve (\<lambda>r. r) demo_P demo_H demo_T demo_A demo_request w1 = (rs, w2)"
    "fst (jwt_redeem_refresh_token rfc_uuid demo_redis demo_service demo_token (sources w1, tokens w1)) =
      Inr \<lparr>outcome = RedemptionReused, red_user_id = 1\<rparr>"
    "finish p w2 = (Auth (Inr out), w3)"
proof -
  let ?g = "demo_gen\<lparr>uuid_pos := 100\<rparr>"
  obtain c c' c'' where c: "RedeemRefreshToken demo_T demo_token (?g, tokens demo_theft) = (Inr \<lparr>outcome = RedemptionOK, red_user_id = 1\<rparr>, ?g, c)"
    "RedeemRefreshToken demo_T demo_token (?g, c) = (Inr \<lparr>outcome = RedemptionReused, red_user_id = 1\<rparr>, ?g, c')"
    "RevokeAllRefreshTokens demo_T 1 (?g, c') = (Inr (), ?g, c'')"
    "net c'' = [(0, Delivered)]" "cb_state (redis_breaker c'') = StateClosed" by (rule demo_theft_tokens)
  have src: "sources demo_theft = ?g" "objects demo_theft = []" "audit demo_theft = []"
    "repo demo_theft = \<lparr>users_table = [row_of_user demo_pg_lib (demo_user 1 ''bob@e.com'' RoleOwner 0)], pg_net = [Delivered, Delivered, Delivered]\<rparr>"
    by (simp_all add: demo_theft_def demo_race_def demo_pg_def)
  have n: "new_email (\<lambda>r. r) ''bob@e.com'' = Inr (Email ''bob@e.com'')"
    using demo_email_canonical by (simp add: canonical_email_def)
  let ?p = "serve_proc (\<lambda>r. r) demo_P demo_H demo_T demo_A demo_request"
  let ?r = "map_proc Auth (redeemed_proc demo_P demo_T demo_A (Inr \<lparr>outcome = RedemptionOK, red_user_id = 1\<rparr>))"
  define w1 where "w1 = demo_theft\<lparr>tokens := c\<rparr>"
  have 1: "proc_step ?p demo_theft = (?r, w1)"
    by (simp add: refresh_proc_def proc_step_call on_tokens_def src c w1_def)
  obtain w2 where 2: "serve (\<lambda>r. r) demo_P demo_H demo_T demo_A demo_request w1 = (Auth (Inl ErrInvalidCredentials), w2)"
    and w2: "tokens w2 = c''" "objects w2 = []" "repo w2 = repo demo_theft"
    by (simp add: tag_def refresh_execute_def on_tokens_def w1_def src c record_audit_def on_gen_def new_audit_event_def
        uuid_new_def time_now_def memory_audit_record_def Let_def)
  obtain q c3 where q: "GeneratePair demo_T 1 RoleOwner (sources w2, c'') =
      (Inr q, (sources w2)\<lparr>clock_pos := Suc (clock_pos (sources w2)), uuid_pos := Suc (uuid_pos (sources w2))\<rparr>, c3)"
    by (rule demo_pair [OF c(5,4), of 1 RoleOwner "sources w2"])
  have "\<exists>out w3. finish ?r w2 = (Auth (Inr out), w3)"
    by (simp add: finish_map tag_def redeemed_proc_def on_repo_def postgres_repository_def pg_find_by_id_def pg_exec_def
        sql_select_def scan_row_def scanUser_def n alloc_def w2 src demo_user_def user_key_def user_at_def reconstitute_def
        row_of_user_def issue_proc_finish on_tokens_def Let_def q)
  moreover have "fst (jwt_redeem_refresh_token rfc_uuid demo_redis demo_service demo_token (sources w1, tokens w1)) =
      Inr \<lparr>outcome = RedemptionReused, red_user_id = 1\<rparr>"
    using c(2) by (simp add: w1_def src jwt_token_service_def)
  ultimately show thesis using that 1 2 by blast
qed

lemma replay_audited:
  assumes "refresh_execute R T A inp w = (x, w')"
    "fst (RedeemRefreshToken T (in_refresh_token inp) (sources w, tokens w)) = Inr \<lparr>outcome = RedemptionReused, red_user_id = uid\<rparr>"
  shows "x = Inl ErrInvalidCredentials \<and>
    (\<exists>ev. ev_type ev = AuditEventRefreshTokenReuseDetected \<and> ev_actor ev = Some uid \<and> audit w' = A ev (audit w))"
proof -
  obtain g t where red: "RedeemRefreshToken T (in_refresh_token inp) (sources w, tokens w) =
      (Inr \<lparr>outcome = RedemptionReused, red_user_id = uid\<rparr>, g, t)"
    using assms(2) by (metis prod.collapse)
  obtain y g' t' where rev: "RevokeAllRefreshTokens T uid (g, t) = (y, g', t')" by (metis prod_cases3)
  show ?thesis
    using assms(1) by (auto simp: refresh_execute_def on_tokens_def red rev record_audit_def on_gen_def new_audit_event_def
        split: prod.splits intro!: exI [of _ "\<lparr>ev_id = _, ev_type = _, ev_actor = _, ev_target = _, ev_detail = _, ev_occurred_at = _\<rparr>"])
qed

subsection \<open>Properties\<close>

text \<open>
  \<^bold>\<open>C33\<close> A session escapes the revocation of all sessions. One request redeems a refresh token; before it
  goes on, the same token is presented again, that replay is detected and refused, the sessions of the
  user are revoked and the audit log says so. If the first request then gets its answer, the refresh
  token in it is alive in Redis and belongs to the user of the redeemed token: whoever stole the token
  keeps a session.
\<close>

theorem exchange_in_flight_escapes_revocation:
  assumes "redis_laws L" and "10 ^ 6 \<le> refreshTTL svc" and "10 ^ 6 dvd refreshTTL svc"
    and "proc_step (serve_proc lo R H (jwt_token_service J U L svc) A (Refresh inp)) w = (p, w1)"
    and "serve lo R H (jwt_token_service J U L svc) A (Refresh inp) w1 = (rs, w2)"
    and "fst (jwt_redeem_refresh_token U L svc (in_refresh_token inp) (sources w1, tokens w1)) =
      Inr \<lparr>outcome = RedemptionReused, red_user_id = victim\<rparr>"
    and "finish p w2 = (Auth (Inr out), w3)"
  shows "rs = Auth (Inl ErrInvalidCredentials) \<and>
    (\<exists>ev. ev_type ev = AuditEventRefreshTokenReuseDetected \<and> ev_actor ev = Some victim \<and> audit w2 = A ev (audit w1)) \<and>
    (\<exists>uid t. fst (jwt_redeem_refresh_token U L svc (in_refresh_token inp) (sources w, tokens w)) =
        Inr \<lparr>outcome = RedemptionOK, red_user_id = uid\<rparr> \<and>
      redis_get L t (refreshKey (auth_refresh_token out)) (redis_db (tokens w3)) = Some (uuid_String U uid))"
proof -
  have "refresh_execute R (jwt_token_service J U L svc) A inp w1 = (fst (refresh_execute R (jwt_token_service J U L svc) A inp w1), w2)"
    "rs = Auth (fst (refresh_execute R (jwt_token_service J U L svc) A inp w1))"
    using assms(5) by (auto simp: tag_def prod_eq_iff)
  moreover have "fst (RedeemRefreshToken (jwt_token_service J U L svc) (in_refresh_token inp) (sources w1, tokens w1)) =
      Inr \<lparr>outcome = RedemptionReused, red_user_id = victim\<rparr>" using assms(6) by (simp add: jwt_token_service_def)
  ultimately show ?thesis using replay_audited exchange_in_flight [OF assms(1-4,7)] by metis
qed

lemma exchange_in_flight_escapes_revocation_witness:
  "\<exists>p w1 w2 out w3 uid t.
     proc_step (serve_proc (\<lambda>r. r) demo_P demo_H demo_T demo_A demo_request) demo_theft = (p, w1) \<and>
     serve (\<lambda>r. r) demo_P demo_H demo_T demo_A demo_request w1 = (Auth (Inl ErrInvalidCredentials), w2) \<and>
     finish p w2 = (Auth (Inr out), w3) \<and>
     redis_get demo_redis t (refreshKey (auth_refresh_token out)) (redis_db (tokens w3)) = Some (uuid_String rfc_uuid uid)"
proof -
  obtain p w1 rs w2 out w3 where s: "proc_step (serve_proc (\<lambda>r. r) demo_P demo_H demo_T demo_A demo_request) demo_theft = (p, w1)"
    "serve (\<lambda>r. r) demo_P demo_H demo_T demo_A demo_request w1 = (rs, w2)"
    "fst (jwt_redeem_refresh_token rfc_uuid demo_redis demo_service demo_token (sources w1, tokens w1)) =
      Inr \<lparr>outcome = RedemptionReused, red_user_id = 1\<rparr>"
    "finish p w2 = (Auth (Inr out), w3)" by (rule demo_theft_steps)
  have "10 ^ 6 \<le> refreshTTL demo_service" "10 ^ 6 dvd refreshTTL demo_service" by (simp_all add: demo_service_def)
  from exchange_in_flight_escapes_revocation [OF demo_redis_laws this s(1,2) _ s(4), of 1] s show ?thesis by auto
qed

end
