(* ===== verification/ServerProcesses.thy ===== *)
theory ServerProcesses
  imports ConcurrentAccounts GrpcLayer
begin

section \<open>HTTP requests and gRPC calls as processes\<close>

text \<open>
  A request is served by a goroutine from the middleware to the reply. Its steps are the two locked
  parts of a rate limiter (\<^verbatim>\<open>get\<close> and \<^verbatim>\<open>Allow\<close>), the check of the token, the lookup of the account, a
  ping, and the port calls of the use case. The definitions follow \<^verbatim>\<open>interface/http\<close> and
  \<^verbatim>\<open>interface/grpc\<close> once more; run without interruption they are the functions of \<open>HttpLayer\<close> and
  \<open>GrpcLayer\<close>, below.
\<close>

subsection \<open>A process of the application within the server\<close>

primrec within :: "(('r, 't, 'a) world, 'x) proc \<Rightarrow> (('r, 't, 'a, 'l) server, 'x) proc" where
  "within (Ret x) = Ret x"
| "within (Act f) = Act (\<lambda>s. case map_prod within (\<lambda>w. w) (f (srv_world s)) of (p, w) \<Rightarrow> (p, s\<lparr>srv_world := w\<rparr>))"

lemma finish_within [simp]: "finish (within p) s = on_world (finish p) s"
proof (induction p arbitrary: s)
  case (Act f)
  obtain p' w' where fw: "f (srv_world s) = (p', w')" by fastforce
  have "(p', w') \<in> range f" using fw by (metis rangeI)
  from Act [OF this, of p' "s\<lparr>srv_world := w'\<rparr>"] show ?case
    using fw by (simp add: on_world_def split: prod.splits)
qed (simp add: on_world_def)

declare finish_map_proc [simp]

lemma proc_step_within:
  "proc_step (map_proc h (within p)) s =
    (case proc_step p (srv_world s) of (p, w) \<Rightarrow> (map_proc h (within p), s\<lparr>srv_world := w\<rparr>))"
  by (cases p) (auto split: prod.splits)

lemma within_map:
  "(within (map_proc h p) :: (('r, 't, 'a, 'l) server, 'y) proc) = map_proc h (within p)"
proof (induction p)
  case (Act f)
  have "(case map_prod within (\<lambda>w. w) (map_prod (map_proc h) id (f (srv_world s))) of (p, w) \<Rightarrow> (p, s\<lparr>srv_world := w\<rparr>)) =
      (map_prod (map_proc h) id (case map_prod within (\<lambda>w. w) (f (srv_world s)) of (p, w) \<Rightarrow> (p, s\<lparr>srv_world := w\<rparr>))
        :: (('r, 't, 'a, 'l) server, 'y) proc \<times> ('r, 't, 'a, 'l) server)"
    for s :: "('r, 't, 'a, 'l) server"
  proof -
    obtain p' w' where fw: "f (srv_world s) = (p', w')" by fastforce
    have "(p', w') \<in> range f" using fw by (metis rangeI)
    from Act [OF this, of p'] show ?thesis using fw by simp
  qed
  then show ?case by (simp add: fun_eq_iff)
qed simp

subsection \<open>Middleware\<close>

type_synonym ('r, 't, 'a, 'l) http_process = "gin_context \<Rightarrow> (('r, 't, 'a, 'l) server, gin_context) proc"

definition on_limiter ::
  "limiter_slot \<Rightarrow> (gen \<times> 'l keyed_limiter \<Rightarrow> 'x \<times> gen \<times> 'l keyed_limiter) \<Rightarrow>
   ('r, 't, 'a, 'l) server \<Rightarrow> 'x \<times> ('r, 't, 'a, 'l) server" where
  "on_limiter slot f s =
    (case f (sources (srv_world s), srv_limiter s slot) of (x, g, l) \<Rightarrow>
      (x, s\<lparr>srv_world := (srv_world s)\<lparr>sources := g\<rparr>, srv_limiter := (srv_limiter s)(slot := l)\<rparr>))"

definition limited_proc ::
  "gin_lib \<Rightarrow> 'l rate_lib \<Rightarrow> limiter_slot \<Rightarrow> string \<Rightarrow> ('r, 't, 'a, 'l) http_process \<Rightarrow> ('r, 't, 'a, 'l) http_process" where
  "limited_proc G L slot key next c =
    call (on_limiter slot (kl_get L key)) (\<lambda>limiter.
    call (on_limiter slot (limiter_allow L limiter)) (\<lambda>ok.
      if \<not> ok then
        call (on_world (on_gen time_now)) (\<lambda>now.
          Ret (gin_JSON 429 (ErrorBody ''rate limit exceeded'') (gin_Header ''Retry-After'' (gin_time G (now + 10 ^ 9)) c)))
      else next c))"

definition RateLimit_proc ::
  "gin_lib \<Rightarrow> 'l rate_lib \<Rightarrow> limiter_slot \<Rightarrow> ('r, 't, 'a, 'l) http_process \<Rightarrow> ('r, 't, 'a, 'l) http_process" where
  "RateLimit_proc G L slot next c = limited_proc G L slot (rq_client_ip (gc_request c)) next c"

definition UserRateLimit_proc ::
  "gin_lib \<Rightarrow> uuid_lib \<Rightarrow> 'l rate_lib \<Rightarrow> limiter_slot \<Rightarrow> ('r, 't, 'a, 'l) http_process \<Rightarrow> ('r, 't, 'a, 'l) http_process" where
  "UserRateLimit_proc G U L slot next c =
    (case GetClaims c of
       None \<Rightarrow> next c
     | Some claims \<Rightarrow> limited_proc G L slot (uuid_String U (claim_user_id claims)) next c)"

text \<open>The lookup of both interfaces: the account, and whether it is active.\<close>

definition active_lookup ::
  "'r user_repository \<Rightarrow> uuid \<Rightarrow> ('r, 't, 'a) world \<Rightarrow> (error + bool) \<times> ('r, 't, 'a) world" where
  "active_lookup R i w = (case on_repo (FindByID R i) w of
     (Inl e, w) \<Rightarrow> (Inl e, w)
   | (Inr user, w) \<Rightarrow> (Inr (usr_is_active (user_at user w)), w))"

definition RequireAuth_proc ::
  "'t token_service \<Rightarrow> 'r user_repository \<Rightarrow> ('r, 't, 'a, 'l) http_process \<Rightarrow> ('r, 't, 'a, 'l) http_process" where
  "RequireAuth_proc T R next c =
    (let header = gin_GetHeader ''Authorization'' c in
     if \<not> has_prefix header ''Bearer '' then Ret (gin_JSON 401 (ErrorBody ''missing token'') c)
     else call (on_world (on_gen (ValidateAccessToken T (trim_prefix header ''Bearer '')))) (\<lambda>x. case x of
       Inl e \<Rightarrow> Ret (if e = RuntimePanic then gin_panic c else gin_JSON 401 (ErrorBody ''invalid token'') c)
     | Inr claims \<Rightarrow>
         call (on_world (active_lookup R (claim_user_id claims))) (\<lambda>y. case y of
           Inl e \<Rightarrow> Ret (if e = RuntimePanic then gin_panic c else gin_JSON 401 (ErrorBody ''user not found'') c)
         | Inr active \<Rightarrow>
             if \<not> active then Ret (gin_JSON 403 (ErrorBody ''account is inactive'') c)
             else next (c\<lparr>gc_user := Some claims\<rparr>))))"

subsection \<open>Handlers\<close>

text \<open>A handler that has read its request runs a use case and renders the result.\<close>

definition use_case_proc ::
  "(nat \<Rightarrow> nat) \<Rightarrow> 'r user_repository \<Rightarrow> password_hasher \<Rightarrow> 't token_service \<Rightarrow> 'a audit_port \<Rightarrow>
   gin_context \<Rightarrow> request \<Rightarrow> (('r, 't, 'a, 'l) server, gin_context) proc" where
  "use_case_proc lo R H T A c rq =
    map_proc (\<lambda>rs. case http_reply rq rs of (code, body) \<Rightarrow> gin_JSON code body c) (within (serve_proc lo R H T A rq))"

text \<open>The bodies: the reply of a request that cannot be read, or the request of the application.\<close>

type_synonym http_reader = "gin_context \<Rightarrow> gin_context + request"

definition read_body :: "gin_lib \<Rightarrow> string list \<Rightarrow> (string list \<Rightarrow> gin_context + request) \<Rightarrow> http_reader" where
  "read_body G names k c =
    (case gin_bind G names (rq_body (gc_request c)) of
       Inl e \<Rightarrow> Inl (gin_JSON 400 (ErrorBody (error_message e)) c)
     | Inr req \<Rightarrow> k req)"

definition read_Register :: "gin_lib \<Rightarrow> http_reader" where
  "read_Register G = read_body G [''email'', ''password'', ''name'']
     (\<lambda>req. Inr (Register \<lparr>reg_email = req ! 0, reg_password = req ! 1, reg_name = req ! 2\<rparr>))"

definition read_Login :: "gin_lib \<Rightarrow> http_reader" where
  "read_Login G = read_body G [''email'', ''password'']
     (\<lambda>req. Inr (Login \<lparr>login_email = req ! 0, login_password = req ! 1\<rparr>))"

definition read_Refresh :: "gin_lib \<Rightarrow> http_reader" where
  "read_Refresh G = read_body G [''refresh_token''] (\<lambda>req. Inr (Refresh \<lparr>in_refresh_token = req ! 0\<rparr>))"

definition claimed :: "(access_token_claims \<Rightarrow> http_reader) \<Rightarrow> http_reader" where
  "claimed f c = (case GetClaims c of None \<Rightarrow> Inl (gin_JSON 401 (ErrorBody ''unauthorized'') c) | Some claims \<Rightarrow> f claims c)"

definition read_GetMe :: http_reader where
  "read_GetMe = claimed (\<lambda>claims c. Inr (GetUser (claim_user_id claims) (claim_role claims) (claim_user_id claims)))"

definition read_GetUser :: "uuid_lib \<Rightarrow> http_reader" where
  "read_GetUser U = claimed (\<lambda>claims c. case uuid_Parse U (gin_Param ''id'' c) of
     None \<Rightarrow> Inl (gin_JSON 400 (ErrorBody ''invalid user id'') c)
   | Some targetID \<Rightarrow> Inr (GetUser (claim_user_id claims) (claim_role claims) targetID))"

definition read_ListUsers :: http_reader where
  "read_ListUsers = claimed (\<lambda>claims c. case query_int32 ''page'' c of
     None \<Rightarrow> Inl (gin_JSON 400 (ErrorBody ''invalid page'') c)
   | Some page \<Rightarrow> (case query_int32 ''page_size'' c of
       None \<Rightarrow> Inl (gin_JSON 400 (ErrorBody ''invalid page_size'') c)
     | Some pageSize \<Rightarrow> Inr (ListUsers (claim_role claims) \<lparr>in_page = page, in_page_size = pageSize\<rparr>)))"

definition read_UpdateMe :: "gin_lib \<Rightarrow> http_reader" where
  "read_UpdateMe G = claimed (\<lambda>claims. read_body G [''name''] (\<lambda>req. Inr (UpdateProfile (claim_user_id claims) (req ! 0))))"

definition read_ChangePassword :: "gin_lib \<Rightarrow> http_reader" where
  "read_ChangePassword G = claimed (\<lambda>claims. read_body G [''current_password'', ''new_password'']
     (\<lambda>req. Inr (ChangePassword (claim_user_id claims) \<lparr>current_password = req ! 0, new_password = req ! 1\<rparr>)))"

definition read_ChangeRole :: "gin_lib \<Rightarrow> uuid_lib \<Rightarrow> http_reader" where
  "read_ChangeRole G U = claimed (\<lambda>claims c.
     if claim_role claims \<noteq> RoleOwner then Inl (gin_JSON 403 (ErrorBody ''insufficient permissions'') c)
     else case uuid_Parse U (gin_Param ''id'' c) of
       None \<Rightarrow> Inl (gin_JSON 400 (ErrorBody ''invalid user id'') c)
     | Some targetID \<Rightarrow> read_body G [''role''] (\<lambda>req. case parse_role (req ! 0) of
           Inl e \<Rightarrow> Inl (fail_with e c)
         | Inr role \<Rightarrow> Inr (ChangeRole (claim_user_id claims) targetID role)) c)"

definition health_Ready_proc :: "('r, 't, 'a) health_handler \<Rightarrow> ('r, 't, 'a, 'l) http_process" where
  "health_Ready_proc h c =
    call (on_world (hh_redis h)) (\<lambda>e.
      let checks = [(''redis'', if e = None then ''ok'' else ''error'')]; ready = (e = None);
          reply = (\<lambda>ready checks. gin_JSON (if ready then 200 else 503) (StatusBody (if ready then ''ready'' else ''not_ready'') checks) c)
      in case hh_database h of
           None \<Rightarrow> Ret (reply ready checks)
         | Some db \<Rightarrow> call (on_world db) (\<lambda>e.
             Ret (reply (ready \<and> e = None) ((''postgres'', if e = None then ''ok'' else ''error'') # checks))))"

subsection \<open>The router\<close>

definition handler_proc ::
  "(nat \<Rightarrow> nat) \<Rightarrow> 'r user_repository \<Rightarrow> password_hasher \<Rightarrow> 't token_service \<Rightarrow> 'a audit_port \<Rightarrow>
   http_reader \<Rightarrow> ('r, 't, 'a, 'l) http_process" where
  "handler_proc lo R H T A rd c = (case rd c of Inl c \<Rightarrow> Ret c | Inr rq \<Rightarrow> use_case_proc lo R H T A c rq)"

definition route_procs ::
  "(nat \<Rightarrow> nat) \<Rightarrow> password_hasher \<Rightarrow> 'a audit_port \<Rightarrow> ('r, 't, 'a, 'l) http_env \<Rightarrow> ('r, 't, 'a, 'l) http_process list" where
  "route_procs lo H A E =
    (let G = he_gin E; U = he_uuid E; L = he_rate E;
         run = handler_proc lo (he_repo E) H (he_tokens E) A;
         limited = RateLimit_proc G L AuthLimit;
         protected = RequireAuth_proc (he_tokens E) (he_repo E) in
     [\<lambda>c. Ret (gin_JSON 200 (StatusBody ''ok'' []) c),
      health_Ready_proc (he_health E),
      \<lambda>c. Ret (gin_JSON 200 (TextBody (gin_metrics G)) c),
      limited (run (read_Register G)),
      limited (run (read_Login G)),
      limited (run (read_Refresh G)),
      protected (run read_GetMe),
      protected (run (read_UpdateMe G)),
      protected (UserRateLimit_proc G U L PasswordLimit (run (read_ChangePassword G))),
      protected (run read_ListUsers),
      protected (run (read_GetUser U)),
      protected (UserRateLimit_proc G U L RoleLimit (run (read_ChangeRole G U)))])"

definition gin_chain_proc :: "('r, 't, 'a, 'l) http_env \<Rightarrow> ('r, 't, 'a, 'l) http_process \<Rightarrow> ('r, 't, 'a, 'l) http_process" where
  "gin_chain_proc E h c =
    (if rq_method (gc_request c) = ''OPTIONS'' then Ret ((prepared E c)\<lparr>gc_status := 204\<rparr>)
     else RateLimit_proc (he_gin E) (he_rate E) IpLimit h (prepared E c))"

definition http_proc ::
  "(nat \<Rightarrow> nat) \<Rightarrow> password_hasher \<Rightarrow> 'a audit_port \<Rightarrow> ('r, 't, 'a, 'l) http_env \<Rightarrow> http_request \<Rightarrow>
   (('r, 't, 'a, 'l) server, gin_context) proc" where
  "http_proc lo H A E rq =
    (let c = \<lparr>gc_request = rq, gc_params = [], gc_user = None, gc_status = 200, gc_header = [], gc_body = NoBody\<rparr> in
     case gin_route (he_gin E) (map (\<lambda>(m, p, _). (m, p)) (routes E)) (rq_method rq) (rq_path rq) of
       Redirected code loc \<Rightarrow> Ret (c\<lparr>gc_status := code, gc_header := [(''Location'', loc)]\<rparr>)
     | Matched i ps \<Rightarrow> gin_chain_proc E (route_procs lo H A E ! i) (c\<lparr>gc_params := ps\<rparr>)
     | Unmatched \<Rightarrow> gin_chain_proc E (\<lambda>c. Ret (gin_JSON 404 (TextBody ''404 page not found'') c)) c)"

subsection \<open>gRPC\<close>

definition caller_proc ::
  "'t token_service \<Rightarrow> 'r user_repository \<Rightarrow> (string \<times> string list) list option \<Rightarrow>
   (authenticated_caller \<Rightarrow> (('r, 't, 'a) world, grpc_result) proc) \<Rightarrow> (('r, 't, 'a) world, grpc_result) proc" where
  "caller_proc T R md handler =
    (case md of
       None \<Rightarrow> Ret (Status Unauthenticated ''missing bearer token'')
     | Some md \<Rightarrow>
        (let values = (case map_of md ''authorization'' of None \<Rightarrow> [] | Some vs \<Rightarrow> vs) in
         if values = [] \<or> \<not> has_prefix (hd values) ''Bearer ''
         then Ret (Status Unauthenticated ''missing bearer token'')
         else call (on_gen (ValidateAccessToken T (trim_prefix (hd values) ''Bearer ''))) (\<lambda>x. case x of
           Inl e \<Rightarrow> Ret (if e = RuntimePanic then Crash else Status Unauthenticated ''invalid or expired token'')
         | Inr claims \<Rightarrow>
             call (active_lookup R (claim_user_id claims)) (\<lambda>y. case y of
               Inl e \<Rightarrow> Ret (if e = RuntimePanic then Crash else Status Unauthenticated ''invalid or expired token'')
             | Inr active \<Rightarrow>
                 if \<not> active then Ret (Status PermissionDenied ''account is inactive'')
                 else handler \<lparr>caller_ID = claim_user_id claims, caller_Role = claim_role claims\<rparr>))))"

definition with_grpc_caller :: "authenticated_caller option \<Rightarrow> (authenticated_caller \<Rightarrow> grpc_result + request) \<Rightarrow> grpc_result + request" where
  "with_grpc_caller caller f = (case caller of None \<Rightarrow> Inl (Status Unauthenticated ''missing bearer token'') | Some c \<Rightarrow> f c)"

primrec read_message :: "uuid_lib \<Rightarrow> authenticated_caller option \<Rightarrow> pb_request \<Rightarrow> grpc_result + request" where
  "read_message U caller (RegisterRequest e p n) = Inr (Register \<lparr>reg_email = e, reg_password = p, reg_name = n\<rparr>)"
| "read_message U caller (LoginRequest e p) = Inr (Login \<lparr>login_email = e, login_password = p\<rparr>)"
| "read_message U caller (RefreshTokenRequest t) = Inr (Refresh \<lparr>in_refresh_token = t\<rparr>)"
| "read_message U caller GetMeRequest = with_grpc_caller caller (\<lambda>c. Inr (GetUser (caller_ID c) (caller_Role c) (caller_ID c)))"
| "read_message U caller (ListUsersRequest p s) =
     with_grpc_caller caller (\<lambda>c. Inr (ListUsers (caller_Role c) \<lparr>in_page = p, in_page_size = s\<rparr>))"
| "read_message U caller (UpdateProfileRequest n) = with_grpc_caller caller (\<lambda>c. Inr (UpdateProfile (caller_ID c) n))"
| "read_message U caller (ChangePasswordRequest old new) =
     with_grpc_caller caller (\<lambda>c. Inr (ChangePassword (caller_ID c) \<lparr>current_password = old, new_password = new\<rparr>))"
| "read_message U caller (ChangeRoleRequest i r) = with_grpc_caller caller (\<lambda>c.
     if caller_Role c \<noteq> RoleOwner then Inl (Status PermissionDenied ''insufficient permissions'')
     else case uuid_Parse U i of
       None \<Rightarrow> Inl (Status InvalidArgument ''invalid user id'')
     | Some targetID \<Rightarrow> (case parse_role r of
         Inl e \<Rightarrow> Inl (Status InvalidArgument ''invalid role'')
       | Inr role \<Rightarrow> Inr (ChangeRole (caller_ID c) targetID role)))"

definition grpc_reply :: "uuid_lib \<Rightarrow> (string \<Rightarrow> time \<Rightarrow> string) \<Rightarrow> response \<Rightarrow> grpc_result" where
  "grpc_reply U fmt rs = (case rs of
      Auth (Inr out) \<Rightarrow> Reply (toAuthResponse U out)
    | Profile (Inr out) \<Rightarrow> Reply (UserResponse (toUserResponse U fmt out))
    | Users (Inr out) \<Rightarrow> Reply (ListUsersResponse (map (toUserResponse U fmt) (list_items out)) (list_pagination out))
    | Done (Inr _) \<Rightarrow> Reply ChangePasswordResponse
    | Auth (Inl e) \<Rightarrow> toStatus e | Profile (Inl e) \<Rightarrow> toStatus e | Users (Inl e) \<Rightarrow> toStatus e | Done (Inl e) \<Rightarrow> toStatus e)"

definition grpc_proc ::
  "uuid_lib \<Rightarrow> (string \<Rightarrow> time \<Rightarrow> string) \<Rightarrow> (nat \<Rightarrow> nat) \<Rightarrow> 'r user_repository \<Rightarrow> password_hasher \<Rightarrow>
   't token_service \<Rightarrow> 'a audit_port \<Rightarrow> grpc_call \<Rightarrow> (('r, 't, 'a) world, grpc_result) proc" where
  "grpc_proc U fmt lo R H T A cl =
    (let handle = (\<lambda>caller. case read_message U caller (gr_message cl) of
        Inl res \<Rightarrow> Ret res
      | Inr rq \<Rightarrow> map_proc (grpc_reply U fmt) (serve_proc lo R H T A rq)) in
     if full_method (gr_message cl) \<notin> set methodsRequiringAuth then handle None
     else caller_proc T R (gr_metadata cl) (\<lambda>caller. handle (Some caller)))"

subsection \<open>Run alone, a process is its handler\<close>

lemma limited_finish:
  "finish (limited_proc G L slot key next c) s =
    (case limiter_asks L slot key s of (ok, s) \<Rightarrow> if \<not> ok then tooManyRequests G (c, s) else finish (next c) s)"
  by (auto simp: limited_proc_def limiter_asks_def kl_hit_def on_limiter_def tooManyRequests_def on_world_def
      split: prod.splits)

lemma rate_limit_finish:
  assumes "\<And>c s. finish (next c) s = h (c, s)"
  shows "finish (RateLimit_proc G L slot next c) s = RateLimit G L slot h (c, s)"
    and "finish (UserRateLimit_proc G U L slot next c) s = UserRateLimit G U L slot h (c, s)"
  using assms by (simp_all add: RateLimit_proc_def RateLimit_def UserRateLimit_proc_def UserRateLimit_def limited_finish
      split: option.splits prod.splits)

lemma require_auth_finish:
  assumes "\<And>c s. finish (next c) s = h (c, s)"
  shows "finish (RequireAuth_proc T R next c) s = RequireAuth T R h (c, s)"
  using assms
  by (auto simp: RequireAuth_proc_def RequireAuth_def active_lookup_def Let_def on_world_def
      split: prod.splits sum.splits)

lemma error_reply_fail: "(case error_reply e of (code, body) \<Rightarrow> gin_JSON code body c) = fail_with e c"
  by (simp add: error_reply_def fail_with_def gin_JSON_def gin_panic_def)

lemma http_reply_simps:
  "http_reply rq (Auth (Inl e)) = error_reply e" "http_reply rq (Profile (Inl e)) = error_reply e"
  "http_reply rq (Users (Inl e)) = error_reply e" "http_reply rq (Done (Inl e)) = error_reply e"
  "http_reply (Register r) (Auth (Inr out)) = (201, AuthBody out)" "http_reply (Login l) (Auth (Inr out)) = (200, AuthBody out)"
  "http_reply (Refresh t) (Auth (Inr out)) = (200, AuthBody out)" "http_reply rq (Profile (Inr u)) = (200, UserBody u)"
  "http_reply rq (Users (Inr us)) = (200, UsersBody us)" "http_reply rq (Done (Inr n)) = (204, NoBody)"
  by (simp_all add: http_reply_def)

lemma handler_finish:
  "finish (handler_proc lo R H T A rd c) s = (case rd c of
      Inl c \<Rightarrow> (c, s)
    | Inr rq \<Rightarrow> (case on_world (serve lo R H T A rq) s of (rs, s) \<Rightarrow>
        (case http_reply rq rs of (code, body) \<Rightarrow> gin_JSON code body c, s)))"
  by (simp add: handler_proc_def use_case_proc_def serve_finish split: sum.splits)

lemma answer_reply:
  assumes "\<And>w. serve lo R H T A rq w = tag con (f w)" "\<And>e. http_reply rq (con (Inl e)) = error_reply e"
    "\<And>out. http_reply rq (con (Inr out)) = (code, body out)"
  shows "(case on_world (serve lo R H T A rq) s of (rs, s) \<Rightarrow> (case http_reply rq rs of (code, body) \<Rightarrow> gin_JSON code body c, s)) =
    answer code body c (on_world f s)"
proof -
  obtain x w where "f (srv_world s) = (x, w)" by fastforce
  then show ?thesis using assms(2,3) error_reply_fail
    by (cases x) (simp_all add: on_world_def assms(1) tag_def answer_def)
qed

lemma auth_handlers_finish:
  "finish (handler_proc lo R H T A (read_Register G) c) s = auth_Register G (main_auth_handler lo R H T A) (c, s)"
  "finish (handler_proc lo R H T A (read_Login G) c) s = auth_Login G (main_auth_handler lo R H T A) (c, s)"
  "finish (handler_proc lo R H T A (read_Refresh G) c) s = auth_Refresh G (main_auth_handler lo R H T A) (c, s)"
  unfolding handler_finish
  by (auto simp: read_Register_def auth_Register_def read_Login_def auth_Login_def read_Refresh_def auth_Refresh_def
      read_body_def main_auth_handler_def http_reply_simps split: sum.splits intro!: answer_reply [where con = Auth])

lemma user_handlers_finish:
  "finish (handler_proc lo R H T A read_GetMe c) s = user_GetMe (main_user_handler R H A) (c, s)"
  "finish (handler_proc lo R H T A (read_GetUser U) c) s = user_GetUser U (main_user_handler R H A) (c, s)"
  "finish (handler_proc lo R H T A (read_UpdateMe G) c) s = user_UpdateMe G (main_user_handler R H A) (c, s)"
  unfolding handler_finish
  by (auto simp: read_GetMe_def user_GetMe_def read_GetUser_def user_GetUser_def read_UpdateMe_def user_UpdateMe_def
      claimed_def with_claims_def read_body_def main_user_handler_def http_reply_simps split: sum.splits option.splits
      intro!: answer_reply [where con = Profile])

lemma more_user_handlers_finish:
  "finish (handler_proc lo R H T A read_ListUsers c) s = user_ListUsers (main_user_handler R H A) (c, s)"
  "finish (handler_proc lo R H T A (read_ChangePassword G) c) s = user_ChangePassword G (main_user_handler R H A) (c, s)"
  "finish (handler_proc lo R H T A (read_ChangeRole G U) c) s = user_ChangeRole G U (main_user_handler R H A) (c, s)"
  unfolding handler_finish
    apply (auto simp: read_ListUsers_def user_ListUsers_def claimed_def with_claims_def main_user_handler_def http_reply_simps
      split: option.splits intro!: answer_reply [where con = Users])[1]
   apply (auto simp: read_ChangePassword_def user_ChangePassword_def claimed_def with_claims_def read_body_def
      main_user_handler_def http_reply_simps split: sum.splits option.splits intro!: answer_reply [where con = Done])[1]
  apply (auto simp: read_ChangeRole_def user_ChangeRole_def claimed_def with_claims_def read_body_def
      main_user_handler_def http_reply_simps split: sum.splits option.splits intro!: answer_reply [where con = Profile])[1]
  done

lemma ready_finish: "finish (health_Ready_proc h c) s = health_Ready h (c, s)"
  by (auto simp: health_Ready_proc_def health_Ready_def Let_def split: prod.splits option.splits)

lemma routes_finish:
  "list_all2 (\<lambda>r h. \<forall>c s. finish (h c) s = snd (snd r) (c, s))
     (routes (main_router G U L lo R H T A redis db origins)) (route_procs lo H A (main_router G U L lo R H T A redis db origins))"
  by (simp add: routes_def route_procs_def main_router_def Let_def health_Health_def ready_finish
      rate_limit_finish require_auth_finish auth_handlers_finish user_handlers_finish more_user_handlers_finish)

lemma chain_finish:
  assumes "\<And>c s. finish (p c) s = h (c, s)"
  shows "finish (gin_chain_proc E p c) s = gin_chain E h (c, s)"
  by (simp add: gin_chain_proc_def gin_chain_eq rate_limit_finish(1) [OF assms])

lemma http_finish:
  assumes "gin_laws G"
  shows "finish (http_proc lo H A (main_router G U L lo R H T A redis db origins) rq) s =
    http_handle (main_router G U L lo R H T A redis db origins) rq s"
proof -
  let ?E = "main_router G U L lo R H T A redis db origins"
  have g: "he_gin ?E = G" by (simp add: main_router_def)
  show ?thesis
  proof (cases "gin_route G (map (\<lambda>(m, p, _). (m, p)) (routes ?E)) (rq_method rq) (rq_path rq)")
    case (Matched i ps)
    then have "i < length (routes ?E)" using assms unfolding gin_laws_def by fastforce
    then have "finish ((route_procs lo H A ?E ! i) c) s = snd (snd (routes ?E ! i)) (c, s)" for c s
      using list_all2_nthD [OF routes_finish] by blast
    then show ?thesis by (simp add: http_proc_def http_handle_def g Matched chain_finish)
  qed (simp_all add: http_proc_def http_handle_def g chain_finish)
qed

lemma caller_finish:
  "finish (caller_proc T R md handler) w = (case authenticate T R md w of
     (Inl status, w) \<Rightarrow> (status, w) | (Inr caller, w) \<Rightarrow> finish (handler caller) w)"
  by (auto simp: caller_proc_def authenticate_def active_lookup_def Let_def split: option.splits prod.splits sum.splits)

lemma grpc_tags:
  "(case tag Auth p of (rs, w) \<Rightarrow> (grpc_reply U fmt rs, w)) = grpc_answer (toAuthResponse U) p"
  "(case tag Profile q of (rs, w) \<Rightarrow> (grpc_reply U fmt rs, w)) = grpc_answer (\<lambda>out. UserResponse (toUserResponse U fmt out)) q"
  "(case tag Users r of (rs, w) \<Rightarrow> (grpc_reply U fmt rs, w)) =
     grpc_answer (\<lambda>out. ListUsersResponse (map (toUserResponse U fmt) (list_items out)) (list_pagination out)) r"
  "(case tag Done d of (rs, w) \<Rightarrow> (grpc_reply U fmt rs, w)) = grpc_answer (\<lambda>_. ChangePasswordResponse) d"
  by (simp_all add: tag_def grpc_reply_def grpc_answer_def split: prod.splits sum.splits)

lemma message_finish:
  "finish (case read_message U caller m of Inl res \<Rightarrow> Ret res | Inr rq \<Rightarrow> map_proc (grpc_reply U fmt) (serve_proc lo R H T A rq)) w =
    grpc_dispatch U fmt (main_auth_handler lo R H T A) (main_user_handler R H A) m caller w"
proof -
  have run: "finish (map_proc (grpc_reply U fmt) (serve_proc lo R H T A rq)) w =
      (case serve lo R H T A rq w of (rs, w) \<Rightarrow> (grpc_reply U fmt rs, w))" for rq
    by (simp only: finish_map_proc serve_finish)
  note defs = main_auth_handler_def main_user_handler_def with_grpc_caller_def with_caller_def comp_def
  show ?thesis
    by (cases m; cases caller)
      (simp_all add: run grpc_tags defs grpc_Register_def grpc_Login_def grpc_RefreshToken_def grpc_GetMe_def
        grpc_ListUsers_def grpc_UpdateProfile_def grpc_ChangePassword_def grpc_ChangeRole_def
        del: finish_map_proc serve_proc.simps split: option.splits sum.splits)
qed

lemma grpc_finish: "finish (grpc_proc U fmt lo R H T A cl) w = grpc_handle U fmt lo R H T A cl w"
  by (auto simp: grpc_proc_def grpc_handle_def UnaryAuthInterceptor_def caller_finish message_finish Let_def
      split: prod.splits sum.splits)

end
