(* ===== verification/ServerRuns.thy ===== *)
theory ServerRuns
  imports ServerProcesses
begin

section \<open>Both servers under concurrent traffic\<close>

text \<open>
  The process as a whole: HTTP requests and gRPC calls arrive at any time, each gets a goroutine, any
  goroutine makes its next step, time passes, Redis forgets keys, the cleanup of a limiter sweeps, in
  any order. The traffic is a run of the application of \<open>ConcurrentRuns\<close>: a connection first passes
  through middleware, which changes no account and no token, and then is one of its goroutines.
\<close>

subsection \<open>Connections\<close>

datatype arrival = Http http_request | Grpc grpc_call
datatype reply = HttpReply gin_context | GrpcReply grpc_result

record ('r, 't, 'a, 'l) frontend =
  fe_env :: "('r, 't, 'a, 'l) http_env"
  fe_format :: "string \<Rightarrow> time \<Rightarrow> string"
  fe_lower :: "nat \<Rightarrow> nat"
  fe_hasher :: password_hasher
  fe_audit :: "'a audit_port"

primrec arrival_proc :: "('r, 't, 'a, 'l) frontend \<Rightarrow> arrival \<Rightarrow> (('r, 't, 'a, 'l) server, reply) proc" where
  "arrival_proc F (Http rq) = map_proc HttpReply (http_proc (fe_lower F) (fe_hasher F) (fe_audit F) (fe_env F) rq)"
| "arrival_proc F (Grpc cl) = map_proc GrpcReply (within (grpc_proc (he_uuid (fe_env F)) (fe_format F) (fe_lower F)
     (he_repo (fe_env F)) (fe_hasher F) (he_tokens (fe_env F)) (fe_audit F) cl))"

text \<open>What a connection asked for, the sources of time when it arrived, and what is left of it.\<close>

record ('r, 't, 'a, 'l) connection =
  cn_arrival :: arrival
  cn_since :: gen
  cn_rest :: "(('r, 't, 'a, 'l) server, reply) proc"

type_synonym ('r, 't, 'a, 'l) traffic = "('r, 't, 'a, 'l) server \<times> ('r, 't, 'a, 'l) connection list"

definition open_conn :: "('r, 't, 'a, 'l) frontend \<Rightarrow> arrival \<Rightarrow> ('r, 't, 'a, 'l) traffic \<Rightarrow> ('r, 't, 'a, 'l) traffic" where
  "open_conn F q t = (case t of (s, cs) \<Rightarrow>
     (s, cs @ [\<lparr>cn_arrival = q, cn_since = sources (srv_world s), cn_rest = arrival_proc F q\<rparr>]))"

definition serve_conn :: "nat \<Rightarrow> ('r, 't, 'a, 'l) traffic \<Rightarrow> ('r, 't, 'a, 'l) traffic" where
  "serve_conn i t = (case t of (s, cs) \<Rightarrow>
     if i < length cs then (case proc_step (cn_rest (cs ! i)) s of (p, s) \<Rightarrow> (s, cs[i := (cs ! i)\<lparr>cn_rest := p\<rparr>]))
     else (s, cs))"

inductive traffic_step ::
  "('r, 't, 'a, 'l) frontend \<Rightarrow> ('t \<Rightarrow> 't \<Rightarrow> bool) \<Rightarrow> ('r, 't, 'a, 'l) traffic \<Rightarrow> ('r, 't, 'a, 'l) traffic \<Rightarrow> bool"
  for F env where
  arrive: "traffic_step F env t (open_conn F q t)"
| move: "traffic_step F env t (serve_conn i t)"
| wait: "clock_pos (sources (srv_world s)) \<le> n \<Longrightarrow> traffic_step F env (s, cs)
    (s\<lparr>srv_world := (srv_world s)\<lparr>sources := (sources (srv_world s))\<lparr>clock_pos := n\<rparr>\<rparr>\<rparr>, cs)"
| change: "env (tokens (srv_world s)) t \<Longrightarrow> traffic_step F env (s, cs) (s\<lparr>srv_world := (srv_world s)\<lparr>tokens := t\<rparr>\<rparr>, cs)"
| sweep: "traffic_step F env (s, cs) (snd (on_limiter slot (\<lambda>l. ((), kl_sweep l)) s), cs)"

abbreviation traffic_run ::
  "('r, 't, 'a, 'l) frontend \<Rightarrow> ('t \<Rightarrow> 't \<Rightarrow> bool) \<Rightarrow> ('r, 't, 'a, 'l) traffic \<Rightarrow> ('r, 't, 'a, 'l) traffic \<Rightarrow> bool" where
  "traffic_run F env \<equiv> (traffic_step F env)\<^sup>*\<^sup>*"

definition main_frontend ::
  "gin_lib \<Rightarrow> uuid_lib \<Rightarrow> 'l rate_lib \<Rightarrow> (string \<Rightarrow> time \<Rightarrow> string) \<Rightarrow> (nat \<Rightarrow> nat) \<Rightarrow> 'r user_repository \<Rightarrow>
   password_hasher \<Rightarrow> 't token_service \<Rightarrow> 'a audit_port \<Rightarrow> ('r, 't, 'a) pinger \<Rightarrow> ('r, 't, 'a) pinger option \<Rightarrow> string list \<Rightarrow>
   ('r, 't, 'a, 'l) frontend" where
  "main_frontend G U L fmt lo R H T A redis db origins =
    \<lparr>fe_env = main_router G U L lo R H T A redis db origins, fe_format = fmt, fe_lower = lo, fe_hasher = H, fe_audit = A\<rparr>"

subsection \<open>What a connection carries and receives\<close>

text \<open>The bearer token; the refresh token a connection presents for exchange; an answer with tokens.\<close>

primrec carries :: "arrival \<Rightarrow> string \<Rightarrow> bool" where
  "carries (Http rq) tok \<longleftrightarrow> map_of (rq_header rq) ''Authorization'' = Some (''Bearer '' @ tok)"
| "carries (Grpc cl) tok \<longleftrightarrow>
     (\<exists>md vs. gr_metadata cl = Some md \<and> map_of md ''authorization'' = Some ((''Bearer '' @ tok) # vs))"

primrec presents :: "('r, 't, 'a, 'l) frontend \<Rightarrow> string \<Rightarrow> arrival \<Rightarrow> bool" where
  "presents F tok (Http rq) \<longleftrightarrow>
     (\<exists>i ps. gin_route (he_gin (fe_env F)) (map (\<lambda>(m, p, _). (m, p)) (routes (fe_env F))) (rq_method rq) (rq_path rq) = Matched i ps \<and>
        fst (snd (routes (fe_env F) ! i)) = ''/v1/auth/refresh'') \<and>
     gin_bind (he_gin (fe_env F)) [''refresh_token''] (rq_body rq) = Inr [tok]"
| "presents F tok (Grpc cl) \<longleftrightarrow> gr_message cl = RefreshTokenRequest tok"

primrec rewarded :: "reply \<Rightarrow> bool" where
  "rewarded (HttpReply c) \<longleftrightarrow> (case gc_body c of AuthBody _ \<Rightarrow> True | _ \<Rightarrow> False)"
| "rewarded (GrpcReply r) \<longleftrightarrow> (case r of Reply (AuthResponse _ _ _) \<Rightarrow> True | _ \<Rightarrow> False)"

text \<open>
  The ids of the accounts an answer shows, apart from the caller's own after a login; \<open>renders\<close>: a reply
  carries tokens or shows accounts only if the response of the use case does.
\<close>

primrec reveals :: "uuid_lib \<Rightarrow> reply \<Rightarrow> string set" where
  "reveals U (HttpReply c) = (case gc_body c of
      UserBody out \<Rightarrow> {uuid_String U (out_id out)}
    | UsersBody us \<Rightarrow> (\<lambda>out. uuid_String U (out_id out)) ` set (list_items us)
    | _ \<Rightarrow> {})"
| "reveals U (GrpcReply r) = (case r of
      Reply m \<Rightarrow> (case m of UserResponse u \<Rightarrow> {pb_id u} | ListUsersResponse us p \<Rightarrow> pb_id ` set us | _ \<Rightarrow> {})
    | _ \<Rightarrow> {})"

definition told :: "uuid_lib \<Rightarrow> response \<Rightarrow> string set" where
  "told U rs = (case rs of
      Profile (Inr out) \<Rightarrow> {uuid_String U (out_id out)}
    | Users (Inr us) \<Rightarrow> (\<lambda>out. uuid_String U (out_id out)) ` set (list_items us)
    | _ \<Rightarrow> {})"

definition renders :: "uuid_lib \<Rightarrow> (response \<Rightarrow> reply) \<Rightarrow> bool" where
  "renders U f \<longleftrightarrow> (\<forall>rs. (rewarded (f rs) \<longrightarrow> answers_tokens rs) \<and> reveals U (f rs) \<subseteq> told U rs)"

definition bare :: "uuid_lib \<Rightarrow> reply \<Rightarrow> bool" where
  "bare U x \<longleftrightarrow> \<not> rewarded x \<and> reveals U x = {}"

definition won :: "('r, 't, 'a, 'l) connection \<Rightarrow> bool" where
  "won c \<longleftrightarrow> (case cn_rest c of Ret x \<Rightarrow> rewarded x | Act _ \<Rightarrow> False)"

text \<open>
  \<open>vouched\<close>: since the connection arrived its bearer token was found valid. \<open>allowed\<close>: the connection
  may run the use case \<open>rq\<close>.
\<close>

definition vouched :: "('r, 't, 'a, 'l) frontend \<Rightarrow> arrival \<Rightarrow> gen \<Rightarrow> gen \<Rightarrow> access_token_claims \<Rightarrow> bool" where
  "vouched F q since now cl \<longleftrightarrow> (\<exists>tok g g'. carries q tok \<and> gen_later since g \<and> gen_later g now \<and>
     ValidateAccessToken (he_tokens (fe_env F)) tok g = (Inr cl, g'))"

definition allowed :: "('r, 't, 'a, 'l) frontend \<Rightarrow> arrival \<Rightarrow> gen \<Rightarrow> gen \<Rightarrow> request \<Rightarrow> bool" where
  "allowed F q since now rq \<longleftrightarrow> (\<forall>tok. presents F tok q \<longrightarrow> refreshes tok rq) \<and>
     (public_request rq \<or> (\<exists>cl. acts_as rq cl \<and> vouched F q since now cl))"

lemma vouched_later: "vouched F q since g cl \<Longrightarrow> gen_later g g' \<Longrightarrow> vouched F q since g' cl"
  unfolding vouched_def using gen_later_trans by blast

lemma allowed_later: "allowed F q since g rq \<Longrightarrow> gen_later g g' \<Longrightarrow> allowed F q since g' rq"
  unfolding allowed_def using vouched_later by blast

subsection \<open>Middleware\<close>

text \<open>
  A step in front of the use case: a reading of the clock, the lookup of an account, or a command to
  Redis that leaves no key behind. \<open>fronted\<close>: a process that makes such steps and then ends without
  tokens or data, or runs a use case it is allowed to.
\<close>

definition front_step :: "'r user_repository \<Rightarrow> ('t \<Rightarrow> 't \<Rightarrow> bool) \<Rightarrow> ('r, 't, 'a) world \<Rightarrow> ('r, 't, 'a) world \<Rightarrow> bool" where
  "front_step R env w w' \<longleftrightarrow>
     (\<exists>n \<ge> clock_pos (sources w). w' = w\<lparr>sources := (sources w)\<lparr>clock_pos := n\<rparr>\<rparr>) \<or>
     (\<exists>i. w' = snd (on_repo (FindByID R i) w)) \<or>
     (\<exists>t. env (tokens w) t \<and> w' = w\<lparr>tokens := t\<rparr>)"

inductive fronted ::
  "('r, 't, 'a, 'l) frontend \<Rightarrow> ('t \<Rightarrow> 't \<Rightarrow> bool) \<Rightarrow> arrival \<Rightarrow> gen \<Rightarrow> gen \<Rightarrow> (('r, 't, 'a, 'l) server, reply) proc \<Rightarrow> bool"
  for F env q since where
  ends: "bare (he_uuid (fe_env F)) x \<Longrightarrow> fronted F env q since g (Ret x)"
| step: "(\<And>s p s'. gen_later g (sources (srv_world s)) \<Longrightarrow> f s = (p, s') \<Longrightarrow>
      front_step (he_repo (fe_env F)) env (srv_world s) (srv_world s') \<and> fronted F env q since (sources (srv_world s')) p) \<Longrightarrow>
    fronted F env q since g (Act f)"
| run: "allowed F q since g rq \<Longrightarrow> renders (he_uuid (fe_env F)) render \<Longrightarrow>
    fronted F env q since g (map_proc render (within
      (serve_proc (fe_lower F) (he_repo (fe_env F)) (fe_hasher F) (he_tokens (fe_env F)) (fe_audit F) rq)))"

lemma fronted_later:
  assumes "fronted F env q since g p" "gen_later g g'"
  shows "fronted F env q since g' p"
  using assms(1)
proof cases
  case (step f)
  show ?thesis unfolding step(1)
    by (rule fronted.step) (rule step(2) [OF gen_later_trans [OF assms(2)]])
next
  case (run rq render)
  show ?thesis unfolding run(1) by (rule fronted.run [OF allowed_later [OF run(2) assms(2)] run(3)])
qed (simp add: fronted.ends)

lemma fronted_call:
  assumes "\<And>s x s'. gen_later g (sources (srv_world s)) \<Longrightarrow> op s = (x, s') \<Longrightarrow>
    front_step (he_repo (fe_env F)) env (srv_world s) (srv_world s') \<and> fronted F env q since (sources (srv_world s')) (k x)"
  shows "fronted F env q since g (call op k)"
  unfolding call_def by (rule fronted.step) (use assms in \<open>auto split: prod.splits\<close>)

lemma map_call [simp]: "map_proc h (call op k) = call op (\<lambda>x. map_proc h (k x))"
  by (simp add: call_def fun_eq_iff split: prod.splits)

lemma within_call [simp]: "within (call op k) = call (on_world op) (\<lambda>x. within (k x))"
  by (simp add: call_def fun_eq_iff on_world_def split: prod.splits)

lemma front_clock:
  "clock_pos (sources w) \<le> n \<Longrightarrow> front_step R env w (w\<lparr>sources := (sources w)\<lparr>clock_pos := n\<rparr>\<rparr>)"
  by (auto simp: front_step_def)

text \<open>The two sides of middleware: it advances the sources, and a process may be resumed at any later time.\<close>

lemma front_later: "front_step R env w w' \<Longrightarrow> gen_later (sources w) (sources w')"
  unfolding front_step_def by (elim disjE exE conjE) (simp_all add: gen_later_def on_repo_def case_prod_beta)

lemma front_call:
  assumes "\<And>s x s'. gen_later g (sources (srv_world s)) \<Longrightarrow> op s = (x, s') \<Longrightarrow>
      front_step (he_repo (fe_env F)) env (srv_world s) (srv_world s')"
    and "\<And>s x s' g'. gen_later g (sources (srv_world s)) \<Longrightarrow> op s = (x, s') \<Longrightarrow> gen_later g g' \<Longrightarrow>
      gen_later (sources (srv_world s)) g' \<Longrightarrow> fronted F env q since g' (k x)"
  shows "fronted F env q since g (call op k)"
  using assms front_later gen_later_trans by (blast intro: fronted_call)

definition ticks :: "(gen \<Rightarrow> 'x \<times> gen) \<Rightarrow> bool" where
  "ticks f \<longleftrightarrow> (\<forall>g. \<exists>n \<ge> clock_pos g. snd (f g) = g\<lparr>clock_pos := n\<rparr>)"

lemma ticks_time_now: "ticks time_now"
  unfolding ticks_def time_now_def by (metis le_SucI order_refl snd_conv)

lemma gen_call:
  assumes "ticks f"
    "\<And>g0 x g' . gen_later g g0 \<Longrightarrow> fst (f g0) = x \<Longrightarrow> gen_later g0 g' \<Longrightarrow> fronted F env q since g' (k x)"
  shows "fronted F env q since g (call (on_world (on_gen f)) k)"
proof (rule front_call, goal_cases)
  case (1 s x s')
  moreover obtain n where "clock_pos (sources (srv_world s)) \<le> n" "snd (f (sources (srv_world s))) = (sources (srv_world s))\<lparr>clock_pos := n\<rparr>"
    using assms(1) unfolding ticks_def by blast
  ultimately show ?case
    using front_clock [of "srv_world s" n] by (auto simp: on_world_def on_gen_def split: prod.splits)
next
  case (2 s x s' g')
  then show ?case
    using assms(2) [of "sources (srv_world s)" x g'] by (auto simp: on_world_def on_gen_def split: prod.splits)
qed

lemma limiter_call:
  assumes "\<And>g l x g' l'. f (g, l) = (x, g', l') \<Longrightarrow> g' = g\<lparr>clock_pos := Suc (clock_pos g)\<rparr>"
    "\<And>x g'. gen_later g g' \<Longrightarrow> fronted F env q since g' (k x)"
  shows "fronted F env q since g (call (on_limiter slot f) k)"
proof (rule front_call, goal_cases)
  case (1 s x s')
  then show ?case
    using assms(1) front_clock [of "srv_world s" "Suc (clock_pos (sources (srv_world s)))"]
    by (fastforce simp: on_limiter_def split: prod.splits)
qed (use assms(2) in blast)

lemma lookup_call:
  assumes "R = he_repo (fe_env F)" "\<And>x g'. gen_later g g' \<Longrightarrow> fronted F env q since g' (k x)"
  shows "fronted F env q since g (call (on_world (active_lookup R i)) k)"
proof (rule front_call, goal_cases)
  case (1 s x s')
  then have "srv_world s' = snd (on_repo (FindByID R i) (srv_world s))"
    by (auto simp: on_world_def active_lookup_def split: prod.splits sum.splits)
  then show ?case using assms(1) by (auto simp: front_step_def)
qed (use assms(2) in blast)

lemma ping_call:
  assumes "\<And>w. front_step (he_repo (fe_env F)) env w (snd (ping w))" "\<And>x g'. gen_later g g' \<Longrightarrow> fronted F env q since g' (k x)"
  shows "fronted F env q since g (call (on_world ping) k)"
proof (rule front_call, goal_cases)
  case (1 s x s')
  then show ?case using assms(1) [of "srv_world s"] by (auto simp: on_world_def split: prod.splits)
qed (use assms(2) in blast)

subsection \<open>The middleware of HTTP\<close>

abbreviation fronted_http ::
  "('r, 't, 'a, 'l) frontend \<Rightarrow> ('t \<Rightarrow> 't \<Rightarrow> bool) \<Rightarrow> arrival \<Rightarrow> gen \<Rightarrow> gen \<Rightarrow> (('r, 't, 'a, 'l) server, gin_context) proc \<Rightarrow> bool" where
  "fronted_http F env q since g p \<equiv> fronted F env q since g (map_proc HttpReply p)"

definition plain :: "gin_context \<Rightarrow> bool" where
  "plain c \<longleftrightarrow> (\<forall>U. bare U (HttpReply c))"

lemma plain_JSON [simp]:
  "plain (gin_JSON code (ErrorBody m) c)" "plain (gin_JSON code (TextBody m) c)" "plain (gin_JSON code (StatusBody m x) c)"
  "plain (gin_panic c)" "plain (fail_with e c)" "plain (c\<lparr>gc_status := code\<rparr>) \<longleftrightarrow> plain c"
  by (simp_all add: plain_def bare_def gin_JSON_def gin_panic_def fail_with_def)

lemma fronted_plain: "plain c \<Longrightarrow> fronted F env q since g (Ret (HttpReply c))"
  by (simp add: plain_def fronted.ends)

lemma limited_fronted:
  assumes "\<And>g'. gen_later g g' \<Longrightarrow> fronted_http F env q since g' (next c)"
  shows "fronted_http F env q since g (limited_proc G L slot key next c)"
  unfolding limited_proc_def map_call
proof (rule limiter_call, goal_cases)
  case (2 x g1)
  show ?case
  proof (rule limiter_call, goal_cases)
    case (2 ok g2)
    then have "gen_later g g2" using \<open>gen_later g g1\<close> gen_later_trans by blast
    then show ?case using assms by (auto intro!: gen_call [OF ticks_time_now] fronted_plain)
  qed (auto simp: limiter_allow_def time_now_def split: prod.splits)
qed (auto simp: kl_get_def time_now_def split: prod.splits)

lemma rate_limits_fronted:
  assumes "\<And>g'. gen_later g g' \<Longrightarrow> fronted_http F env q since g' (next c)"
  shows "fronted_http F env q since g (RateLimit_proc G L slot next c)"
    and "fronted_http F env q since g (UserRateLimit_proc G U L slot next c)"
  using assms by (auto simp: RateLimit_proc_def UserRateLimit_proc_def split: option.splits intro!: limited_fronted)

lemma require_auth_fronted:
  assumes "R = he_repo (fe_env F)" "T = he_tokens (fe_env F)" "\<And>tok. ticks (ValidateAccessToken T tok)"
    and "q = Http (gc_request c)" "gen_later since g"
    and "\<And>cl g'. gen_later g g' \<Longrightarrow> vouched F q since g' cl \<Longrightarrow> fronted_http F env q since g' (next (c\<lparr>gc_user := Some cl\<rparr>))"
  shows "fronted_http F env q since g (RequireAuth_proc T R next c)"
proof (cases "has_prefix (gin_GetHeader ''Authorization'' c) ''Bearer ''")
  case False
  then show ?thesis by (simp add: RequireAuth_proc_def Let_def fronted_plain)
next
  case True
  then obtain tok where tok: "gin_GetHeader ''Authorization'' c = ''Bearer '' @ tok"
    by (auto simp: has_prefix_def starts_with_iff)
  then have h: "carries q tok"
    using assms(4) by (auto simp: gin_GetHeader_def or_empty_def split: option.splits)
  have trim: "trim_prefix (gin_GetHeader ''Authorization'' c) ''Bearer '' = tok"
    unfolding tok by (rule trim_prefix_append)
  have v: "vouched F q since g' cl" if "gen_later g g0" "gen_later g0 g1" "fst (ValidateAccessToken T tok g0) = Inr cl" "gen_later g1 g'" for g0 g1 g' cl
    using h that(3) gen_later_trans [OF assms(5) that(1)] gen_later_trans [OF that(2,4)] assms(2)
    unfolding vouched_def by (metis prod.collapse)
  have l: "gen_later g g'" if "gen_later g g0" "gen_later g0 g1" "gen_later g1 g'" for g0 g1 g'
    using that gen_later_trans by blast
  show ?thesis
    unfolding RequireAuth_proc_def Let_def
    by (auto simp: True trim intro!: gen_call [OF assms(3)] lookup_call [OF assms(1)] assms(6) fronted_plain
        split: sum.splits) (erule (2) l, erule (3) v)
qed

text \<open>What a reader reads is a request of the application the connection may make.\<close>

lemma handler_fronted:
  assumes "R = he_repo (fe_env F)" "T = he_tokens (fe_env F)" "lo = fe_lower F" "H = fe_hasher F" "A = fe_audit F"
    and "\<And>rq. rd c = Inr rq \<Longrightarrow> allowed F q since g rq" and "\<And>c'. rd c = Inl c' \<Longrightarrow> plain c'"
  shows "fronted_http F env q since g (handler_proc lo R H T A rd c)"
proof (cases "rd c")
  case (Inl c')
  then show ?thesis using assms(7) by (simp add: handler_proc_def fronted_plain)
next
  case (Inr rq)
  have "renders U (\<lambda>rs. HttpReply (case http_reply rq rs of (code, body) \<Rightarrow> gin_JSON code body c))" for U
    by (auto simp: renders_def told_def http_reply_def answers_tokens_def gin_JSON_def error_reply_def
        split: response.splits sum.splits if_splits)
  then have "fronted F env q since g (map_proc (\<lambda>rs. HttpReply (case http_reply rq rs of (code, body) \<Rightarrow> gin_JSON code body c))
      (within (serve_proc lo R H T A rq)))"
    unfolding assms(1-5) by (rule fronted.run [OF assms(6) [OF Inr]])
  then show ?thesis by (simp add: handler_proc_def use_case_proc_def Inr proc.map_comp comp_def del: serve_proc.simps)
qed

lemma readers_plain:
  "read_Register G c = Inl c' \<Longrightarrow> plain c'" "read_Login G c = Inl c' \<Longrightarrow> plain c'" "read_Refresh G c = Inl c' \<Longrightarrow> plain c'"
  "read_GetMe c = Inl c' \<Longrightarrow> plain c'" "read_GetUser U c = Inl c' \<Longrightarrow> plain c'" "read_ListUsers c = Inl c' \<Longrightarrow> plain c'"
  "read_UpdateMe G c = Inl c' \<Longrightarrow> plain c'" "read_ChangePassword G c = Inl c' \<Longrightarrow> plain c'"
  "read_ChangeRole G U c = Inl c' \<Longrightarrow> plain c'"
  by (auto simp: read_Register_def read_Login_def read_Refresh_def read_GetMe_def read_GetUser_def read_ListUsers_def
      read_UpdateMe_def read_ChangePassword_def read_ChangeRole_def claimed_def read_body_def
      split: sum.splits option.splits if_splits)

lemma readers_public:
  "read_Register G c = Inr rq \<Longrightarrow> public_request rq" "read_Login G c = Inr rq \<Longrightarrow> public_request rq"
  "read_Refresh G c = Inr rq \<Longrightarrow> public_request rq \<and> (gin_bind G [''refresh_token''] (rq_body (gc_request c)) = Inr [tok] \<longrightarrow> refreshes tok rq)"
  by (auto simp: read_Register_def read_Login_def read_Refresh_def read_body_def refreshes_def split: sum.splits)

lemma readers_act_as:
  "read_GetMe c = Inr rq \<Longrightarrow> \<exists>cl. gc_user c = Some cl \<and> acts_as rq cl"
  "read_GetUser U c = Inr rq \<Longrightarrow> \<exists>cl. gc_user c = Some cl \<and> acts_as rq cl"
  "read_ListUsers c = Inr rq \<Longrightarrow> \<exists>cl. gc_user c = Some cl \<and> acts_as rq cl"
  "read_UpdateMe G c = Inr rq \<Longrightarrow> \<exists>cl. gc_user c = Some cl \<and> acts_as rq cl"
  "read_ChangePassword G c = Inr rq \<Longrightarrow> \<exists>cl. gc_user c = Some cl \<and> acts_as rq cl"
  "read_ChangeRole G U c = Inr rq \<Longrightarrow> \<exists>cl. gc_user c = Some cl \<and> acts_as rq cl"
  by (auto simp: read_GetMe_def read_GetUser_def read_ListUsers_def read_UpdateMe_def read_ChangePassword_def
      read_ChangeRole_def claimed_def read_body_def GetClaims_def split: sum.splits option.splits if_splits)

subsection \<open>Every route, and gRPC\<close>

text \<open>
  What the two servers rely on: gin routes to a route it was given, the check of a token only reads
  the clock, a ping is a step in front of the use case.
\<close>

definition front_laws ::
  "gin_lib \<Rightarrow> 't token_service \<Rightarrow> 'r user_repository \<Rightarrow> ('t \<Rightarrow> 't \<Rightarrow> bool) \<Rightarrow> ('r, 't, 'a) pinger \<Rightarrow> ('r, 't, 'a) pinger option \<Rightarrow> bool" where
  "front_laws G T R env redis db \<longleftrightarrow> gin_laws G \<and> (\<forall>tok. ticks (ValidateAccessToken T tok)) \<and>
     (\<forall>w. front_step R env w (snd (redis w))) \<and> (\<forall>ping. db = Some ping \<longrightarrow> (\<forall>w. front_step R env w (snd (ping w))))"

lemma main_frontend_simps:
  assumes "F = main_frontend G U L fmt lo R H T A redis db origins"
  shows "fe_env F = main_router G U L lo R H T A redis db origins" "fe_format F = fmt" "fe_lower F = lo"
    "fe_hasher F = H" "fe_audit F = A" "he_repo (fe_env F) = R" "he_tokens (fe_env F) = T" "he_gin (fe_env F) = G"
    "he_uuid (fe_env F) = U" "he_rate (fe_env F) = L" "he_health (fe_env F) = \<lparr>hh_redis = redis, hh_database = db\<rparr>"
  by (simp_all add: assms main_frontend_def main_router_def)

lemma ready_fronted:
  assumes "\<And>w. front_step (he_repo (fe_env F)) env w (snd (hh_redis h w))"
    "\<And>ping w. hh_database h = Some ping \<Longrightarrow> front_step (he_repo (fe_env F)) env w (snd (ping w))"
  shows "fronted_http F env q since g (health_Ready_proc h c)"
  unfolding health_Ready_proc_def Let_def
  by (cases "hh_database h") (auto intro!: ping_call assms fronted_plain)

lemma limited_route:
  assumes "F = main_frontend G U L fmt lo R H T A redis db origins" "\<And>c'. rd c = Inl c' \<Longrightarrow> plain c'"
    "\<And>rq. rd c = Inr rq \<Longrightarrow> public_request rq \<and> (\<forall>tok. presents F tok q \<longrightarrow> refreshes tok rq)"
  shows "fronted_http F env q since g (RateLimit_proc G L AuthLimit (handler_proc lo R H T A rd) c)"
  by (rule rate_limits_fronted handler_fronted)+
    (use assms(2,3) in \<open>simp_all add: main_frontend_simps(2-) [OF assms(1)] allowed_def del: presents.simps\<close>)

lemma guarded_route:
  assumes "F = main_frontend G U L fmt lo R H T A redis db origins" "\<And>tok. ticks (ValidateAccessToken T tok)"
    "gen_later since g" "q = Http (gc_request c)" "\<And>tok. \<not> presents F tok q"
    "\<And>c c'. rd c = Inl c' \<Longrightarrow> plain c'" "\<And>c rq. rd c = Inr rq \<Longrightarrow> \<exists>cl. gc_user c = Some cl \<and> acts_as rq cl"
  shows "fronted_http F env q since g (RequireAuth_proc T R (handler_proc lo R H T A rd) c)"
    and "fronted_http F env q since g (RequireAuth_proc T R (UserRateLimit_proc G U L slot (handler_proc lo R H T A rd)) c)"
proof -
  note E = main_frontend_simps(2-) [OF assms(1)]
  have run: "fronted_http F env q since g' (handler_proc lo R H T A rd (c\<lparr>gc_user := Some cl\<rparr>))" if v: "vouched F q since g' cl" for cl g'
  proof (rule handler_fronted)
    fix rq assume "rd (c\<lparr>gc_user := Some cl\<rparr>) = Inr rq"
    then have "acts_as rq cl" using assms(7) by fastforce
    then show "allowed F q since g' rq" using v assms(5) by (auto simp: allowed_def simp del: presents.simps)
  qed (use assms(6) in \<open>simp_all add: E\<close>)
  note auth = require_auth_fronted [where R = R and T = T, OF _ _ assms(2,4,3)]
  show "fronted_http F env q since g (RequireAuth_proc T R (handler_proc lo R H T A rd) c)"
    by (rule auth) (simp_all add: E run)
  show "fronted_http F env q since g (RequireAuth_proc T R (UserRateLimit_proc G U L slot (handler_proc lo R H T A rd)) c)"
    by (rule auth) (auto simp: E intro!: rate_limits_fronted intro: run vouched_later)
qed

lemma routes_fronted:
  assumes F: "F = main_frontend G U L fmt lo R H T A redis db origins" and "front_laws G T R env redis db"
  shows "list_all2 (\<lambda>r h. \<forall>c g. gen_later since g \<longrightarrow> q = Http (gc_request c) \<longrightarrow>
      (\<forall>tok. presents F tok q \<longrightarrow> fst (snd r) = ''/v1/auth/refresh'' \<and> gin_bind G [''refresh_token''] (rq_body (gc_request c)) = Inr [tok]) \<longrightarrow>
      fronted_http F env q since g (h c)) (routes (fe_env F)) (route_procs lo H A (fe_env F))"
proof -
  note laws = assms(2) [unfolded front_laws_def] and E = main_frontend_simps [OF F]
  have "fronted_http F env q since g (health_Ready_proc (he_health (fe_env F)) c)" for q since g c
    by (rule ready_fronted) (use laws in \<open>simp_all add: E(2-)\<close>)
  then show ?thesis
    unfolding routes_def route_procs_def Let_def E(6-10) using laws
    by (auto simp del: presents.simps intro!: fronted_plain limited_route [OF F] guarded_route [OF F]
       intro: readers_plain dest: readers_act_as readers_public)
qed

lemma http_fronted:
  assumes F: "F = main_frontend G U L fmt lo R H T A redis db origins" and laws: "front_laws G T R env redis db" and g: "gen_later since g"
  shows "fronted_http F env (Http rq) since g (http_proc lo H A (fe_env F) rq)"
proof -
  note E = main_frontend_simps [OF F]
  have request: "gc_request (prepared (fe_env F) c) = gc_request c" for c
    by (simp add: prepared_def security_headers_def gin_Header_def Let_def)
  have chain: "fronted_http F env (Http rq) since g (gin_chain_proc (fe_env F) h c)"
    if "gc_body c = NoBody" "\<And>g'. gen_later g g' \<Longrightarrow> fronted_http F env (Http rq) since g' (h (prepared (fe_env F) c))" for h c
  proof -
    have "gc_body (prepared (fe_env F) c) = NoBody"
      using that(1) by (simp add: prepared_def security_headers_def gin_Header_def Let_def)
    then have "plain ((prepared (fe_env F) c)\<lparr>gc_status := 204\<rparr>)" by (simp add: plain_def bare_def)
    then show ?thesis using that(2)
      by (auto simp: gin_chain_proc_def simp del: plain_JSON intro!: rate_limits_fronted fronted_plain)
  qed
  let ?c = "\<lparr>gc_request = rq, gc_params = [], gc_user = None, gc_status = 200, gc_header = [], gc_body = NoBody\<rparr>"
  show ?thesis
  proof (cases "gin_route G (map (\<lambda>(m, p, _). (m, p)) (routes (fe_env F))) (rq_method rq) (rq_path rq)")
    case (Redirected code loc)
    then show ?thesis by (simp add: http_proc_def E(8) plain_def bare_def fronted_plain Let_def)
  next
    case (Matched i ps)
    then have i: "i < length (routes (fe_env F))" using laws unfolding front_laws_def gin_laws_def by fastforce
    have m: "fst (snd (routes (fe_env F) ! i)) = ''/v1/auth/refresh'' \<and> gin_bind G [''refresh_token''] (rq_body rq) = Inr [tok]"
      if "presents F tok (Http rq)" for tok
      using that Matched by (simp add: E(8))
    have "fronted_http F env (Http rq) since g' ((route_procs lo H A (fe_env F) ! i) c)" if "gc_request c = rq" "gen_later g g'" for c g'
      by (rule list_all2_nthD [OF routes_fronted [OF F laws, of since "Http rq"] i, rule_format])
        (use m gen_later_trans [OF g that(2)] in \<open>simp_all add: that(1) del: presents.simps\<close>)
    then show ?thesis using Matched chain [of "?c\<lparr>gc_params := ps\<rparr>" "route_procs lo H A (fe_env F) ! i"] request [of "?c\<lparr>gc_params := ps\<rparr>"]
      by (simp add: http_proc_def E(8) Let_def)
  next
    case Unmatched
    then show ?thesis using chain [of ?c "\<lambda>c. Ret (gin_JSON 404 (TextBody ''404 page not found'') c)"]
      by (simp add: http_proc_def E(8) Let_def fronted_plain)
  qed
qed

text \<open>The interceptor admits the caller the token names; the message becomes a request of the application.\<close>

definition grpc_caller :: "access_token_claims \<Rightarrow> authenticated_caller" where
  "grpc_caller cl = \<lparr>caller_ID = claim_user_id cl, caller_Role = claim_role cl\<rparr>"

lemma read_message_public:
  assumes "full_method m \<notin> set methodsRequiringAuth" "read_message U None m = Inr rq"
  shows "public_request rq \<and> (\<forall>tok. m = RefreshTokenRequest tok \<longrightarrow> refreshes tok rq)"
  using assms by (cases m) (auto simp: with_grpc_caller_def refreshes_def)

lemma read_message_acts:
  assumes "full_method m \<in> set methodsRequiringAuth" "read_message U (Some (grpc_caller cl)) m = Inr rq"
  shows "acts_as rq cl"
  using assms by (cases m) (auto simp: with_grpc_caller_def grpc_caller_def methodsRequiringAuth_def split: if_splits option.splits sum.splits)

lemma read_message_plain: "read_message U caller m = Inl res \<Longrightarrow> bare V (GrpcReply res)"
  by (cases m; cases caller) (auto simp: bare_def with_grpc_caller_def split: if_splits option.splits sum.splits)

abbreviation fronted_grpc ::
  "('r, 't, 'a, 'l) frontend \<Rightarrow> ('t \<Rightarrow> 't \<Rightarrow> bool) \<Rightarrow> arrival \<Rightarrow> gen \<Rightarrow> gen \<Rightarrow> (('r, 't, 'a) world, grpc_result) proc \<Rightarrow> bool" where
  "fronted_grpc F env q since g p \<equiv> fronted F env q since g (map_proc GrpcReply (within p))"

lemma message_fronted:
  assumes "U = he_uuid (fe_env F)" and "\<And>rq. read_message U caller m = Inr rq \<Longrightarrow> allowed F q since g rq"
  shows "fronted_grpc F env q since g (case read_message U caller m of
      Inl res \<Rightarrow> Ret res
    | Inr rq \<Rightarrow> map_proc (grpc_reply U fmt) (serve_proc (fe_lower F) (he_repo (fe_env F)) (fe_hasher F) (he_tokens (fe_env F)) (fe_audit F) rq))"
proof (cases "read_message U caller m")
  case (Inl res)
  then show ?thesis using read_message_plain [OF Inl] by (simp add: fronted.ends)
next
  case (Inr rq)
  have "renders U (\<lambda>rs. GrpcReply (grpc_reply U fmt rs))"
    by (auto simp: renders_def told_def grpc_reply_def answers_tokens_def toStatus_def toUserResponse_def toAuthResponse_def
        split: response.splits sum.splits if_splits)
  then have "fronted F env q since g (map_proc (\<lambda>rs. GrpcReply (grpc_reply U fmt rs)) (within
      (serve_proc (fe_lower F) (he_repo (fe_env F)) (fe_hasher F) (he_tokens (fe_env F)) (fe_audit F) rq)))"
    unfolding assms(1) by (rule fronted.run [OF assms(2) [OF Inr]])
  then show ?thesis by (simp add: Inr within_map proc.map_comp comp_def del: serve_proc.simps)
qed

lemma caller_fronted:
  assumes "R = he_repo (fe_env F)" "T = he_tokens (fe_env F)" "\<And>tok. ticks (ValidateAccessToken T tok)"
    and "q = Grpc cl" "gen_later since g"
    and "\<And>claims g'. gen_later g g' \<Longrightarrow> vouched F q since g' claims \<Longrightarrow> fronted_grpc F env q since g' (handler (grpc_caller claims))"
  shows "fronted_grpc F env q since g (caller_proc T R (gr_metadata cl) handler)"
proof -
  have plain: "fronted F env q since g' (Ret (GrpcReply (Status code m)))" "fronted F env q since g' (Ret (GrpcReply Crash))" for g' code m
    by (simp_all add: fronted.ends bare_def)
  show ?thesis
  proof (cases "\<exists>md vs tok. gr_metadata cl = Some md \<and> map_of md ''authorization'' = Some ((''Bearer '' @ tok) # vs)")
    case False
    then show ?thesis 
      by (auto simp: caller_proc_def Let_def plain has_prefix_def starts_with_iff neq_Nil_conv split: option.splits)
  next
    case True
    then obtain md vs tok where md: "gr_metadata cl = Some md" "map_of md ''authorization'' = Some ((''Bearer '' @ tok) # vs)" by blast
    then have h: "carries q tok" by (simp add: assms(4))
    have trim: "trim_prefix (''Bearer '' @ tok) ''Bearer '' = tok" "has_prefix (''Bearer '' @ tok) ''Bearer ''"
      by (rule trim_prefix_append, rule has_prefix_append)
    have v: "vouched F q since g' claims" if "gen_later g g0" "gen_later g0 g1" "fst (ValidateAccessToken T tok g0) = Inr claims" "gen_later g1 g'" for g0 g1 g' claims
      using h that(3) gen_later_trans [OF assms(5) that(1)] gen_later_trans [OF that(2,4)] assms(2)
      unfolding vouched_def by (metis prod.collapse)
    have l: "gen_later g g'" if "gen_later g g0" "gen_later g0 g1" "gen_later g1 g'" for g0 g1 g'
      using that gen_later_trans by blast
    show ?thesis
      unfolding caller_proc_def md Let_def option.case list.sel trim
      by (auto simp: plain simp flip: grpc_caller_def intro!: gen_call [OF assms(3)] lookup_call [OF assms(1)] assms(6)
          split: sum.splits) (erule (2) l, erule (3) v)
  qed
qed

lemma grpc_fronted:
  assumes F: "F = main_frontend G U L fmt lo R H T A redis db origins" and laws: "front_laws G T R env redis db" and g: "gen_later since g"
  shows "fronted_grpc F env (Grpc cl) since g (grpc_proc U fmt lo R H T A cl)"
proof -
  note E = main_frontend_simps(2-) [OF F]
  note message = message_fronted [of U F, unfolded E, OF refl]
  have ticks: "ticks (ValidateAccessToken T tok)" for tok using laws by (simp add: front_laws_def)
  show ?thesis
  proof (cases "full_method (gr_message cl) \<in> set methodsRequiringAuth")
    case False
    then show ?thesis using read_message_public [OF False] 
      by (auto simp: grpc_proc_def Let_def allowed_def intro!: message)
  next
    case True
    have "\<forall>tok. gr_message cl \<noteq> RefreshTokenRequest tok" using True by (auto simp: methodsRequiringAuth_def)
    then have a: "allowed F (Grpc cl) since g' rq"
      if "vouched F (Grpc cl) since g' claims" "read_message U (Some (grpc_caller claims)) (gr_message cl) = Inr rq" for g' rq claims
      using that read_message_acts [OF True] by (auto simp: allowed_def)
    show ?thesis
      using True by (simp add: grpc_proc_def Let_def) (rule caller_fronted [OF _ _ ticks refl g]; (simp add: E)?; rule message; erule (1) a)
  qed
qed

lemma arrival_fronted:
  assumes F: "F = main_frontend G U L fmt lo R H T A redis db origins" and laws: "front_laws G T R env redis db"
  shows "fronted F env q g g (arrival_proc F q)"
  using http_fronted [OF F laws, of g g] grpc_fronted [OF F laws, of g g]
  by (cases q) (simp_all add: main_frontend_simps(2-) [OF F])

end
