(* ===== verification/ServerTraffic.thy ===== *)
theory ServerTraffic
  imports ServerRuns
begin

section \<open>The traffic of both servers is a run of the application\<close>

text \<open>
  A simulation from the traffic of \<open>ServerRuns\<close> to the goroutines of \<open>ConcurrentRuns\<close>: a connection
  in its middleware has no goroutine there, one that runs its use case has one of its own. What holds of
  all runs of the application hence holds of both servers.
\<close>

subsection \<open>A simulation, lifted to runs\<close>

locale simulation =
  fixes step1 :: "'x \<Rightarrow> 'x \<Rightarrow> bool" and step2 :: "'y \<Rightarrow> 'y \<Rightarrow> bool" and sim :: "'x \<Rightarrow> 'y \<Rightarrow> bool"
  assumes sim_step: "sim a b \<Longrightarrow> step1 a a' \<Longrightarrow> \<exists>b'. step2\<^sup>*\<^sup>* b b' \<and> sim a' b'"

context simulation
begin

lemma sim_run: "step1\<^sup>*\<^sup>* a a' \<Longrightarrow> sim a b \<Longrightarrow> \<exists>b'. step2\<^sup>*\<^sup>* b b' \<and> sim a' b'"
proof (induction rule: rtranclp_induct)
  case (step a' a'')
  then obtain b' where b': "step2\<^sup>*\<^sup>* b b'" "sim a' b'" by blast
  from sim_step [OF b'(2) step.hyps(2)] obtain b'' where "step2\<^sup>*\<^sup>* b' b''" "sim a'' b''" by blast
  then show ?case using b'(1) rtranclp_trans by metis
qed blast

end

subsection \<open>The traffic is a run of the application\<close>

text \<open>
  \<open>serves\<close>: what is left of a connection is what is left of a goroutine of the application, rendered.
  \<open>matched\<close>: \<open>m\<close> gives every connection that is past its middleware a goroutine of its own.
\<close>

definition serves ::
  "('r, 't, 'a, 'l) frontend \<Rightarrow> gen \<Rightarrow> ('r, 't, 'a, 'l) connection \<Rightarrow> ('r, 't, 'a) world thread \<Rightarrow> bool" where
  "serves F g c th \<longleftrightarrow> allowed F (cn_arrival c) (cn_since c) g (th_request th) \<and>
     (\<exists>render. renders (he_uuid (fe_env F)) render \<and> cn_rest c = map_proc render (within (th_rest th)))"

definition matches ::
  "('r, 't, 'a, 'l) frontend \<Rightarrow> ('t \<Rightarrow> 't \<Rightarrow> bool) \<Rightarrow> gen \<Rightarrow> ('r, 't, 'a, 'l) connection \<Rightarrow>
   ('r, 't, 'a) world thread list \<Rightarrow> nat option \<Rightarrow> bool" where
  "matches F env g c ts x \<longleftrightarrow> (case x of
      None \<Rightarrow> fronted F env (cn_arrival c) (cn_since c) g (cn_rest c)
    | Some k \<Rightarrow> k < length ts \<and> serves F g c (ts ! k))"

definition matched ::
  "('r, 't, 'a, 'l) frontend \<Rightarrow> ('t \<Rightarrow> 't \<Rightarrow> bool) \<Rightarrow> gen \<Rightarrow> ('r, 't, 'a, 'l) connection list \<Rightarrow>
   ('r, 't, 'a) world thread list \<Rightarrow> (nat \<Rightarrow> nat option) \<Rightarrow> bool" where
  "matched F env g cs ts m \<longleftrightarrow> (\<forall>i < length cs. matches F env g (cs ! i) ts (m i)) \<and>
     (\<forall>i < length cs. \<forall>j < length cs. m i \<noteq> None \<longrightarrow> m i = m j \<longrightarrow> i = j)"

lemma matches_later: "matches F env g c ts x \<Longrightarrow> gen_later g g' \<Longrightarrow> matches F env g' c (ts @ extra) x"
  by (auto simp: matches_def serves_def nth_append split: option.splits intro: fronted_later allowed_later)

lemma matched_later: "matched F env g cs ts m \<Longrightarrow> gen_later g g' \<Longrightarrow> matched F env g' cs (ts @ extra) m"
  by (auto simp: matched_def intro: matches_later)

lemma matched_front:
  assumes "matched F env g cs ts m" "gen_later g g'" "i < length cs" "m i = None"
    "fronted F env (cn_arrival (cs ! i)) (cn_since (cs ! i)) g' p"
  shows "matched F env g' (cs[i := (cs ! i)\<lparr>cn_rest := p\<rparr>]) (ts @ extra) m"
proof -
  have "matches F env g' (cs[i := (cs ! i)\<lparr>cn_rest := p\<rparr>] ! j) (ts @ extra) (m j)" if j: "j < length cs" for j
  proof (cases "j = i")
    case True
    then show ?thesis using assms(3-5) by (simp add: matches_def)
  next
    case False
    then show ?thesis using assms(1) j matches_later [OF _ assms(2)] unfolding matched_def by (metis nth_list_update_neq)
  qed
  then show ?thesis using assms(1) unfolding matched_def length_list_update by blast
qed

lemma matched_serve:
  assumes "matched F env g cs ts m" "gen_later g g'" "i < length cs" "m i = Some k"
    "serves F g' ((cs ! i)\<lparr>cn_rest := p\<rparr>) th"
  shows "matched F env g' (cs[i := (cs ! i)\<lparr>cn_rest := p\<rparr>]) (ts[k := th]) m"
proof -
  have k: "k < length ts" using assms(1,3,4) by (fastforce simp: matched_def matches_def)
  have "matches F env g' (cs[i := (cs ! i)\<lparr>cn_rest := p\<rparr>] ! j) (ts[k := th]) (m j)" if j: "j < length cs" for j
  proof (cases "j = i")
    case True
    then show ?thesis using assms(3-5) k by (simp add: matches_def)
  next
    case False
    then have "m j \<noteq> Some k" using assms(1,3,4) j unfolding matched_def by (metis option.distinct(1))
    moreover have "matches F env g' (cs ! j) (ts @ []) (m j)"
      using assms(1) j matches_later [OF _ assms(2)] unfolding matched_def by blast
    ultimately show ?thesis using False by (auto simp: matches_def split: option.splits)
  qed
  then show ?thesis using assms(1) unfolding matched_def length_list_update by blast
qed

lemma matched_snoc:
  assumes "matched F env g cs ts m" "fronted F env (cn_arrival c) (cn_since c) g (cn_rest c)"
  shows "matched F env g (cs @ [c]) ts (m(length cs := None))"
proof -
  have "matches F env g ((cs @ [c]) ! i) ts ((m(length cs := None)) i)" if "i < Suc (length cs)" for i
    using assms that by (cases "i = length cs") (simp_all add: matched_def nth_append, simp add: matches_def)
  then show ?thesis using assms(1) by (simp add: matched_def less_Suc_eq) (metis less_irrefl)
qed

locale concurrent_servers = private_application R lo rinv view T tinv spent env H
  for R :: "'r user_repository" and lo :: "nat \<Rightarrow> nat"
    and rinv :: "heap \<times> 'r \<Rightarrow> bool" and view :: "heap \<times> 'r \<Rightarrow> uuid \<Rightarrow> user option"
    and T :: "'t token_service" and tinv :: "gen \<times> 't \<Rightarrow> bool"
    and spent :: "gen \<times> 't \<Rightarrow> string \<Rightarrow> bool" and env :: "'t \<Rightarrow> 't \<Rightarrow> bool"
    and H :: password_hasher +
  fixes F :: "('r, 't, 'a, 'l) frontend"
  assumes lower_law: "lower_laws lo"
    and main_law: "\<exists>G U L fmt A redis db origins. F = main_frontend G U L fmt lo R H T A redis db origins \<and>
      front_laws G T R env redis db"

context concurrent_servers
begin

abbreviation pool_run where "pool_run \<equiv> conc_run lo R H T (fe_audit F) env"

abbreviation sim :: "('r, 't, 'a, 'l) traffic \<Rightarrow> ('r, 't, 'a) pool \<Rightarrow> bool" where
  "sim t p \<equiv> fst p = srv_world (fst t) \<and> pool_ok p \<and> (\<exists>m. matched F env (sources (fst p)) (snd t) (snd p) m)"

lemma frontend: "fe_lower F = lo" "fe_hasher F = H" "he_repo (fe_env F) = R" "he_tokens (fe_env F) = T"
proof -
  obtain G U L fmt A redis db origins where "F = main_frontend G U L fmt lo R H T A redis db origins" using main_law by blast
  note E = main_frontend_simps [OF this]
  show "fe_lower F = lo" "fe_hasher F = H" "he_repo (fe_env F) = R" "he_tokens (fe_env F) = T" by (rule E)+
qed

lemma arrives: "fronted F env q g g (arrival_proc F q)"
proof -
  obtain G U L fmt A redis db origins where "F = main_frontend G U L fmt lo R H T A redis db origins"
      "front_laws G T R env redis db" using main_law by blast
  then show ?thesis by (rule arrival_fronted)
qed

lemma pool_run_ok:
  "pool_run p p' \<Longrightarrow> pool_ok p \<Longrightarrow> conc_moves rinv view tinv spent (fst p) (fst p') \<and> pool_ok p'"
  by (rule conc_run_ok [OF lower_law])

lemma pool_run_later: "pool_run p p' \<Longrightarrow> pool_ok p \<Longrightarrow> gen_later (sources (fst p)) (sources (fst p'))"
proof -
  assume "pool_run p p'" "pool_ok p"
  then have "evolves rinv view tinv spent (fst p) (fst p')" using pool_run_ok conc_moves_evolves by blast
  then show ?thesis by (simp add: evolves_def)
qed

lemma frame:
  assumes "sim (s, cs) p" "pool_run p (srv_world s', snd p @ extra)"
  shows "sim (s', cs) (srv_world s', snd p @ extra)"
proof -
  obtain m where m: "matched F env (sources (fst p)) cs (snd p) m" using assms(1) by auto
  have ok: "pool_ok p" using assms(1) by blast
  have "matched F env (sources (srv_world s')) cs (snd p @ extra) m"
    using matched_later [OF m] pool_run_later [OF assms(2) ok] by simp
  then show ?thesis using pool_run_ok [OF assms(2) ok] unfolding fst_conv snd_conv by blast
qed

text \<open>The steps of middleware are steps of the application: the lookup is that of a goroutine that reads the account.\<close>

lemma front_run:
  assumes "front_step R env w w'"
  shows "\<exists>extra. pool_run (w, ts) (w', ts @ extra)"
proof -
  consider (clock) n where "n \<ge> clock_pos (sources w)" "w' = w\<lparr>sources := (sources w)\<lparr>clock_pos := n\<rparr>\<rparr>"
    | (lookup) i where "w' = snd (on_repo (FindByID R i) w)" | (env) t where "env (tokens w) t" "w' = w\<lparr>tokens := t\<rparr>"
    using assms unfolding front_step_def by blast
  then show ?thesis
  proof cases
    case clock
    then show ?thesis using r_into_rtranclp [where r = "conc_step lo R H T (fe_audit F) env", OF conc_step.wait] by (metis append_Nil2)
  next
    case env
    then show ?thesis using r_into_rtranclp [where r = "conc_step lo R H T (fe_audit F) env", OF conc_step.change] by (metis append_Nil2)
  next
    case lookup
    let ?rq = "GetUser i RoleUser i"
    let ?th = "\<lparr>th_request = ?rq, th_begun = False, th_rest = serve_proc lo R H T (fe_audit F) ?rq\<rparr>"
    have "conc_step lo R H T (fe_audit F) env (w, ts) (w, ts @ [?th])"
      using conc_step.arrive [of lo R H T "fe_audit F" env "(w, ts)" ?rq] by (simp add: accept_def)
    moreover obtain p where "proc_step (th_rest ?th) w = (p, w')"
    proof -
      obtain x where "on_repo (FindByID R i) w = (x, w')" using lookup by (metis prod.collapse)
      then show thesis using that by (cases x) (simp_all add: get_user_proc_def call_def try_do_def)
    qed
    then have "advance (length ts) (w, ts @ [?th]) = (w', ts @ [?th\<lparr>th_begun := True, th_rest := p\<rparr>])"
      by (simp add: advance_def)
    then have "conc_step lo R H T (fe_audit F) env (w, ts @ [?th]) (w', ts @ [?th\<lparr>th_begun := True, th_rest := p\<rparr>])"
      using conc_step.move [of lo R H T "fe_audit F" env "(w, ts @ [?th])" "length ts"] by simp
    ultimately show ?thesis by (meson converse_rtranclp_into_rtranclp r_into_rtranclp)
  qed
qed

text \<open>A connection that is past its middleware moves as its goroutine does.\<close>

lemma serve_run:
  assumes "sim (s, cs) (w, ts)" "matched F env (sources w) cs ts m" "i < length cs" "m i = Some k"
  shows "k < length ts \<and> sim (serve_conn i (s, cs)) (advance k (w, ts))"
proof -
  have w: "w = srv_world s" and ok: "pool_ok (w, ts)" using assms(1) unfolding fst_conv by blast+
  have k: "k < length ts" and v: "serves F (sources w) (cs ! i) (ts ! k)"
    using assms(2-4) by (fastforce simp: matched_def matches_def)+
  obtain render where r: "renders (he_uuid (fe_env F)) render" "cn_rest (cs ! i) = map_proc render (within (th_rest (ts ! k)))"
    using v by (auto simp: serves_def)
  obtain p w' where p: "proc_step (th_rest (ts ! k)) w = (p, w')" by fastforce
  let ?th = "(ts ! k)\<lparr>th_begun := True, th_rest := p\<rparr>"
  have a: "advance k (w, ts) = (w', ts[k := ?th])" using k p by (simp add: advance_def)
  have c: "serve_conn i (s, cs) = (s\<lparr>srv_world := w'\<rparr>, cs[i := (cs ! i)\<lparr>cn_rest := map_proc render (within p)\<rparr>])"
    using assms(3) p w by (simp add: serve_conn_def r(2) proc_step_within)
  have m: "pool_run (w, ts) (advance k (w, ts))" by (rule r_into_rtranclp) (rule conc_step.move)
  have l: "gen_later (sources w) (sources w')" using pool_run_later [OF m ok] a by simp
  have "serves F (sources w') ((cs ! i)\<lparr>cn_rest := map_proc render (within p)\<rparr>) ?th"
    using v r(1) allowed_later [OF _ l] by (auto simp: serves_def)
  note matched_serve [OF assms(2) l assms(3,4) this]
  moreover have "w' = srv_world (s\<lparr>srv_world := w'\<rparr>)" by simp
  ultimately show ?thesis
    using k pool_run_ok [OF m ok] unfolding a c fst_conv snd_conv by blast
qed

text \<open>When its middleware is done, the use case becomes a goroutine.\<close>

lemma start_run:
  assumes "sim (s, cs) (w, ts)" "matched F env (sources w) cs ts m" "i < length cs" "m i = None"
    "allowed F (cn_arrival (cs ! i)) (cn_since (cs ! i)) (sources w) rq" "renders (he_uuid (fe_env F)) render"
    "cn_rest (cs ! i) = map_proc render (within (serve_proc lo R H T (fe_audit F) rq))"
  defines "p \<equiv> accept lo R H T (fe_audit F) rq (w, ts)"
  shows "pool_run (w, ts) p" "sim (s, cs) p" "matched F env (sources w) cs (snd p) (m(i := Some (length ts)))"
proof -
  let ?th = "\<lparr>th_request = rq, th_begun = False, th_rest = serve_proc lo R H T (fe_audit F) rq\<rparr>"
  have p: "p = (w, ts @ [?th])" by (simp add: p_def accept_def)
  show run: "pool_run (w, ts) p" unfolding p_def by (rule r_into_rtranclp) (rule conc_step.arrive)
  have "serves F (sources w) (cs ! i) ?th" using assms(5-7) by (auto simp: serves_def simp del: serve_proc.simps)
  moreover have "matches F env (sources w) (cs ! j) (ts @ [?th]) (m j)" if "j < length cs" for j
    using assms(2) that matches_later gen_later_refl unfolding matched_def by blast
  moreover have "m j \<noteq> Some (length ts)" if "j < length cs" for j
    using assms(2) that by (fastforce simp: matched_def matches_def)
  ultimately have "\<forall>j < length cs. matches F env (sources w) (cs ! j) (ts @ [?th]) ((m(i := Some (length ts))) j)"
    and "\<forall>j < length cs. m j \<noteq> Some (length ts)"
    by (simp_all add: matches_def del: serve_proc.simps)
  then have "matched F env (sources w) cs (ts @ [?th]) (m(i := Some (length ts)))"
    using assms(2) unfolding matched_def by (metis fun_upd_apply)
  then show "matched F env (sources w) cs (snd p) (m(i := Some (length ts)))" by (simp add: p)
  then show "sim (s, cs) p" using assms(1) pool_run_ok [OF run] unfolding p fst_conv snd_conv by blast
qed

text \<open>
  What a step of a connection amounts to: nothing, a step of its middleware, or the step of a goroutine
  that runs a use case the connection is allowed to run.
\<close>

definition conn_step :: "nat \<Rightarrow> ('r, 't, 'a, 'l) traffic \<Rightarrow> ('r, 't, 'a) pool \<Rightarrow> bool" where
  "conn_step i t p \<longleftrightarrow> (case (t, p, serve_conn i t) of ((s, cs), (w, ts), (s', cs')) \<Rightarrow>
     (s', cs') = (s, cs) \<or>
     i < length cs \<and> front_step R env w (srv_world s') \<and> (\<exists>extra. pool_run (w, ts) (srv_world s', ts @ extra) \<and> sim (s', cs') (srv_world s', ts @ extra)) \<or>
     i < length cs \<and> (\<exists>p1 k. pool_run (w, ts) p1 \<and> fst p1 = w \<and> pool_ok p1 \<and> k < length (snd p1) \<and>
       allowed F (cn_arrival (cs ! i)) (cn_since (cs ! i)) (sources w) (th_request (snd p1 ! k)) \<and>
       fst (advance k p1) = srv_world s' \<and> sim (s', cs') (advance k p1)))"

lemma conn_moves:
  assumes "sim (s, cs) (w, ts)"
  shows "conn_step i (s, cs) (w, ts)"
proof (cases "i < length cs")
  case False
  then show ?thesis by (simp add: conn_step_def serve_conn_def)
next
  case i: True
  obtain m where m: "matched F env (sources w) cs ts m" using assms by auto
  have w: "w = srv_world s" and ok: "pool_ok (w, ts)" using assms unfolding fst_conv by blast+
  obtain s' cs' where c: "serve_conn i (s, cs) = (s', cs')" by fastforce
  have served: ?thesis
    if "pool_run (w, ts) p1" "fst p1 = w" "sim (s, cs) p1" "matched F env (sources w) cs (snd p1) m'" "m' i = Some k" for p1 m' k
  proof -
    have p1: "p1 = (w, snd p1)" using that(2) by (metis prod.collapse)
    have v: "k < length (snd p1) \<and> sim (serve_conn i (s, cs)) (advance k (w, snd p1))"
      by (rule serve_run [OF _ that(4) i that(5)]) (use that(3) p1 in metis)
    have "allowed F (cn_arrival (cs ! i)) (cn_since (cs ! i)) (sources w) (th_request (snd p1 ! k))"
      using that(4,5) i by (fastforce simp: matched_def matches_def serves_def)
    moreover have "k < length (snd p1)" "sim (s', cs') (advance k p1)" using v p1 c by metis+
    moreover from this(2) have "fst (advance k p1) = srv_world s'" unfolding fst_conv by blast
    moreover have "pool_ok p1" using that(3) by blast
    ultimately show ?thesis using that(1,2) i unfolding conn_step_def c prod.case by blast
  qed
  show ?thesis
  proof (cases "m i")
    case (Some k)
    show ?thesis by (rule served [of "(w, ts)" m k, OF _ _ assms _ Some]) (simp_all add: m)
  next
    case None
    have "fronted F env (cn_arrival (cs ! i)) (cn_since (cs ! i)) (sources w) (cn_rest (cs ! i))"
      using m i None by (fastforce simp: matched_def matches_def)
    then show ?thesis
    proof cases
      case (ends x)
      then have "serve_conn i (s, cs) = (s, cs)" using i by (simp add: serve_conn_def) (metis list_update_id connection.surjective connection.update_convs(3))
      then show ?thesis by (simp add: conn_step_def)
    next
      case (run rq render)
      note st = start_run [OF assms m i None run(2,3) run(1) [unfolded frontend]]
      show ?thesis by (rule served [OF st(1) _ st(2,3)]) (simp_all add: accept_def)
    next
      case (step f)
      obtain p where p: "f s = (p, s')" and cs': "cs' = cs[i := (cs ! i)\<lparr>cn_rest := p\<rparr>]"
        using c i step(1) by (auto simp: serve_conn_def split: prod.splits)
      have f: "front_step R env w (srv_world s')"
        "fronted F env (cn_arrival (cs ! i)) (cn_since (cs ! i)) (sources (srv_world s')) p"
        using step(2) [OF _ p] w unfolding frontend by simp_all
      obtain extra where e: "pool_run (w, ts) (srv_world s', ts @ extra)" using front_run [OF f(1)] by blast
      have l: "gen_later (sources w) (sources (srv_world s'))" by (rule front_later [OF f(1)])
      have "matched F env (sources (srv_world s')) cs' (ts @ extra) m"
        unfolding cs' by (rule matched_front [OF m l i None f(2)])
      then have "sim (s', cs') (srv_world s', ts @ extra)"
        using pool_run_ok [OF e ok] unfolding fst_conv snd_conv by blast
      then show ?thesis using f(1) e i unfolding conn_step_def c prod.case by blast
    qed
  qed
qed

lemma traffic_sim:
  assumes "sim t p" "traffic_step F env t t'"
  shows "\<exists>p'. pool_run p p' \<and> sim t' p'"
  using assms(2)
proof cases
  case (arrive q)
  obtain s cs w ts where t: "t = (s, cs)" "p = (w, ts)" by fastforce
  obtain m where m: "matched F env (sources w) cs ts m" using assms(1) unfolding t snd_conv fst_conv by blast
  let ?c = "\<lparr>cn_arrival = q, cn_since = sources (srv_world s), cn_rest = arrival_proc F q\<rparr>"
  have w: "w = srv_world s" using assms(1) unfolding t fst_conv by blast
  have ok: "pool_ok (w, ts)" using assms(1) unfolding t(2) by blast
  have "matched F env (sources w) (cs @ [?c]) ts (m(length cs := None))"
    unfolding w by (rule matched_snoc [OF m [unfolded w]], unfold connection.select_convs) (rule arrives)
  then have "sim (s, cs @ [?c]) (w, ts)" using w ok unfolding fst_conv snd_conv by blast
  then show ?thesis unfolding arrive t open_conn_def prod.case by - (rule exI, rule conjI, rule rtranclp.rtrancl_refl)
next
  case (move i)
  obtain s cs w ts where t: "t = (s, cs)" "p = (w, ts)" by fastforce
  obtain s' cs' where c: "serve_conn i (s, cs) = (s', cs')" by fastforce
  have "conn_step i (s, cs) (w, ts)" by (rule conn_moves) (use assms(1) t in metis)
  then consider "(s', cs') = (s, cs)" | extra where "pool_run (w, ts) (srv_world s', ts @ extra)" "sim (s', cs') (srv_world s', ts @ extra)"
    | p1 k where "pool_run (w, ts) p1" "sim (s', cs') (advance k p1)"
    unfolding conn_step_def c prod.case by blast
  then show ?thesis
  proof cases
    case 1
    then have "serve_conn i t = t" using c t by metis
    then show ?thesis using assms(1) unfolding move by (metis rtranclp.rtrancl_refl)
  next
    case 2
    then show ?thesis unfolding move t c by blast
  next
    case (3 p1 k)
    have "pool_run (w, ts) (advance k p1)" by (rule rtranclp.rtrancl_into_rtrancl [OF 3(1) conc_step.move])
    then show ?thesis using 3(2) unfolding move t c by blast
  qed
next
  case (wait s n cs)
  have "pool_run p (srv_world (s\<lparr>srv_world := (srv_world s)\<lparr>sources := (sources (srv_world s))\<lparr>clock_pos := n\<rparr>\<rparr>\<rparr>), snd p @ [])"
    using assms(1) conc_step.wait [OF wait(3)] unfolding wait by (cases p) (auto intro!: r_into_rtranclp)
  from frame [OF assms(1) [unfolded wait(1)] this] this show ?thesis unfolding wait by blast
next
  case (change s u cs)
  have "pool_run p (srv_world (s\<lparr>srv_world := (srv_world s)\<lparr>tokens := u\<rparr>\<rparr>), snd p @ [])"
    using assms(1) conc_step.change [of env _ u, OF change(3)] unfolding change by (cases p) (auto intro!: r_into_rtranclp)
  from frame [OF assms(1) [unfolded change(1)] this] this show ?thesis unfolding change by blast
next
  case (sweep s cs slot)
  let ?s = "snd (on_limiter slot (\<lambda>l. ((), kl_sweep l)) s)"
  have "srv_world ?s = (srv_world s)\<lparr>sources := (sources (srv_world s))\<lparr>clock_pos := Suc (clock_pos (sources (srv_world s)))\<rparr>\<rparr>"
    by (simp add: on_limiter_def kl_sweep_def time_now_def)
  then have "pool_run p (srv_world ?s, snd p @ [])"
    using assms(1) conc_step.wait [OF le_SucI [OF order_refl]] unfolding sweep by (cases p) (auto intro!: r_into_rtranclp)
  from frame [OF assms(1) [unfolded sweep(1)] this] this show ?thesis unfolding sweep by blast
qed

lemma empty_sim: "app_inv rinv view tinv (srv_world s) \<Longrightarrow> sim (s, []) (srv_world s, [])"
  using empty_pool_ok by (auto simp: matched_def)

end

sublocale concurrent_servers \<subseteq> servers: simulation "traffic_step F env" "conc_step lo R H T (fe_audit F) env" sim
  by unfold_locales (rule traffic_sim)

subsection \<open>What holds of all traffic\<close>

context concurrent_servers
begin

lemma traffic_pool:
  assumes "traffic_run F env (s, []) t" "app_inv rinv view tinv (srv_world s)"
  obtains p where "pool_run (srv_world s, []) p" "sim t p"
  using servers.sim_run [OF assms(1) empty_sim [OF assms(2)]] that by blast

text \<open>A connection that presented a refresh token and won tokens has a goroutine that exchanged it.\<close>

lemma winner_exchanged:
  assumes "matches F env g c ts x" "presents F tok (cn_arrival c)" "won c"
  shows "\<exists>k. x = Some k \<and> k < length ts \<and> exchanged tok (ts ! k)"
proof -
  obtain y where y: "cn_rest c = Ret y" "rewarded y" using assms(3) by (auto simp: won_def split: proc.splits)
  show ?thesis
  proof (cases x)
    case None
    have "fronted F env (cn_arrival c) (cn_since c) g (Ret y)" using assms(1) None y(1) by (simp add: matches_def)
    then show ?thesis
    proof cases
      case ends
      then show ?thesis using y(2) by (simp add: bare_def)
    next
      case (run rq render)
      then have "refreshes tok rq" using assms(2) by (simp add: allowed_def)
      then obtain inp where "rq = Refresh inp" by (cases rq) (simp_all add: refreshes_def)
      then show ?thesis using run(1) by (simp add: refresh_proc_def call_def)
    qed
  next
    case (Some k)
    then have k: "k < length ts" "serves F g c (ts ! k)" using assms(1) by (simp_all add: matches_def)
    obtain render where r: "renders (he_uuid (fe_env F)) render" "cn_rest c = map_proc render (within (th_rest (ts ! k)))"
      using k(2) by (auto simp: serves_def)
    then obtain rs where "th_rest (ts ! k) = Ret rs" "y = render rs" using y(1) by (cases "th_rest (ts ! k)") auto
    then show ?thesis using r(1) k y(2) assms(2) Some by (auto simp: exchanged_def serves_def allowed_def renders_def)
  qed
qed

lemma one_winner:
  assumes "traffic_run F env (s, []) t" "app_inv rinv view tinv (srv_world s)" "distinct_draws (sources (srv_world (fst t)))"
  shows "length (filter (\<lambda>c. presents F tok (cn_arrival c) \<and> won c) (snd t)) \<le> 1"
proof -
  obtain p where p: "pool_run (srv_world s, []) p" "sim t p" by (rule traffic_pool [OF assms(1,2)])
  obtain m where m: "matched F env (sources (fst p)) (snd t) (snd p) m" using p(2) by blast
  let ?P = "\<lambda>c. presents F tok (cn_arrival c) \<and> won c"
  let ?I = "{i. i < length (snd t) \<and> ?P (snd t ! i)}" and ?K = "{k. k < length (snd p) \<and> exchanged tok (snd p ! k)}"
  have "fst p = srv_world (fst t)" using p(2) by blast
  then have one: "length (filter (exchanged tok) (snd p)) \<le> 1"
    using exchanged_at_most_once [OF lower_law p(1) assms(2)] assms(3) by simp
  have im: "(\<lambda>i. the (m i)) ` ?I \<subseteq> ?K \<and> inj_on (\<lambda>i. the (m i)) ?I"
  proof -
    have w: "\<exists>k. m i = Some k \<and> k < length (snd p) \<and> exchanged tok (snd p ! k)" if "i \<in> ?I" for i
      using that m winner_exchanged unfolding matched_def by blast
    moreover have "inj_on (\<lambda>i. the (m i)) ?I"
    proof (rule inj_onI)
      fix i j assume "i \<in> ?I" "j \<in> ?I" "the (m i) = the (m j)"
      then show "i = j" using w m unfolding matched_def by (metis (no_types, lifting) mem_Collect_eq option.sel option.distinct(1))
    qed
    ultimately show ?thesis by fastforce
  qed
  then have "card ?I \<le> card ?K" using card_inj_on_le [of "\<lambda>i. the (m i)" ?I ?K] by simp
  then show ?thesis using one by (simp add: length_filter_conv_card)
qed

text \<open>
  An answer that shows accounts goes to a connection whose bearer token was found valid, for the
  account shown or with a role that may see all.
\<close>

lemma entitled_caller:
  assumes "entitled rq rs" "d \<in> told U rs" "allowed F q since g rq"
  shows "\<exists>cl. vouched F q since g cl \<and> (d = uuid_String U (claim_user_id cl) \<or> can_manage_roles (claim_role cl))"
proof -
  have "\<not> public_request rq" using assms(1,2)
    by (cases rq) (auto simp: entitled_def told_def split: response.splits sum.splits)
  then obtain cl where cl: "acts_as rq cl" "vouched F q since g cl" using assms(3) by (auto simp: allowed_def)
  have "d = uuid_String U (claim_user_id cl) \<or> can_manage_roles (claim_role cl)"
    using assms(1,2) cl(1)
    by (cases rq) (auto simp: entitled_def told_def shows_account_def can_manage_roles_def split: response.splits sum.splits)
  then show ?thesis using cl(2) by blast
qed

lemma revealed_to_caller:
  assumes "traffic_run F env (s, []) t" "app_inv rinv view tinv (srv_world s)"
    "c \<in> set (snd t)" "cn_rest c = Ret x" "d \<in> reveals (he_uuid (fe_env F)) x"
  shows "\<exists>cl. vouched F (cn_arrival c) (cn_since c) (sources (srv_world (fst t))) cl \<and>
    (d = uuid_String (he_uuid (fe_env F)) (claim_user_id cl) \<or> can_manage_roles (claim_role cl))"
proof -
  let ?U = "he_uuid (fe_env F)"
  obtain p where p: "sim t p" by (rule traffic_pool [OF assms(1,2)])
  obtain m where m: "matched F env (sources (fst p)) (snd t) (snd p) m" using p by blast
  have w: "fst p = srv_world (fst t)" and ok: "pool_ok p" using p by blast+
  obtain i where i: "i < length (snd t)" "snd t ! i = c" using assms(3) by (metis in_set_conv_nth)
  have mi: "matches F env (sources (fst p)) c (snd p) (m i)" using m i by (auto simp: matched_def)
  have rendered: ?thesis
    if "entitled rq rs" "allowed F (cn_arrival c) (cn_since c) (sources (fst p)) rq" "renders ?U render" "x = render rs" for rq rs render
    using entitled_caller [OF that(1) _ that(2), of d ?U] that(3,4) assms(5) w unfolding renders_def by auto
  show ?thesis
  proof (cases "m i")
    case None
    have "fronted F env (cn_arrival c) (cn_since c) (sources (fst p)) (Ret x)"
      using mi None assms(4) by (simp add: matches_def)
    then show ?thesis
    proof cases
      case ends
      then show ?thesis using assms(5) by (simp add: bare_def)
    next
      case (run rq render)
      then obtain rs where rs: "serve_proc lo R H T (fe_audit F) rq = Ret rs" "x = render rs"
        unfolding frontend by (cases "serve_proc lo R H T (fe_audit F) rq") (simp_all del: serve_proc.simps)
      have "entitled rq rs" using serve_guards [OF lower_law, of rq "{}" "fst p" "fe_audit F"] unfolding rs(1) by (rule guards_RetE)
      then show ?thesis by (rule rendered [OF _ run(2,3) rs(2)])
    qed
  next
    case (Some k)
    then have k: "k < length (snd p)" "serves F (sources (fst p)) c (snd p ! k)" using mi by (simp_all add: matches_def)
    obtain render where r: "renders ?U render" "cn_rest c = map_proc render (within (th_rest (snd p ! k)))"
      using k(2) by (auto simp: serves_def)
    then obtain rs where rs: "th_rest (snd p ! k) = Ret rs" "x = render rs"
      using assms(4) by (cases "th_rest (snd p ! k)") auto
    have "entitled (th_request (snd p ! k)) rs" using pool_entitled [of "fst p" "snd p"] ok k(1) rs(1) by simp
    then show ?thesis by (rule rendered [OF _ _ r(1) rs(2)]) (use k(2) in \<open>simp add: serves_def\<close>)
  qed
qed

lemma traffic_moves:
  assumes "traffic_run F env (s, []) t" "app_inv rinv view tinv (srv_world s)"
  shows "conc_moves rinv view tinv spent (srv_world s) (srv_world (fst t))"
proof -
  obtain p where p: "pool_run (srv_world s, []) p" "sim t p" by (rule traffic_pool [OF assms(1,2)])
  have "fst p = srv_world (fst t)" using p(2) by blast
  then show ?thesis using pool_run_ok [OF p(1) empty_pool_ok [OF assms(2)]] by simp
qed

lemma front_stored:
  assumes "app_inv rinv view tinv w" "front_step R env w w'"
  shows "stored view w' = stored view w"
proof -
  have "stored view (snd (on_repo (FindByID R i) w)) = stored view w" for i
    using find_by_id_step [OF assms(1), of i] by (metis prod.collapse)
  then show ?thesis using assms(2) unfolding front_step_def by (elim disjE exE conjE) simp_all
qed

text \<open>
  A stored account changes only at a step of a connection whose bearer token was found valid, for the
  changed account or for one that is the owner's when the change is stored.
\<close>

lemma traffic_frame:
  assumes "traffic_run F env (s, []) t" "app_inv rinv view tinv (srv_world s)" "traffic_step F env t t'"
    "distinct_draws (sources (srv_world (fst t')))"
    "stored view (srv_world (fst t)) j = Some u" "stored view (srv_world (fst t')) j \<noteq> Some u"
  shows "\<exists>i cl v. t' = serve_conn i t \<and> i < length (snd t) \<and>
    vouched F (cn_arrival (snd t ! i)) (cn_since (snd t ! i)) (sources (srv_world (fst t))) cl \<and>
    stored view (srv_world (fst t)) (claim_user_id cl) = Some v \<and> (claim_user_id cl = j \<or> usr_role v = RoleOwner)"
proof -
  obtain p where "sim t p" by (rule traffic_pool [OF assms(1,2)])
  then obtain s cs w ts where t: "t = (s, cs)" "w = srv_world s" "pool_ok (w, ts)" and sm: "sim (s, cs) (w, ts)"
    by (metis prod.collapse)
  have inv: "app_inv rinv view tinv w" using t(3) by simp
  have "\<exists>i. t' = serve_conn i t"
    using assms(3)
  proof cases
    case (sweep s cs slot)
    then show ?thesis using assms(5,6) by (simp add: on_limiter_def split: prod.splits)
  qed (use assms(5,6) in \<open>auto simp: open_conn_def split: prod.splits\<close>)
  then obtain i where i: "t' = serve_conn i t" by blast
  obtain s' cs' where c: "serve_conn i (s, cs) = (s', cs')" by fastforce
  have ch: "stored view w j = Some u" "stored view (srv_world s') j \<noteq> Some u" "distinct_draws (sources (srv_world s'))"
    using assms(4-6) i t c by simp_all
  have "conn_step i (s, cs) (w, ts)" by (rule conn_moves [OF sm])
  moreover have "(s', cs') \<noteq> (s, cs)" using ch(1,2) t(2) by auto
  moreover have "\<not> front_step R env w (srv_world s')" using front_stored [OF inv] ch(1,2) by metis
  ultimately obtain p1 k where p1: "i < length cs" "fst p1 = w" "pool_ok p1" "k < length (snd p1)"
      "allowed F (cn_arrival (cs ! i)) (cn_since (cs ! i)) (sources w) (th_request (snd p1 ! k))"
      "fst (advance k p1) = srv_world s'"
    unfolding conn_step_def c prod.case by blast
  have m: "may_change (stored view w) (th_request (snd p1 ! k)) j"
    using advance_frame [OF p1(3), of k j u] ch p1(2,6) by simp
  then have "\<not> public_request (th_request (snd p1 ! k))" by (cases "th_request (snd p1 ! k)") (auto simp: may_change_def)
  then obtain cl where cl: "acts_as (th_request (snd p1 ! k)) cl" "vouched F (cn_arrival (cs ! i)) (cn_since (cs ! i)) (sources w) cl"
    using p1(5) by (auto simp: allowed_def)
  have "\<exists>v. stored view w (claim_user_id cl) = Some v \<and> (claim_user_id cl = j \<or> usr_role v = RoleOwner)"
    using cl(1) m ch(1) by (cases "th_request (snd p1 ! k)") (auto simp: may_change_def)
  then show ?thesis using i cl(2) p1(1) unfolding t(1,2) fst_conv snd_conv by blast
qed

end

end
