(* ===== verification/ServerAccounts.thy ===== *)
theory ServerAccounts
  imports ServerTraffic
begin

section \<open>Accounts and tokens under the traffic of both servers\<close>

text \<open>
  The deployment on PostgreSQL and Redis with its HTTP and gRPC servers, as \<^verbatim>\<open>cmd/server/main.go\<close> wires
  them, under concurrent traffic: the laws of \<open>ServerTraffic\<close> hold of it, and so do its properties.
\<close>

subsection \<open>The deployment\<close>

abbreviation pg_frontend ::
  "gin_lib \<Rightarrow> 'l rate_lib \<Rightarrow> (string \<Rightarrow> time \<Rightarrow> string) \<Rightarrow> ('sk, 'pk) jwt_lib \<Rightarrow> uuid_lib \<Rightarrow> 'db redis_lib \<Rightarrow>
   ('sk, 'pk) jwt_service \<Rightarrow> argon2_lib \<Rightarrow> (nat \<Rightarrow> nat) \<Rightarrow> pg_lib \<Rightarrow> 'a audit_port \<Rightarrow>
   (pg_state, 'db redis_conn, 'a) pinger \<Rightarrow> string list \<Rightarrow> (pg_state, 'db redis_conn, 'a, 'l) frontend" where
  "pg_frontend G RL fmt J U L svc lib lo P A pool_ping origins \<equiv>
    main_frontend G U RL fmt lo (postgres_repository P lo) (argon2_hasher lib) (jwt_token_service J U L svc) A
      redis_ping (Some pool_ping) origins"

lemma jwt_validate_ticks: "ticks (ValidateAccessToken (jwt_token_service J U L svc) tok)"
proof -
  have "\<exists>n \<ge> clock_pos g. snd (jwt_validate_access_token J U svc tok g) = g\<lparr>clock_pos := n\<rparr>" for g
    by (rule exI [of _ "Suc (clock_pos g)"])
      (auto simp: jwt_validate_access_token_def time_now_def Let_def split: option.splits prod.splits sum.splits)
  then show ?thesis by (simp add: ticks_def jwt_token_service_def)
qed

lemma redis_ping_front: "front_step R (jwt_env L) w (snd (redis_ping w))"
proof -
  obtain x c where r: "round_trip (\<lambda>t db. (Inr (), db)) (tokens w) = (x, c)" by fastforce
  have "redis_db c = redis_db (tokens w)"
    using r by (auto simp: round_trip_def Let_def split: list.splits prod.splits fate.splits)
  then have "jwt_env L (tokens w) c" by (simp add: jwt_env_def)
  moreover have "snd (redis_ping w) = w\<lparr>tokens := c\<rparr>" by (simp add: redis_ping_def r)
  ultimately show ?thesis unfolding front_step_def by blast
qed

lemma servers_laws:
  assumes "uuid_laws U" "redis_laws L" "argon2_laws lib" "lower_laws lo" "gin_laws G"
    "\<And>w. front_step (postgres_repository P lo) (jwt_env L) w (snd (pool_ping w))"
  shows "concurrent_servers (postgres_repository P lo) lo (pg_inv lo) pg_view (jwt_token_service J U L svc)
    (jwt_inv U L) (jwt_spent U L) (jwt_env L) (argon2_hasher lib) (pg_frontend G RL fmt J U L svc lib lo P A pool_ping origins)"
proof (intro concurrent_servers.intro concurrent_servers_axioms.intro pool_laws [OF assms(1-4)] assms(4))
  have "front_laws G (jwt_token_service J U L svc) (postgres_repository P lo) (jwt_env L) redis_ping (Some pool_ping)"
    using assms(5,6) by (simp add: front_laws_def jwt_validate_ticks redis_ping_front)
  then show "\<exists>G' U' L' fmt' A' redis db origins'. pg_frontend G RL fmt J U L svc lib lo P A pool_ping origins =
      main_frontend G' U' L' fmt' lo (postgres_repository P lo) (argon2_hasher lib) (jwt_token_service J U L svc) A' redis db origins' \<and>
      front_laws G' (jwt_token_service J U L svc) (postgres_repository P lo) (jwt_env L) redis db"
    by blast
qed

abbreviation demo_frontend :: "(pg_state, demo_db redis_conn, log_entry list, bucket) frontend" where
  "demo_frontend \<equiv> pg_frontend demo_gin bucket_lib (\<lambda>_ _. '''') demo_jwt rfc_uuid demo_redis demo_service demo_argon2
     (\<lambda>r. r) demo_pg_lib demo_A (\<lambda>w. (None, w)) [''http://localhost:3000'']"

lemma idle_ping: "front_step R env w (snd (None, w))"
  using front_clock [of w "clock_pos (sources w)"] by simp

interpretation demo_servers: concurrent_servers demo_P "\<lambda>r. r" "pg_inv (\<lambda>r. r)" pg_view
    demo_T "jwt_inv rfc_uuid demo_redis" "jwt_spent rfc_uuid demo_redis" "jwt_env demo_redis" demo_H demo_frontend
  by (rule servers_laws [OF rfc_uuid_laws demo_redis_laws demo_argon2_laws lower_laws_id demo_gin_laws idle_ping])

subsection \<open>Traffic for the witnesses\<close>

text \<open>A connection that runs alone comes to the end of its process.\<close>

lemma runs_alone:
  assumes "i < length cs" "finish (cn_rest (cs ! i)) s = (x, s')"
  shows "traffic_run F env (s, cs) (s', cs[i := (cs ! i)\<lparr>cn_rest := Ret x\<rparr>])"
proof -
  have "traffic_run F env (s, cs) (s', cs[i := (cs ! i)\<lparr>cn_rest := Ret x\<rparr>])"
    if "i < length cs" "cn_rest (cs ! i) = p" "finish p s = (x, s')" for p s cs
    using that
  proof (induction p arbitrary: s cs)
    case (Ret y)
    then have "cs[i := (cs ! i)\<lparr>cn_rest := Ret x\<rparr>] = cs"
      by (metis (mono_tags, lifting) connection.surjective connection.update_convs(3) finish.simps(1) fst_conv list_update_id)
    then show ?case using Ret by simp
  next
    case (Act f)
    obtain p' s1 where f: "f s = (p', s1)" by fastforce
    let ?cs = "cs[i := (cs ! i)\<lparr>cn_rest := p'\<rparr>]"
    have "traffic_step F env (s, cs) (s1, ?cs)"
      using traffic_step.move [of F env "(s, cs)" i] Act.prems f by (simp add: serve_conn_def)
    moreover have "(p', s1) \<in> range f" using f by (metis rangeI)
    from Act.IH [OF this, of p' ?cs s1] have "traffic_run F env (s1, ?cs) (s', ?cs[i := (?cs ! i)\<lparr>cn_rest := Ret x\<rparr>])"
      using Act.prems f by simp
    ultimately show ?case using Act.prems(1) by (simp add: converse_rtranclp_into_rtranclp)
  qed
  then show ?thesis using assms by blast
qed

lemma turning_point:
  "r\<^sup>*\<^sup>* a b \<Longrightarrow> Q a \<Longrightarrow> \<not> Q b \<Longrightarrow> \<exists>c d. r\<^sup>*\<^sup>* a c \<and> r c d \<and> r\<^sup>*\<^sup>* d b \<and> Q c \<and> \<not> Q d"
proof (induction rule: rtranclp_induct)
  case (step b c)
  then show ?case by (metis rtranclp.rtrancl_into_rtrancl rtranclp.rtrancl_refl)
qed simp

context concurrent_servers
begin

lemma draws_earlier:
  assumes "traffic_run F env (s, []) t" "app_inv rinv view tinv (srv_world s)" "traffic_run F env t t'"
    "distinct_draws (sources (srv_world (fst t')))"
  shows "distinct_draws (sources (srv_world (fst t)))"
proof -
  obtain p where p: "sim t p" by (rule traffic_pool [OF assms(1,2)])
  obtain p' where p': "pool_run p p'" "sim t' p'" using servers.sim_run [OF assms(3) p] by blast
  have "fst p = srv_world (fst t)" "fst p' = srv_world (fst t')" "pool_ok p" using p p'(2) by blast+
  then show ?thesis using pool_run_later [OF p'(1)] assms(4) distinct_draws_earlier by metis
qed

end

text \<open>Two gRPC calls with one refresh token; both redeem before the first goes on.\<close>

definition demo_call :: grpc_call where
  "demo_call = \<lparr>gr_metadata = None, gr_message = RefreshTokenRequest ConcurrentAccounts.demo_token\<rparr>"

definition demo_conn_at :: "((pg_state, demo_db redis_conn, log_entry list) world, response) proc \<Rightarrow>
    (pg_state, demo_db redis_conn, log_entry list, bucket) connection" where
  "demo_conn_at p = \<lparr>cn_arrival = Grpc demo_call, cn_since = sources demo_race,
     cn_rest = map_proc (\<lambda>rs. GrpcReply (grpc_reply rfc_uuid (\<lambda>_ _. '''') rs)) (within p)\<rparr>"

abbreviation demo_traffic where
  "demo_traffic \<equiv> traffic_run demo_frontend (jwt_env demo_redis)"

lemma demo_call_opens:
  "open_conn demo_frontend (Grpc demo_call) (demo_server demo_race, cs) =
    (demo_server demo_race, cs @ [demo_conn_at (serve_proc (\<lambda>r. r) demo_P demo_H demo_T demo_A ConcurrentAccounts.demo_request)])"
  by (simp add: open_conn_def demo_conn_at_def demo_server_def grpc_proc_def demo_call_def methodsRequiringAuth_def
      main_frontend_def main_router_def within_map proc.map_comp comp_def del: serve_proc.simps)

lemma demo_conn_moves:
  assumes "i < length ps" "proc_step (ps ! i) w = (p, w')"
  shows "traffic_step F env (demo_server w, map demo_conn_at ps) (demo_server w', map demo_conn_at (ps[i := p]))"
proof -
  have "serve_conn i (demo_server w, map demo_conn_at ps) = (demo_server w', map demo_conn_at (ps[i := p]))"
    using assms by (simp add: serve_conn_def demo_conn_at_def demo_server_def proc_step_within map_update)
  then show ?thesis using traffic_step.move [of F env "(demo_server w, map demo_conn_at ps)" i] by simp
qed

lemma demo_race_traffic:
  obtains t where "demo_traffic (demo_server demo_race, []) t" "distinct_draws (sources (srv_world (fst t)))"
    "length (snd t) = 2" "\<forall>c \<in> set (snd t). presents demo_frontend ConcurrentAccounts.demo_token (cn_arrival c)"
    "length (filter won (snd t)) = 1"
proof -
  let ?p = "serve_proc (\<lambda>r. r) demo_P demo_H demo_T demo_A ConcurrentAccounts.demo_request"
  let ?S = "traffic_step demo_frontend (jwt_env demo_redis)"
  obtain p1 q1 w1 w2 p3 w3 p4 w4 r w5 where st: "proc_step ?p demo_race = (p1, w1)" "proc_step ?p w1 = (Act q1, w2)"
    "proc_step p1 w2 = (p3, w3)" "proc_step p3 w3 = (p4, w4)" "proc_step p4 w4 = (Ret r, w5)"
    and r: "answers_tokens r" and d: "distinct_draws (sources w5)" by (rule demo_race_steps)
  let ?s = "\<lambda>w ps. (demo_server w, map demo_conn_at ps)"
  have arrive: "?S (?s demo_race ps) (?s demo_race (ps @ [?p]))" for ps
    using traffic_step.arrive [of demo_frontend "jwt_env demo_redis" "?s demo_race ps" "Grpc demo_call"]
    unfolding demo_call_opens by (simp del: serve_proc.simps)
  note move = demo_conn_moves [where F = demo_frontend and env = "jwt_env demo_redis"]
  have 1: "?S (?s demo_race []) (?s demo_race [?p])" using arrive [of "[]"] unfolding append.simps .
  have 2: "?S (?s demo_race [?p]) (?s demo_race [?p, ?p])" using arrive [of "[?p]"] unfolding append.simps .
  have 3: "?S (?s demo_race [?p, ?p]) (?s w1 [p1, ?p])" using move [of 0 "[?p, ?p]"] st(1) by (simp del: serve_proc.simps list.map)
  have 4: "?S (?s w1 [p1, ?p]) (?s w2 [p1, Act q1])" using move [of 1 "[p1, ?p]"] st(2) by (simp del: serve_proc.simps list.map)
  have 5: "?S (?s w2 [p1, Act q1]) (?s w3 [p3, Act q1])" using move [of 0 "[p1, Act q1]"] st(3) by (simp del: list.map)
  have 6: "?S (?s w3 [p3, Act q1]) (?s w4 [p4, Act q1])" using move [of 0 "[p3, Act q1]"] st(4) by (simp del: list.map)
  have 7: "?S (?s w4 [p4, Act q1]) (?s w5 [Ret r, Act q1])" using move [of 0 "[p4, Act q1]"] st(5) by (simp del: list.map)
  note step = converse_rtranclp_into_rtranclp [where r = ?S]
  have run: "?S\<^sup>*\<^sup>* (?s demo_race []) (?s w5 [Ret r, Act q1])"
    by (rule step [OF 1], rule step [OF 2], rule step [OF 3], rule step [OF 4], rule step [OF 5], rule step [OF 6],
        rule step [OF 7], rule rtranclp.rtrancl_refl)
  obtain out where "r = Auth (Inr out)" using r by (auto simp: answers_tokens_def split: response.splits sum.splits)
  then have won: "won (demo_conn_at (Ret r))" "\<not> won (demo_conn_at (Act q1))"
    by (simp_all add: won_def demo_conn_at_def grpc_reply_def toAuthResponse_def)
  have "presents demo_frontend ConcurrentAccounts.demo_token (cn_arrival (demo_conn_at x))" for x
    by (simp add: demo_conn_at_def demo_call_def)
  then show thesis using that [of "?s w5 [Ret r, Act q1]"] run d won by (simp add: demo_server_def)
qed

text \<open>The owner renames herself over HTTP, alone: her request comes to its end, so it makes the change at some step.\<close>

abbreviation demo_put :: http_request where
  "demo_put \<equiv> HttpFlows.demo_request ''PUT'' ''/v1/users/me'' (HttpFlows.demo_token 1 RoleOwner) ''Rob''"

lemma demo_rename_traffic:
  defines "s \<equiv> demo_server (demo_pg [demo_user 1 ''bob@e.com'' RoleOwner 0])"
  obtains t t' u where "demo_traffic (s, []) t" "traffic_step demo_frontend (jwt_env demo_redis) t t'"
    "distinct_draws (sources (srv_world (fst t')))" "pg_view (objects (srv_world (fst t)), repo (srv_world (fst t))) 1 = Some u"
    "pg_view (objects (srv_world (fst t')), repo (srv_world (fst t'))) 1 \<noteq> Some u"
proof -
  let ?v = "\<lambda>t. pg_view (objects (srv_world (fst t)), repo (srv_world (fst t))) 1"
  let ?u = "demo_user 1 ''bob@e.com'' RoleOwner 0"
  obtain c s' u where r: "http_handle demo_pg_router demo_put s = (c, s')" "?v (s', []) = Some u" "usr_name u = ''Rob''"
      "uuid_pos (sources (srv_world s')) = 100" "uuid_source (sources (srv_world s')) = of_nat"
    using demo_rename unfolding s_def by auto
  have d: "distinct_draws (sources (srv_world s'))" by (rule demo_draws) (use r(4,5) in simp_all)
  let ?t0 = "open_conn demo_frontend (Http demo_put) (s, [])"
  let ?c = "\<lparr>cn_arrival = Http demo_put, cn_since = sources (srv_world s), cn_rest = arrival_proc demo_frontend (Http demo_put)\<rparr>"
  have "finish (arrival_proc demo_frontend (Http demo_put)) s = (HttpReply c, s')"
    using r(1) by (simp add: main_frontend_def http_finish [OF demo_gin_laws])
  then have "finish (cn_rest ([?c] ! 0)) s = (HttpReply c, s')" by (simp del: arrival_proc.simps)
  from runs_alone [OF _ this] have "\<exists>cs. demo_traffic (s, [?c]) (s', cs)" by blast
  then have "\<exists>cs. demo_traffic ?t0 (s', cs)" unfolding open_conn_def prod.case append_Nil .
  then obtain cs where run: "demo_traffic (s, []) (s', cs)"
    by (meson converse_rtranclp_into_rtranclp traffic_step.arrive)
  have old: "?v (s, []) = Some ?u"
    by (simp add: s_def demo_server_def demo_pg_def pg_view_def row_of_user_def user_of_row_def demo_user_def user_key_def
        demo_pg_lib_def reconstitute_def)
  have "?v (s', cs) \<noteq> Some ?u" using r(2,3) by (auto simp: demo_user_def)
  from turning_point [where Q = "\<lambda>t. ?v t = Some ?u", OF run old this] obtain t t' where t:
    "demo_traffic (s, []) t" "traffic_step demo_frontend (jwt_env demo_redis) t t'" "demo_traffic t' (s', cs)"
    "?v t = Some ?u" "?v t' \<noteq> Some ?u" by blast
  have "demo_traffic (s, []) t'" using t(1,2) by simp
  moreover have "postgres_world rfc_uuid demo_redis (\<lambda>r. r) (srv_world s)" using demo_pg_inv by (simp add: s_def demo_server_def)
  ultimately have "distinct_draws (sources (srv_world (fst t')))"
    using demo_servers.draws_earlier [OF _ _ t(3)] d by simp
  then show thesis by (rule that [OF t(1,2) _ t(4,5)])
qed

text \<open>The owner reads her profile over gRPC.\<close>

lemma demo_get_me:
  defines "s \<equiv> demo_server (demo_pg [demo_user 1 ''bob@e.com'' RoleOwner 0])"
  obtains t c x where "demo_traffic (s, []) t" "c \<in> set (snd t)" "cn_rest c = Ret x"
    "uuid_String rfc_uuid 1 \<in> reveals rfc_uuid x"
proof -
  let ?cl = "\<lparr>gr_metadata = Some [(''authorization'', [''Bearer '' @ HttpFlows.demo_token 1 RoleOwner])], gr_message = GetMeRequest\<rparr>"
  let ?q = "Grpc ?cl"
  let ?c = "\<lparr>cn_arrival = ?q, cn_since = sources (srv_world s), cn_rest = arrival_proc demo_frontend ?q\<rparr>"
  have n: "new_email (\<lambda>r. r) ''bob@e.com'' = Inr (Email ''bob@e.com'')"
    using demo_email_canonical by (simp add: canonical_email_def)
  note pg = on_repo_def postgres_repository_def pg_find_by_id_def pg_exec_def sql_select_def scan_row_def scanUser_def n
    row_of_user_def alloc_def reconstitute_def user_at_def demo_user_def user_key_def demo_pg_lib_def
  have b: "has_prefix (''Bearer '' @ tok) ''Bearer ''" "trim_prefix (''Bearer '' @ tok) ''Bearer '' = tok" for tok
    by (rule has_prefix_append, rule trim_prefix_append)
  have "\<exists>u w. grpc_handle rfc_uuid (\<lambda>_ _. '''') (\<lambda>r. r) demo_P demo_H demo_T demo_A ?cl (srv_world s) = (Reply (UserResponse u), w) \<and>
      pb_id u = uuid_String rfc_uuid 1"
    unfolding s_def demo_server_def demo_pg_def grpc_handle_def UnaryAuthInterceptor_def authenticate_def Let_def
    apply (simp add: methodsRequiringAuth_def on_gen_def demo_validate demo_gen_def b del: append_Cons)
    apply (simp add: pg)
    apply (simp add: grpc_GetMe_def with_caller_def main_user_handler_def get_user_execute_def pg grpc_answer_def
        toUserResponse_def user_output_of_def)
    done
  then obtain u w where u: "grpc_handle rfc_uuid (\<lambda>_ _. '''') (\<lambda>r. r) demo_P demo_H demo_T demo_A ?cl (srv_world s) = (Reply (UserResponse u), w)"
      "pb_id u = uuid_String rfc_uuid 1" by blast
  have "finish (arrival_proc demo_frontend ?q) s = (GrpcReply (Reply (UserResponse u)), s\<lparr>srv_world := w\<rparr>)"
    using u(1) by (simp add: main_frontend_def main_router_def grpc_finish on_world_def)
  then have f: "finish (cn_rest ([?c] ! 0)) s = (GrpcReply (Reply (UserResponse u)), s\<lparr>srv_world := w\<rparr>)"
    by (simp del: arrival_proc.simps)
  have "demo_traffic (open_conn demo_frontend ?q (s, [])) (s\<lparr>srv_world := w\<rparr>, [?c\<lparr>cn_rest := Ret (GrpcReply (Reply (UserResponse u)))\<rparr>])"
    using runs_alone [OF _ f] by (simp add: open_conn_def del: arrival_proc.simps)
  then have "demo_traffic (s, []) (s\<lparr>srv_world := w\<rparr>, [?c\<lparr>cn_rest := Ret (GrpcReply (Reply (UserResponse u)))\<rparr>])"
    by (meson converse_rtranclp_into_rtranclp traffic_step.arrive)
  then show thesis
    by (rule that [of _ "?c\<lparr>cn_rest := Ret (GrpcReply (Reply (UserResponse u)))\<rparr>" "GrpcReply (Reply (UserResponse u))"])
      (simp_all add: u(2))
qed

subsection \<open>Properties\<close>

text \<open>
  \<^bold>\<open>C2\<close> A stored account changes only at the hands of its holder or of an owner, whatever the
  traffic. HTTP requests and gRPC calls run concurrently, their steps in any order, with commands to
  PostgreSQL and Redis failing at will. The step at which a stored account is no longer what it was
  is a step of a connection whose bearer token was found valid after the connection arrived, and the
  token's account is the changed one or is the owner in the database when the change is stored.
\<close>

theorem accounts_change_under_traffic:
  fixes L :: "'db redis_lib" and s :: "(pg_state, 'db redis_conn, 'a, 'l) server"
  assumes "uuid_laws U" and "redis_laws L" and "argon2_laws lib" and "lower_laws lo" and "gin_laws G"
    and "\<And>w. front_step (postgres_repository P lo) (jwt_env L) w (snd (pool_ping w))"
    and "postgres_world U L lo (srv_world s)"
    and "traffic_run (pg_frontend G RL fmt J U L svc lib lo P A pool_ping origins) (jwt_env L) (s, []) t"
    and "traffic_step (pg_frontend G RL fmt J U L svc lib lo P A pool_ping origins) (jwt_env L) t t'"
    and "distinct_draws (sources (srv_world (fst t')))"
    and "pg_view (objects (srv_world (fst t)), repo (srv_world (fst t))) j = Some u"
    and "pg_view (objects (srv_world (fst t')), repo (srv_world (fst t'))) j \<noteq> Some u"
  shows "\<exists>i tok g g' cl v. t' = serve_conn i t \<and> i < length (snd t) \<and> carries (cn_arrival (snd t ! i)) tok \<and>
    gen_later (cn_since (snd t ! i)) g \<and> gen_later g (sources (srv_world (fst t))) \<and>
    jwt_validate_access_token J U svc tok g = (Inr cl, g') \<and>
    pg_view (objects (srv_world (fst t)), repo (srv_world (fst t))) (claim_user_id cl) = Some v \<and>
    (claim_user_id cl = j \<or> usr_role v = RoleOwner)"
proof -
  let ?F = "pg_frontend G RL fmt J U L svc lib lo P A pool_ping origins"
  have T: "he_tokens (fe_env ?F) = jwt_token_service J U L svc" by (simp add: main_frontend_def main_router_def)
  obtain i cl v where "t' = serve_conn i t" "i < length (snd t)"
      "vouched ?F (cn_arrival (snd t ! i)) (cn_since (snd t ! i)) (sources (srv_world (fst t))) cl"
      "pg_view (objects (srv_world (fst t)), repo (srv_world (fst t))) (claim_user_id cl) = Some v"
      "claim_user_id cl = j \<or> usr_role v = RoleOwner"
    using concurrent_servers.traffic_frame [OF servers_laws [OF assms(1-6)] assms(8,7,9-12)] by blast
  then show ?thesis unfolding vouched_def T by (simp add: jwt_token_service_def) blast
qed

lemma accounts_change_under_traffic_witness:
  "\<exists>t t' i tok g g' cl. demo_traffic (demo_server (demo_pg [demo_user 1 ''bob@e.com'' RoleOwner 0]), []) t \<and>
     t' = serve_conn i t \<and> i < length (snd t) \<and>
     pg_view (objects (srv_world (fst t)), repo (srv_world (fst t))) 1 \<noteq> pg_view (objects (srv_world (fst t')), repo (srv_world (fst t'))) 1 \<and>
     carries (cn_arrival (snd t ! i)) tok \<and> jwt_validate_access_token demo_jwt rfc_uuid demo_service tok g = (Inr cl, g')"
proof -
  let ?s = "demo_server (demo_pg [demo_user 1 ''bob@e.com'' RoleOwner 0])"
  obtain t t' u where t: "demo_traffic (?s, []) t" "traffic_step demo_frontend (jwt_env demo_redis) t t'"
      "distinct_draws (sources (srv_world (fst t')))" "pg_view (objects (srv_world (fst t)), repo (srv_world (fst t))) 1 = Some u"
      "pg_view (objects (srv_world (fst t')), repo (srv_world (fst t'))) 1 \<noteq> Some u" by (rule demo_rename_traffic)
  have inv: "postgres_world rfc_uuid demo_redis (\<lambda>r. r) (srv_world ?s)" using demo_pg_inv by (simp add: demo_server_def)
  from accounts_change_under_traffic [OF rfc_uuid_laws demo_redis_laws demo_argon2_laws lower_laws_id demo_gin_laws idle_ping inv t]
  show ?thesis using t(1,4,5) by (metis (no_types, lifting))
qed

text \<open>
  \<^bold>\<open>C3\<close> Account data only goes to a caller who may see it, whatever the traffic. When a connection has
  been answered, over HTTP or gRPC, with a profile or a list of accounts, then its bearer token was
  found valid after the connection arrived, and every account shown is the token's own or the token's
  role may manage roles.
\<close>

theorem account_data_only_for_callers:
  fixes L :: "'db redis_lib" and s :: "(pg_state, 'db redis_conn, 'a, 'l) server"
  assumes "uuid_laws U" and "redis_laws L" and "argon2_laws lib" and "lower_laws lo" and "gin_laws G"
    and "\<And>w. front_step (postgres_repository P lo) (jwt_env L) w (snd (pool_ping w))"
    and "postgres_world U L lo (srv_world s)"
    and "traffic_run (pg_frontend G RL fmt J U L svc lib lo P A pool_ping origins) (jwt_env L) (s, []) t"
    and "c \<in> set (snd t)" and "cn_rest c = Ret x" and "d \<in> reveals U x"
  shows "\<exists>tok g g' cl. carries (cn_arrival c) tok \<and> gen_later (cn_since c) g \<and> gen_later g (sources (srv_world (fst t))) \<and>
    jwt_validate_access_token J U svc tok g = (Inr cl, g') \<and>
    (d = uuid_String U (claim_user_id cl) \<or> can_manage_roles (claim_role cl))"
proof -
  let ?F = "pg_frontend G RL fmt J U L svc lib lo P A pool_ping origins"
  have F: "he_tokens (fe_env ?F) = jwt_token_service J U L svc" "he_uuid (fe_env ?F) = U"
    by (simp_all add: main_frontend_def main_router_def)
  from concurrent_servers.revealed_to_caller [OF servers_laws [OF assms(1-6)] assms(8,7,9,10), of d, unfolded F(2), OF assms(11)]
  show ?thesis unfolding vouched_def F(1) by (simp add: jwt_token_service_def) blast
qed

lemma account_data_only_for_callers_witness:
  "\<exists>t c x tok g g' cl. demo_traffic (demo_server (demo_pg [demo_user 1 ''bob@e.com'' RoleOwner 0]), []) t \<and>
     c \<in> set (snd t) \<and> cn_rest c = Ret x \<and> uuid_String rfc_uuid 1 \<in> reveals rfc_uuid x \<and>
     carries (cn_arrival c) tok \<and> jwt_validate_access_token demo_jwt rfc_uuid demo_service tok g = (Inr cl, g')"
proof -
  let ?s = "demo_server (demo_pg [demo_user 1 ''bob@e.com'' RoleOwner 0])"
  obtain t c x where t: "demo_traffic (?s, []) t" "c \<in> set (snd t)" "cn_rest c = Ret x"
      "uuid_String rfc_uuid 1 \<in> reveals rfc_uuid x" by (rule demo_get_me)
  have inv: "postgres_world rfc_uuid demo_redis (\<lambda>r. r) (srv_world ?s)" using demo_pg_inv by (simp add: demo_server_def)
  from account_data_only_for_callers [OF rfc_uuid_laws demo_redis_laws demo_argon2_laws lower_laws_id demo_gin_laws idle_ping inv t]
  show ?thesis using t by blast
qed

text \<open>
  \<^bold>\<open>C4\<close> A refresh token is exchanged at most once, by both servers together. Connections arrive at
  any time over HTTP and gRPC and make their steps in any order, with arbitrary failures of Redis and
  PostgreSQL: among all connections that present one refresh token for exchange, at most one is
  answered with new tokens, as long as no UUID is drawn twice.
\<close>

theorem refresh_exchanged_once_under_traffic:
  fixes L :: "'db redis_lib" and s :: "(pg_state, 'db redis_conn, 'a, 'l) server"
  assumes "uuid_laws U" and "redis_laws L" and "argon2_laws lib" and "lower_laws lo" and "gin_laws G"
    and "\<And>w. front_step (postgres_repository P lo) (jwt_env L) w (snd (pool_ping w))"
    and "postgres_world U L lo (srv_world s)"
    and "traffic_run (pg_frontend G RL fmt J U L svc lib lo P A pool_ping origins) (jwt_env L) (s, []) t"
    and "distinct_draws (sources (srv_world (fst t)))"
  shows "length (filter (\<lambda>c. presents (pg_frontend G RL fmt J U L svc lib lo P A pool_ping origins) tok (cn_arrival c) \<and> won c)
    (snd t)) \<le> 1"
  by (rule concurrent_servers.one_winner [OF servers_laws [OF assms(1-6)] assms(8,7,9)])

lemma refresh_exchanged_once_under_traffic_witness:
  "\<exists>t. demo_traffic (demo_server demo_race, []) t \<and> length (snd t) = 2 \<and>
     length (filter (\<lambda>c. presents demo_frontend ConcurrentAccounts.demo_token (cn_arrival c) \<and> won c) (snd t)) \<le> 1 \<and>
     length (filter won (snd t)) = 1"
proof -
  obtain t where t: "demo_traffic (demo_server demo_race, []) t" "distinct_draws (sources (srv_world (fst t)))"
    "length (snd t) = 2" "length (filter won (snd t)) = 1" by (rule demo_race_traffic)
  have inv: "postgres_world rfc_uuid demo_redis (\<lambda>r. r) (srv_world (demo_server demo_race))"
    using demo_race_inv by (simp add: demo_server_def)
  from refresh_exchanged_once_under_traffic [OF rfc_uuid_laws demo_redis_laws demo_argon2_laws lower_laws_id demo_gin_laws idle_ping
      inv t(1,2)]
  show ?thesis using t by blast
qed

text \<open>
  \<^bold>\<open>C5\<close> The constraints of the database and its owner survive the traffic of both servers. Whatever
  requests and calls run concurrently, ids and emails stay unique, no account goes away, and the
  account that is the owner stays the owner and the only one: no interleaving of role changes,
  profile updates and registrations demotes it or makes a second one.
\<close>

theorem owner_stays_under_traffic:
  fixes L :: "'db redis_lib" and s :: "(pg_state, 'db redis_conn, 'a, 'l) server"
  assumes "uuid_laws U" and "redis_laws L" and "argon2_laws lib" and "lower_laws lo" and "gin_laws G"
    and "\<And>w. front_step (postgres_repository P lo) (jwt_env L) w (snd (pool_ping w))"
    and "postgres_world U L lo (srv_world s)"
    and "traffic_run (pg_frontend G RL fmt J U L svc lib lo P A pool_ping origins) (jwt_env L) (s, []) t"
    and "distinct_draws (sources (srv_world (fst t)))"
    and "r \<in> set (users_table (repo (srv_world s)))" and "row_role r = ''owner''"
  shows "pg_constraints (users_table (repo (srv_world (fst t)))) \<and>
    row_id ` set (users_table (repo (srv_world s))) \<subseteq> row_id ` set (users_table (repo (srv_world (fst t)))) \<and>
    (\<exists>r'. filter (\<lambda>r. row_role r = ''owner'') (users_table (repo (srv_world (fst t)))) = [r'] \<and> row_id r' = row_id r)"
  by (rule owner_row_kept [OF concurrent_servers.traffic_moves [OF servers_laws [OF assms(1-6)] assms(8,7)] assms(7,9-11)])

lemma owner_stays_under_traffic_witness:
  "\<exists>t r'. demo_traffic (demo_server demo_race, []) t \<and> length (snd t) = 2 \<and>
     filter (\<lambda>r. row_role r = ''owner'') (users_table (repo (srv_world (fst t)))) = [r'] \<and> row_id r' = 1"
proof -
  obtain t where t: "demo_traffic (demo_server demo_race, []) t" "distinct_draws (sources (srv_world (fst t)))"
    "length (snd t) = 2" by (rule demo_race_traffic)
  let ?r = "row_of_user demo_pg_lib (demo_user 1 ''bob@e.com'' RoleOwner 0)"
  have inv: "postgres_world rfc_uuid demo_redis (\<lambda>r. r) (srv_world (demo_server demo_race))"
    using demo_race_inv by (simp add: demo_server_def)
  have r: "?r \<in> set (users_table (repo (srv_world (demo_server demo_race))))" "row_role ?r = ''owner''" "row_id ?r = 1"
    by (simp_all add: demo_server_def demo_race_def demo_pg_def demo_user_def user_key_def)
  from owner_stays_under_traffic [OF rfc_uuid_laws demo_redis_laws demo_argon2_laws lower_laws_id demo_gin_laws idle_ping
      inv t(1,2) r(1,2)]
  show ?thesis using t(1,3) r(3) by (intro exI [of _ t]) auto
qed

end
