(* ===== verification/Telemetry.thy ===== *)
theory Telemetry
  imports Startup
begin

section \<open>Telemetry\<close>

text \<open>
  \<^verbatim>\<open>internal/infrastructure/telemetry/setup.go\<close>. The exporters and providers of OpenTelemetry and zap
  are libraries; what the code decides is their configuration, which providers become the global ones,
  and the deadlines of the shutdown functions. The libraries are the record \<open>telemetry_lib\<close>: the errors
  of their constructors, and what a provider's \<^verbatim>\<open>Shutdown\<close> answers when its context ends at a given
  time, and when it returns. A context is the time at which it ends, if any.
\<close>

record logger_config =
  log_production :: bool
  TimeKey :: string
  EncodeTime :: string
  InitialFields :: "(string \<times> string) list"

datatype trace_sampler = AlwaysSample | NeverSample

record tracer_provider =
  tp_endpoint :: string
  tp_insecure :: bool
  tp_service :: string
  tp_sampler :: trace_sampler

datatype meter_provider = PrometheusMeter

text \<open>The providers OpenTelemetry keeps in global variables.\<close>

record otel_globals =
  tracer :: "tracer_provider option"
  meter :: "meter_provider option"

record telemetry_lib =
  zap_Build :: "logger_config \<Rightarrow> error option"
  otlp_New :: "string \<Rightarrow> bool \<Rightarrow> error option"
  prom_New :: "error option"
  tp_Shutdown :: "tracer_provider \<Rightarrow> time \<Rightarrow> time \<Rightarrow> error option \<times> time"
  mp_Shutdown :: "meter_provider \<Rightarrow> time \<Rightarrow> time \<Rightarrow> error option \<times> time"

text \<open>
  A shutdown function: given the end of its context, if any, and the time of the call, its error and
  the time it returns. \<^verbatim>\<open>context.WithTimeout\<close> never extends the deadline of its parent.
\<close>

type_synonym shutdown = "time option \<Rightarrow> time \<Rightarrow> error option \<times> time"

definition with_timeout :: "duration \<Rightarrow> time option \<Rightarrow> time \<Rightarrow> time" where
  "with_timeout d ctx now = (case ctx of None \<Rightarrow> now + d | Some e \<Rightarrow> min e (now + d))"

definition logger_cfg :: "string \<Rightarrow> logger_config" where
  "logger_cfg serviceName = \<lparr>log_production = True, TimeKey = ''ts'', EncodeTime = ''iso8601'',
     InitialFields = [(''service'', serviceName)]\<rparr>"

definition InitLogger :: "telemetry_lib \<Rightarrow> string \<Rightarrow> error + logger_config" where
  "InitLogger B serviceName =
    (case zap_Build B (logger_cfg serviceName) of Some e \<Rightarrow> Inl e | None \<Rightarrow> Inr (logger_cfg serviceName))"

definition InitTracing ::
  "telemetry_lib \<Rightarrow> string \<Rightarrow> string \<Rightarrow> otel_globals \<Rightarrow> (error + shutdown) \<times> otel_globals" where
  "InitTracing B serviceName otlpEndpoint G =
    (case otlp_New B otlpEndpoint True of
       Some e \<Rightarrow> (Inl e, G)
     | None \<Rightarrow>
        (let tp = \<lparr>tp_endpoint = otlpEndpoint, tp_insecure = True, tp_service = serviceName, tp_sampler = AlwaysSample\<rparr>
         in (Inr (\<lambda>ctx now. tp_Shutdown B tp (with_timeout (5 * Second) ctx now) now), G\<lparr>tracer := Some tp\<rparr>)))"

definition InitPrometheus :: "telemetry_lib \<Rightarrow> otel_globals \<Rightarrow> (error + shutdown) \<times> otel_globals" where
  "InitPrometheus B G =
    (case prom_New B of
       Some e \<Rightarrow> (Inl e, G)
     | None \<Rightarrow>
        (Inr (\<lambda>ctx now. mp_Shutdown B PrometheusMeter (with_timeout (5 * Second) ctx now) now), G\<lparr>meter := Some PrometheusMeter\<rparr>))"

text \<open>The provider's \<^verbatim>\<open>Shutdown\<close> returns by the end of its context; an ended context ends it at once.\<close>

definition telemetry_laws :: "telemetry_lib \<Rightarrow> bool" where
  "telemetry_laws B \<longleftrightarrow>
     (\<forall>tp e now. now \<le> snd (tp_Shutdown B tp e now) \<and> snd (tp_Shutdown B tp e now) \<le> max e now) \<and>
     (\<forall>mp e now. now \<le> snd (mp_Shutdown B mp e now) \<and> snd (mp_Shutdown B mp e now) \<le> max e now)"

lemma with_timeout_bounds:
  "with_timeout d ctx now \<le> now + d" "ctx = Some e \<Longrightarrow> with_timeout d ctx now \<le> e"
  by (auto simp: with_timeout_def split: option.splits)

text \<open>\<^verbatim>\<open>main\<close> keeps the tracer's shutdown function; a failed exporter leaves it nil and the globals alone.\<close>

lemma InitTracing_cases:
  assumes "InitTracing B s endpoint G = (r, G')"
  shows "is_err r \<and> G' = G \<or> (\<exists>sh tp. r = Inr sh \<and> tracer G' = Some tp \<and> tp_endpoint tp = endpoint \<and> meter G' = meter G)"
  using assms by (auto simp: InitTracing_def Let_def split: option.splits)

lemma shutdown_in_time:
  assumes "telemetry_laws B" "InitTracing B s endpoint G = (Inr sh, G')"
  shows "now \<le> snd (sh ctx now) \<and> snd (sh ctx now) \<le> max (with_timeout (5 * Second) ctx now) now"
  using assms by (auto simp: InitTracing_def telemetry_laws_def Let_def split: option.splits)

end
