(* ===== verification/Shutdown.thy ===== *)
theory Shutdown
  imports Telemetry
begin

section \<open>The end of the server\<close>

text \<open>
  \<^verbatim>\<open>cmd/server/main.go\<close> from the start of the servers: \<^verbatim>\<open>main\<close> waits for a signal, drains the HTTP
  server, races \<^verbatim>\<open>GracefulStop\<close> of the gRPC server against the deadline in a goroutine of its own, and
  flushes the traces. The steps of \<^verbatim>\<open>main\<close>, of that goroutine, of the servers and of the clock
  interleave. \<^verbatim>\<open>srv.Shutdown\<close> is net/http's: it stops accepting at once and returns when no request is
  active or its context ends. The gRPC server is a library, the record \<open>grpc_lib\<close> over its state.
\<close>

subsection \<open>Telemetry in main\<close>

definition service_name :: string where "service_name = ''go-enterprise-boilerplate''"

definition main_tracing :: "telemetry_lib \<Rightarrow> string \<Rightarrow> otel_globals \<Rightarrow> shutdown option \<times> otel_globals" where
  "main_tracing B endpoint G =
    (case InitTracing B service_name endpoint G of (Inl e, G) \<Rightarrow> (None, G) | (Inr f, G) \<Rightarrow> (Some f, G))"

text \<open>What \<^verbatim>\<open>main\<close> sees of it at the start.\<close>

definition with_telemetry :: "telemetry_lib \<Rightarrow> otel_globals \<Rightarrow> main_os \<Rightarrow> main_os" where
  "with_telemetry B G os = os\<lparr>
     os_InitLogger := case_sum Some (\<lambda>_. None) (InitLogger B service_name),
     os_InitTracing := (\<lambda>endpoint. case_sum Some (\<lambda>_. None) (fst (InitTracing B service_name endpoint G))),
     os_InitPrometheus := case_sum Some (\<lambda>_. None) (fst (InitPrometheus B G))\<rparr>"

lemma fst_fatal: "fst (fatal_if x e log) = fst (fatal_if x e log')" "fst (fatal_or x r log) = fst (fatal_or x r log')"
  by (simp_all add: fatal_if_def fatal_or_def)

lemma fst_try_do:
  assumes "fst p = fst p'" "\<And>x w w'. fst (k x w) = fst (k' x w')"
  shows "fst (try_do p k) = fst (try_do p' k')"
  using assms by (cases p; cases p'; cases "fst p") auto

text \<open>Whether there is tracing or metrics changes the log of the start, never its outcome.\<close>

lemma telemetry_is_optional:
  "fst (main_start V env (os\<lparr>os_InitTracing := t, os_InitPrometheus := p\<rparr>) B J) = fst (main_start V env os B J)"
proof -
  let ?os = "os\<lparr>os_InitTracing := t, os_InitPrometheus := p\<rparr>"
  have "fst (main_redis ?os cfg log) = fst (main_redis os cfg log')" for cfg log log'
    by (simp add: main_redis_def) (intro fst_try_do fst_fatal, simp)
  moreover have "fst (main_adapter ?os cfg log) = fst (main_adapter os cfg log')" for cfg log log'
    by (simp add: main_adapter_def Let_def) (intro impI fst_try_do fst_fatal, simp)
  moreover have "fst (main_tokens ?os J cfg log) = fst (main_tokens os J cfg log')" for cfg log log'
    by (simp add: main_tokens_def) (intro fst_try_do fst_fatal)
  ultimately show ?thesis
    unfolding main_start_def Let_def by (simp, intro fst_try_do fst_fatal) (auto intro!: fst_fatal)
qed

subsection \<open>State\<close>

record 'g grpc_lib =
  gl_GracefulStop :: "'g \<Rightarrow> 'g"
  gl_Stop :: "'g \<Rightarrow> 'g"
  gl_drained :: "'g \<Rightarrow> bool"
  gl_accepts :: "'g \<Rightarrow> bool"
  gl_moves :: "'g \<Rightarrow> 'g \<Rightarrow> bool"

text \<open>A stopped gRPC server accepts no call again.\<close>

definition grpc_laws :: "'g grpc_lib \<Rightarrow> bool" where
  "grpc_laws L \<longleftrightarrow> (\<forall>g. \<not> gl_accepts L (gl_GracefulStop L g)) \<and> (\<forall>g. \<not> gl_accepts L (gl_Stop L g)) \<and>
     (\<forall>g g'. gl_moves L g g' \<longrightarrow> \<not> gl_accepts L g \<longrightarrow> \<not> gl_accepts L g')"

datatype main_pc = AwaitSignal | AwaitHttp | AwaitGrpc | AwaitTrace "error option" time | Stopped | Crashed
datatype stop_goroutine = NotSpawned | Spawned | Stopping | Closed
datatype stop_entry = SInfo string | SWarn string "error option" | SError string error

record 'g server_state =
  pc :: main_pc
  signalled :: bool
  now :: time
  deadline :: time
  http_open :: bool
  http_active :: nat
  grpc :: 'g
  goroutine :: stop_goroutine
  stop_log :: "stop_entry list"

definition serving :: "'g grpc_lib \<Rightarrow> 'g server_state \<Rightarrow> bool" where
  "serving L s \<longleftrightarrow> pc s = AwaitSignal \<and> \<not> signalled s \<and> http_open s \<and> goroutine s = NotSpawned"

definition ended :: "'g server_state \<Rightarrow> bool" where
  "ended s \<longleftrightarrow> pc s = Stopped \<or> pc s = Crashed"

subsection \<open>Steps of main\<close>

definition put_log :: "stop_entry \<Rightarrow> 'g server_state \<Rightarrow> 'g server_state" where
  "put_log e s = s\<lparr>stop_log := stop_log s @ [e]\<rparr>"

definition begin_shutdown :: "'g server_state \<Rightarrow> 'g server_state" where
  "begin_shutdown s = (put_log (SInfo ''shutting down'') s)
     \<lparr>pc := AwaitHttp, deadline := now s + 15 * Second, http_open := False\<rparr>"

definition spawn_graceful_stop :: "'g server_state \<Rightarrow> 'g server_state" where
  "spawn_graceful_stop s = s\<lparr>pc := AwaitGrpc, goroutine := Spawned\<rparr>"

definition trace_shutdown :: "shutdown option \<Rightarrow> 'g server_state \<Rightarrow> 'g server_state" where
  "trace_shutdown shutTrace s =
    (case shutTrace of
       None \<Rightarrow> (put_log (SInfo ''server stopped'') s)\<lparr>pc := Stopped\<rparr>
     | Some f \<Rightarrow> (case f (Some (deadline s)) (now s) of (e, t) \<Rightarrow> s\<lparr>pc := AwaitTrace e t\<rparr>))"

definition trace_done :: "error option \<Rightarrow> 'g server_state \<Rightarrow> 'g server_state" where
  "trace_done e s =
    (put_log (SInfo ''server stopped'')
      (case e of None \<Rightarrow> s | Some e \<Rightarrow> put_log (SWarn ''trace shutdown error'' (Some e)) s))\<lparr>pc := Stopped\<rparr>"

definition deadline_exceeded :: error where
  "deadline_exceeded = External ''context deadline exceeded''"

inductive main_step :: "'g grpc_lib \<Rightarrow> shutdown option \<Rightarrow> 'g server_state \<Rightarrow> 'g server_state \<Rightarrow> bool"
  for L shutTrace where
  signal: "pc s = AwaitSignal \<Longrightarrow> signalled s \<Longrightarrow> main_step L shutTrace s (begin_shutdown s)"
| http_idle: "pc s = AwaitHttp \<Longrightarrow> http_active s = 0 \<Longrightarrow> main_step L shutTrace s (spawn_graceful_stop s)"
| http_late: "pc s = AwaitHttp \<Longrightarrow> deadline s \<le> now s \<Longrightarrow>
    main_step L shutTrace s (spawn_graceful_stop (put_log (SError ''graceful shutdown failed'' deadline_exceeded) s))"
| grpc_stopped: "pc s = AwaitGrpc \<Longrightarrow> goroutine s = Closed \<Longrightarrow> main_step L shutTrace s (trace_shutdown shutTrace s)"
| grpc_late: "pc s = AwaitGrpc \<Longrightarrow> deadline s \<le> now s \<Longrightarrow>
    main_step L shutTrace s (trace_shutdown shutTrace
      ((put_log (SWarn ''grpc graceful stop timed out, forcing stop'' None) s)\<lparr>grpc := gl_Stop L (grpc s)\<rparr>))"
| traced: "pc s = AwaitTrace e t \<Longrightarrow> t \<le> now s \<Longrightarrow> main_step L shutTrace s (trace_done e s)"

subsection \<open>Steps of everything else\<close>

text \<open>
  A signal arrives, time passes, HTTP requests come and go, the gRPC server goes on, the goroutine
  calls \<^verbatim>\<open>GracefulStop\<close> and closes its channel when that returns. A server whose \<^verbatim>\<open>Serve\<close> fails while it
  should be listening ends the process with \<^verbatim>\<open>log.Fatal\<close>.
\<close>

inductive other_step :: "'g grpc_lib \<Rightarrow> 'g server_state \<Rightarrow> 'g server_state \<Rightarrow> bool" for L where
  os_signal: "other_step L s (s\<lparr>signalled := True\<rparr>)"
| tick: "now s \<le> t \<Longrightarrow> other_step L s (s\<lparr>now := t\<rparr>)"
| http_arrives: "http_open s \<Longrightarrow> other_step L s (s\<lparr>http_active := Suc (http_active s)\<rparr>)"
| http_done: "other_step L s (s\<lparr>http_active := http_active s - 1\<rparr>)"
| grpc_moves: "gl_moves L (grpc s) g \<Longrightarrow> other_step L s (s\<lparr>grpc := g\<rparr>)"
| stop_called: "goroutine s = Spawned \<Longrightarrow>
    other_step L s (s\<lparr>goroutine := Stopping, grpc := gl_GracefulStop L (grpc s)\<rparr>)"
| stop_returned: "goroutine s = Stopping \<Longrightarrow> gl_drained L (grpc s) \<Longrightarrow> other_step L s (s\<lparr>goroutine := Closed\<rparr>)"
| http_fails: "http_open s \<Longrightarrow> \<not> ended s \<Longrightarrow> other_step L s (s\<lparr>pc := Crashed\<rparr>)"
| grpc_fails: "gl_accepts L (grpc s) \<Longrightarrow> \<not> ended s \<Longrightarrow> other_step L s (s\<lparr>pc := Crashed\<rparr>)"

inductive_cases main_stepE: "main_step L shutTrace s s'"
inductive_cases other_stepE: "other_step L s s'"

definition server_step :: "'g grpc_lib \<Rightarrow> shutdown option \<Rightarrow> 'g server_state \<Rightarrow> 'g server_state \<Rightarrow> bool" where
  "server_step L shutTrace s s' \<longleftrightarrow> main_step L shutTrace s s' \<or> other_step L s s'"

text \<open>Main is runnable when one of its steps is possible, computed here.\<close>

definition runnable :: "'g server_state \<Rightarrow> bool" where
  "runnable s = (case pc s of
     AwaitSignal \<Rightarrow> signalled s
   | AwaitHttp \<Rightarrow> http_active s = 0 \<or> deadline s \<le> now s
   | AwaitGrpc \<Rightarrow> goroutine s = Closed \<or> deadline s \<le> now s
   | AwaitTrace e t \<Rightarrow> t \<le> now s
   | _ \<Rightarrow> False)"

lemma runnable_iff: "runnable s \<longleftrightarrow> (\<exists>s'. main_step L shutTrace s s')"
  by (auto simp: runnable_def split: main_pc.splits elim!: main_stepE intro: main_step.intros)

definition rank :: "main_pc \<Rightarrow> nat" where
  "rank p = (case p of AwaitSignal \<Rightarrow> 4 | AwaitHttp \<Rightarrow> 3 | AwaitGrpc \<Rightarrow> 2 | AwaitTrace _ _ \<Rightarrow> 1 | _ \<Rightarrow> 0)"

subsection \<open>Invariant and progress\<close>

text \<open>
  \<open>stop_inv\<close>: once \<^verbatim>\<open>main\<close> has its signal HTTP is closed; past the race of the gRPC server that server
  accepts nothing; the flush of the traces ends by the deadline or now.
\<close>

definition stop_inv :: "'g grpc_lib \<Rightarrow> 'g server_state \<Rightarrow> bool" where
  "stop_inv L s \<longleftrightarrow> (pc s \<noteq> AwaitSignal \<and> pc s \<noteq> Crashed \<longrightarrow> \<not> http_open s) \<and>
     (goroutine s = Stopping \<or> goroutine s = Closed \<longrightarrow> \<not> gl_accepts L (grpc s)) \<and>
     (case pc s of
        AwaitTrace e t \<Rightarrow> \<not> gl_accepts L (grpc s) \<and> t \<le> max (deadline s) (now s)
      | Stopped \<Rightarrow> \<not> gl_accepts L (grpc s)
      | _ \<Rightarrow> True)"

definition trace_in_time :: "shutdown option \<Rightarrow> bool" where
  "trace_in_time shutTrace \<longleftrightarrow>
     (\<forall>f e now. shutTrace = Some f \<longrightarrow> snd (f (Some e) now) \<le> max e now)"

lemma main_tracing_in_time:
  assumes "telemetry_laws B"
  shows "trace_in_time (fst (main_tracing B endpoint G))"
proof -
  have "snd (f (Some e) now) \<le> max e now" if "InitTracing B service_name endpoint G = (Inr f, G')" for f G' e now
    using shutdown_in_time [OF assms that, of now "Some e"] with_timeout_bounds(2) [OF refl, of "5 * Second" e now] by linarith
  then show ?thesis by (auto simp: trace_in_time_def main_tracing_def split: prod.splits sum.splits)
qed

lemma serving_inv: "serving L s \<Longrightarrow> stop_inv L s"
  by (simp add: serving_def stop_inv_def)

lemma trace_shutdown_inv:
  assumes "trace_in_time shutTrace" "\<not> http_open s" "\<not> gl_accepts L (grpc s)"
  shows "stop_inv L (trace_shutdown shutTrace s)"
proof (cases shutTrace)
  case (Some f)
  obtain e t where f: "f (Some (deadline s)) (now s) = (e, t)" by fastforce
  then have "t \<le> max (deadline s) (now s)"
    using assms(1) Some unfolding trace_in_time_def by (metis snd_conv)
  then show ?thesis using assms(2,3) Some f by (simp add: stop_inv_def trace_shutdown_def)
qed (use assms(2,3) in \<open>simp add: stop_inv_def trace_shutdown_def put_log_def\<close>)

lemma main_step_inv:
  assumes "grpc_laws L" "trace_in_time shutTrace" "stop_inv L s" "main_step L shutTrace s s'"
  shows "stop_inv L s'"
  using assms(4)
proof cases
  case grpc_late
  show ?thesis unfolding grpc_late(1)
    by (rule trace_shutdown_inv [OF assms(2)])
      (use assms(1,3) grpc_late in \<open>simp_all add: stop_inv_def grpc_laws_def put_log_def\<close>)
next
  case grpc_stopped
  show ?thesis unfolding grpc_stopped(1)
    by (rule trace_shutdown_inv [OF assms(2)]) (use assms(3) grpc_stopped in \<open>simp_all add: stop_inv_def\<close>)
qed (use assms(3) in \<open>auto simp: stop_inv_def begin_shutdown_def spawn_graceful_stop_def put_log_def trace_done_def split: option.splits\<close>)

lemma other_step_inv:
  assumes "grpc_laws L" "stop_inv L s" "other_step L s s'"
  shows "stop_inv L s'"
  using assms(3)
proof cases
  case (tick t)
  then show ?thesis using assms(2) by (cases "pc s") (auto simp: stop_inv_def)
next
  case (grpc_moves g)
  then show ?thesis using assms(1,2) by (cases "pc s") (auto simp: stop_inv_def grpc_laws_def)
next
  case stop_called
  then show ?thesis using assms(1,2) by (cases "pc s") (auto simp: stop_inv_def grpc_laws_def)
qed (use assms(2) in \<open>auto simp: stop_inv_def split: main_pc.splits\<close>)

lemma rank_trace_shutdown: "rank (pc (trace_shutdown shutTrace s)) \<le> 1"
  by (simp add: trace_shutdown_def put_log_def rank_def split: option.splits prod.splits)

lemma main_step_rank: "main_step L shutTrace s s' \<Longrightarrow> rank (pc s') < rank (pc s)"
proof (induction rule: main_step.induct)
  case (grpc_stopped s)
  then show ?case using rank_trace_shutdown [of shutTrace s] by (simp add: rank_def [of AwaitGrpc])
next
  case (grpc_late s)
  then show ?case
    by (simp add: rank_def [of AwaitGrpc] less_Suc_eq_le numeral_2_eq_2)
      (rule order_trans [OF rank_trace_shutdown], simp)
qed (auto simp: rank_def begin_shutdown_def spawn_graceful_stop_def trace_done_def)

lemma other_step_frame:
  "other_step L s s' \<Longrightarrow> (pc s' = pc s \<or> pc s' = Crashed) \<and> deadline s' = deadline s \<and> now s \<le> now s' \<and>
     (signalled s \<longrightarrow> signalled s')"
  by (induction rule: other_step.induct) auto

lemma main_step_frame: "main_step L shutTrace s s' \<Longrightarrow> now s' = now s \<and> signalled s' = signalled s"
  by (induction rule: main_step.induct)
    (auto simp: begin_shutdown_def spawn_graceful_stop_def trace_done_def trace_shutdown_def put_log_def
      split: option.splits prod.splits)

lemma server_step_rank:
  assumes "server_step L shutTrace s s'"
  shows "rank (pc s') \<le> rank (pc s)" and "now s \<le> now s'" and "signalled s \<longrightarrow> signalled s'"
proof -
  show "rank (pc s') \<le> rank (pc s)"
    using assms unfolding server_step_def
  proof
    assume "main_step L shutTrace s s'"
    then show ?thesis using main_step_rank less_imp_le by blast
  next
    assume "other_step L s s'"
    then have "pc s' = pc s \<or> pc s' = Crashed" using other_step_frame by blast
    then show ?thesis by (auto simp: rank_def)
  qed
  show "now s \<le> now s'" "signalled s \<longrightarrow> signalled s'"
    using assms main_step_frame [of L shutTrace s s'] other_step_frame [of L s s'] unfolding server_step_def by auto
qed

lemma ended_iff_rank: "ended s \<longleftrightarrow> rank (pc s) = 0"
  by (auto simp: ended_def rank_def split: main_pc.splits)

lemma late_runnable:
  "stop_inv L s \<Longrightarrow> \<not> ended s \<Longrightarrow> pc s \<noteq> AwaitSignal \<Longrightarrow> deadline s \<le> now s \<Longrightarrow> runnable s"
  by (auto simp: stop_inv_def runnable_def ended_def split: main_pc.splits)

subsection \<open>Executions\<close>

text \<open>
  An infinite execution, stuttering allowed. It is fair when the clock goes beyond every time and
  \<^verbatim>\<open>main\<close> is not runnable for ever without moving.
\<close>

definition execution :: "'g grpc_lib \<Rightarrow> shutdown option \<Rightarrow> (nat \<Rightarrow> 'g server_state) \<Rightarrow> bool" where
  "execution L shutTrace \<sigma> \<longleftrightarrow> serving L (\<sigma> 0) \<and>
     (\<forall>n. \<sigma> (Suc n) = \<sigma> n \<or> server_step L shutTrace (\<sigma> n) (\<sigma> (Suc n)))"

definition fair :: "'g grpc_lib \<Rightarrow> shutdown option \<Rightarrow> (nat \<Rightarrow> 'g server_state) \<Rightarrow> bool" where
  "fair L shutTrace \<sigma> \<longleftrightarrow> (\<forall>t. \<exists>n. t \<le> now (\<sigma> n)) \<and>
     (\<forall>n. (\<forall>m\<ge>n. runnable (\<sigma> m)) \<longrightarrow> (\<exists>m\<ge>n. main_step L shutTrace (\<sigma> m) (\<sigma> (Suc m))))"

lemma execution_inv:
  assumes "grpc_laws L" "trace_in_time shutTrace" "execution L shutTrace \<sigma>"
  shows "stop_inv L (\<sigma> n)"
proof (induction n)
  case 0
  then show ?case using assms(3) serving_inv by (auto simp: execution_def)
next
  case (Suc n)
  then show ?case
    using assms main_step_inv other_step_inv unfolding execution_def server_step_def by metis
qed

lemma execution_now:
  assumes "execution L shutTrace \<sigma>" "m \<le> n"
  shows "now (\<sigma> m) \<le> now (\<sigma> n) \<and> (signalled (\<sigma> m) \<longrightarrow> signalled (\<sigma> n)) \<and> rank (pc (\<sigma> n)) \<le> rank (pc (\<sigma> m))"
  using assms(2)
proof (induction rule: dec_induct)
  case (step n)
  have "\<sigma> (Suc n) = \<sigma> n \<or> server_step L shutTrace (\<sigma> n) (\<sigma> (Suc n))" using assms(1) by (simp add: execution_def)
  then have "now (\<sigma> n) \<le> now (\<sigma> (Suc n)) \<and> (signalled (\<sigma> n) \<longrightarrow> signalled (\<sigma> (Suc n))) \<and>
      rank (pc (\<sigma> (Suc n))) \<le> rank (pc (\<sigma> n))"
    using server_step_rank [of L shutTrace "\<sigma> n" "\<sigma> (Suc n)"] by auto
  then show ?case using step.IH by auto
qed simp

text \<open>A non-increasing rank is constant from some point on; from there \<^verbatim>\<open>main\<close> stands where it is.\<close>

lemma rank_settles:
  fixes r :: "nat \<Rightarrow> nat"
  assumes "\<And>m n. m \<le> n \<Longrightarrow> r n \<le> r m"
  obtains N where "\<And>m. N \<le> m \<Longrightarrow> r m = r N"
proof -
  obtain N where N: "\<forall>n. r N \<le> r n" using ex_has_least_nat [of "\<lambda>_. True" 0 r] by auto
  show thesis by (rule that [of N]) (use N assms in \<open>simp add: order_antisym\<close>)
qed

lemma standing:
  assumes "execution L shutTrace \<sigma>" "\<And>m. N \<le> m \<Longrightarrow> rank (pc (\<sigma> m)) = rank (pc (\<sigma> N))"
    "\<not> ended (\<sigma> N)" "N \<le> m"
  shows "pc (\<sigma> m) = pc (\<sigma> N) \<and> deadline (\<sigma> m) = deadline (\<sigma> N)"
  using assms(4)
proof (induction rule: dec_induct)
  case (step m)
  have r: "rank (pc (\<sigma> (Suc m))) = rank (pc (\<sigma> m))" using assms(2) [of m] assms(2) [of "Suc m"] step.hyps by simp
  then have no: "\<not> main_step L shutTrace (\<sigma> m) (\<sigma> (Suc m))" using main_step_rank by fastforce
  have "\<not> ended (\<sigma> (Suc m))" using r assms(2) [of m] assms(3) step.hyps by (simp add: ended_iff_rank)
  then have "pc (\<sigma> (Suc m)) \<noteq> Crashed" by (simp add: ended_def)
  moreover have "\<sigma> (Suc m) = \<sigma> m \<or> other_step L (\<sigma> m) (\<sigma> (Suc m))"
    using no assms(1) by (auto simp: execution_def server_step_def)
  ultimately show ?case using step.IH other_step_frame [of L "\<sigma> m" "\<sigma> (Suc m)"] by auto
qed simp

lemma shutdown_completes:
  assumes "execution L shutTrace \<sigma>" "fair L shutTrace \<sigma>" "signalled (\<sigma> k)"
  shows "\<exists>n. ended (\<sigma> n)"
proof (rule ccontr)
  assume "\<nexists>n. ended (\<sigma> n)"
  then have open': "\<not> ended (\<sigma> n)" for n by blast
  obtain N where N: "\<And>m. N \<le> m \<Longrightarrow> rank (pc (\<sigma> m)) = rank (pc (\<sigma> N))"
    using rank_settles [of "\<lambda>n. rank (pc (\<sigma> n))"] execution_now [OF assms(1)] by metis
  have stands: "pc (\<sigma> m) = pc (\<sigma> N) \<and> deadline (\<sigma> m) = deadline (\<sigma> N)" if "N \<le> m" for m
    by (rule standing [OF assms(1) _ open' that]) (rule N)
  define t where "t = (case pc (\<sigma> N) of AwaitTrace e t \<Rightarrow> t | _ \<Rightarrow> deadline (\<sigma> N))"
  obtain M where M: "t \<le> now (\<sigma> M)" using assms(2) by (auto simp: fair_def)
  have "runnable (\<sigma> m)" if "max N (max M k) \<le> m" for m
  proof -
    have le: "N \<le> m" "M \<le> m" "k \<le> m" using that by simp_all
    have p: "pc (\<sigma> m) = pc (\<sigma> N)" and d: "deadline (\<sigma> m) = deadline (\<sigma> N)" using stands [OF le(1)] by blast+
    have late: "t \<le> now (\<sigma> m)" using M execution_now [OF assms(1) le(2)] by linarith
    have sig: "signalled (\<sigma> m)" using assms(3) execution_now [OF assms(1) le(3)] by blast
    have "pc (\<sigma> N) \<noteq> Stopped" "pc (\<sigma> N) \<noteq> Crashed" using open' [of N] by (simp_all add: ended_def)
    then show ?thesis
      using late sig unfolding runnable_def t_def p d by (cases "pc (\<sigma> N)") simp_all
  qed
  then have "\<forall>m\<ge>max N (max M k). runnable (\<sigma> m)" by blast
  then obtain m where m: "max N (max M k) \<le> m" "main_step L shutTrace (\<sigma> m) (\<sigma> (Suc m))"
    using assms(2) unfolding fair_def by blast
  then have "rank (pc (\<sigma> (Suc m))) < rank (pc (\<sigma> m))" by (intro main_step_rank)
  then show False using N [of m] N [of "Suc m"] m(1) by simp
qed


text \<open>A request that never ends: the deadline passes, gRPC is stopped at once, and there is no exporter.\<close>

definition demo_grpc :: "bool grpc_lib" where
  "demo_grpc = \<lparr>gl_GracefulStop = (\<lambda>_. False), gl_Stop = (\<lambda>_. False), gl_drained = Not, gl_accepts = (\<lambda>g. g), gl_moves = (=)\<rparr>"

definition demo_telemetry :: telemetry_lib where
  "demo_telemetry = \<lparr>zap_Build = (\<lambda>_. None), otlp_New = (\<lambda>_ _. Some (External ''no collector'')), prom_New = None,
     tp_Shutdown = (\<lambda>_ _ now. (None, now)), mp_Shutdown = (\<lambda>_ _ now. (None, now))\<rparr>"

definition demo_stop :: "nat \<Rightarrow> bool server_state" where
  "demo_stop n =
    (let s0 = \<lparr>pc = AwaitSignal, signalled = False, now = 0, deadline = 0, http_open = True, http_active = 1, grpc = True,
               goroutine = NotSpawned, stop_log = []\<rparr>;
         s1 = s0\<lparr>signalled := True\<rparr>;
         s2 = begin_shutdown s1;
         s3 = s2\<lparr>now := 15 * Second\<rparr>;
         s4 = spawn_graceful_stop (put_log (SError ''graceful shutdown failed'' deadline_exceeded) s3);
         s5 = trace_shutdown None ((put_log (SWarn ''grpc graceful stop timed out, forcing stop'' None) s4)
                \<lparr>grpc := gl_Stop demo_grpc (grpc s4)\<rparr>)
     in if n < 5 then [s0, s1, s2, s3, s4] ! n else s5\<lparr>now := 15 * Second + int (n - 5)\<rparr>)"

lemma demo_stop_end: "5 \<le> n \<Longrightarrow> pc (demo_stop n) = Stopped \<and> http_active (demo_stop n) = 1 \<and> now (demo_stop n) = 15 * Second + int (n - 5)"
  by (simp add: demo_stop_def Let_def trace_shutdown_def put_log_def spawn_graceful_stop_def begin_shutdown_def)

lemma demo_stop_eqs:
  "demo_stop 1 = (demo_stop 0)\<lparr>signalled := True\<rparr>"
  "demo_stop 2 = begin_shutdown (demo_stop 1)"
  "demo_stop 3 = (demo_stop 2)\<lparr>now := 15 * Second\<rparr>"
  "demo_stop 4 = spawn_graceful_stop (put_log (SError ''graceful shutdown failed'' deadline_exceeded) (demo_stop 3))"
  "demo_stop 5 = trace_shutdown None ((put_log (SWarn ''grpc graceful stop timed out, forcing stop'' None) (demo_stop 4))
     \<lparr>grpc := gl_Stop demo_grpc (grpc (demo_stop 4))\<rparr>)"
  "5 \<le> n \<Longrightarrow> demo_stop (Suc n) = (demo_stop n)\<lparr>now := 15 * Second + int (Suc n - 5)\<rparr>"
  by (simp_all add: demo_stop_def Let_def begin_shutdown_def spawn_graceful_stop_def trace_shutdown_def put_log_def numeral_eq_Suc)

lemma demo_stop_pcs:
  "pc (demo_stop 1) = AwaitSignal" "signalled (demo_stop 1)" "now (demo_stop 2) = 0" "pc (demo_stop 3) = AwaitHttp"
  "deadline (demo_stop 3) = now (demo_stop 3)" "pc (demo_stop 4) = AwaitGrpc" "deadline (demo_stop 4) = now (demo_stop 4)"
  by (simp_all add: demo_stop_def Let_def begin_shutdown_def spawn_graceful_stop_def put_log_def numeral_eq_Suc)

lemma demo_stop_step: "server_step demo_grpc None (demo_stop n) (demo_stop (Suc n))"
proof -
  have "server_step demo_grpc None (demo_stop 0) (demo_stop 1)"
    unfolding demo_stop_eqs(1) server_step_def by (intro disjI2 other_step.os_signal)
  moreover have "server_step demo_grpc None (demo_stop 1) (demo_stop 2)"
    unfolding demo_stop_eqs(2) server_step_def by (intro disjI1 main_step.signal demo_stop_pcs)
  moreover have "server_step demo_grpc None (demo_stop 2) (demo_stop 3)"
    unfolding demo_stop_eqs(3) server_step_def by (intro disjI2 other_step.tick) (simp add: demo_stop_pcs)
  moreover have "server_step demo_grpc None (demo_stop 3) (demo_stop 4)"
    unfolding demo_stop_eqs(4) server_step_def by (intro disjI1 main_step.http_late) (simp_all add: demo_stop_pcs)
  moreover have "server_step demo_grpc None (demo_stop 4) (demo_stop 5)"
    unfolding demo_stop_eqs(5) server_step_def by (intro disjI1 main_step.grpc_late) (simp_all add: demo_stop_pcs)
  moreover have "server_step demo_grpc None (demo_stop n) (demo_stop (Suc n))" if "5 \<le> n"
    unfolding demo_stop_eqs(6) [OF that] server_step_def
    by (intro disjI2 other_step.tick) (use that demo_stop_end [OF that] in \<open>simp add: Suc_diff_le\<close>)
  moreover have "n = 0 \<or> n = 1 \<or> n = 2 \<or> n = 3 \<or> n = 4 \<or> 5 \<le> n" by linarith
  ultimately show ?thesis by (elim disjE) (simp_all add: numeral_eq_Suc)
qed

lemma demo_stop_fair: "fair demo_grpc None demo_stop"
  unfolding fair_def
proof (intro conjI allI impI)
  show "\<exists>n. t \<le> now (demo_stop n)" for t
    using demo_stop_end [of "5 + nat t"] by (intro exI [of _ "5 + nat t"]) simp
  show "\<exists>m\<ge>n. main_step demo_grpc None (demo_stop m) (demo_stop (Suc m))" if "\<forall>m\<ge>n. runnable (demo_stop m)" for n
    using that demo_stop_end [of "n + 5"] by (auto simp: runnable_def dest: spec [of _ "n + 5"])
qed


end
