(* ===== verification/TestDoubles.thy ===== *)
theory TestDoubles
  imports Deployment HttpLayer
begin

section \<open>The doubles of the unit tests\<close>

text \<open>
  \<^verbatim>\<open>internal/testutil/stubs.go\<close>: the stub repository, whose lookups by email and claims of the owner's
  place answer what the test sets, and the stub hashers, token services, pinger and audit port. A nil
  \<^verbatim>\<open>*entity.User\<close> is the address past the store of objects: \<open>user_by_email\<close> reads it as nil, after which a
  registration goes on and a login panics, as in the source.
\<close>

subsection \<open>StubUserRepo\<close>

record stub_user_repo =
  findByEmailUser :: "addr option"
  findByEmailErr :: "error option"
  saveFirstOwnerClaimed :: bool
  saveFirstOwnerErr :: "error option"
  stub_store :: memory_store

definition NewStubUserRepo :: stub_user_repo where
  "NewStubUserRepo = \<lparr>findByEmailUser = None, findByEmailErr = None, saveFirstOwnerClaimed = True,
     saveFirstOwnerErr = None, stub_store = []\<rparr>"

definition SetFindByEmailResult :: "addr option \<Rightarrow> error option \<Rightarrow> stub_user_repo \<Rightarrow> stub_user_repo" where
  "SetFindByEmailResult u err s = s\<lparr>findByEmailUser := u, findByEmailErr := err\<rparr>"

definition SetSaveFirstOwnerResult :: "bool \<Rightarrow> error option \<Rightarrow> stub_user_repo \<Rightarrow> stub_user_repo" where
  "SetSaveFirstOwnerResult claimed err s = s\<lparr>saveFirstOwnerClaimed := claimed, saveFirstOwnerErr := err\<rparr>"

definition stub_find_by_id :: "uuid \<Rightarrow> heap \<times> stub_user_repo \<Rightarrow> (error + addr) \<times> heap \<times> stub_user_repo" where
  "stub_find_by_id i S = (case map_of (stub_store (snd S)) i of None \<Rightarrow> Inl ErrUserNotFound | Some a \<Rightarrow> Inr a, S)"

definition stub_find_by_email :: "email \<Rightarrow> heap \<times> stub_user_repo \<Rightarrow> (error + addr) \<times> heap \<times> stub_user_repo" where
  "stub_find_by_email em S =
    (case findByEmailErr (snd S) of
       Some e \<Rightarrow> Inl e
     | None \<Rightarrow> Inr (case findByEmailUser (snd S) of Some a \<Rightarrow> a | None \<Rightarrow> length (fst S)), S)"

definition stub_save :: "addr \<Rightarrow> heap \<times> stub_user_repo \<Rightarrow> (error + unit) \<times> heap \<times> stub_user_repo" where
  "stub_save a S = (case S of (h, s) \<Rightarrow>
     (Inr (), h, s\<lparr>stub_store := AList.update (user_key (h ! a)) a (stub_store s)\<rparr>))"

definition stub_delete :: "uuid \<Rightarrow> heap \<times> stub_user_repo \<Rightarrow> (error + unit) \<times> heap \<times> stub_user_repo" where
  "stub_delete i S = (case S of (h, s) \<Rightarrow> (Inr (), h, s\<lparr>stub_store := AList.delete i (stub_store s)\<rparr>))"

definition stub_count :: "heap \<times> stub_user_repo \<Rightarrow> (error + int) \<times> heap \<times> stub_user_repo" where
  "stub_count S = (Inr (int (length (stub_store (snd S)))), S)"

definition stub_save_first_owner :: "addr \<Rightarrow> heap \<times> stub_user_repo \<Rightarrow> (error + bool) \<times> heap \<times> stub_user_repo" where
  "stub_save_first_owner a S = (case S of (h, s) \<Rightarrow>
     (case saveFirstOwnerErr s of
        Some e \<Rightarrow> (Inl e, h, s)
      | None \<Rightarrow> (Inr (saveFirstOwnerClaimed s), h,
          if saveFirstOwnerClaimed s then s\<lparr>stub_store := AList.update (user_key (h ! a)) a (stub_store s)\<rparr> else s)))"

definition stub_find_paginated ::
  "uuid_lib \<Rightarrow> int \<Rightarrow> int \<Rightarrow> heap \<times> stub_user_repo \<Rightarrow> (error + addr list \<times> int) \<times> heap \<times> stub_user_repo" where
  "stub_find_paginated U offset limit S =
    (let users = sort_slice (user_before U (fst S)) (map snd (stub_store (snd S)));
         n = int (length users);
         start = (if n < offset then n else offset);
         end' = wrap64 (start + limit);
         end = (if n < end' then n else end')
     in if wrap64 (end - start) < 0 \<or> start < 0 then (Inl RuntimePanic, S)
        else (Inr (take (nat (end - start)) (drop (nat start) users), n), S))"

definition stub_repository :: "uuid_lib \<Rightarrow> stub_user_repo user_repository" where
  "stub_repository U = \<lparr>FindByID = stub_find_by_id, FindByEmail = stub_find_by_email, Save = stub_save,
     Delete = stub_delete, Count = stub_count, SaveFirstOwner = stub_save_first_owner,
     FindPaginated = stub_find_paginated U\<rparr>"

subsection \<open>Hashers, pinger, audit port\<close>

definition stub_hasher :: password_hasher where
  "stub_hasher = \<lparr>Hash = (\<lambda>_ g. (Inr (PasswordHash ''$argon2id$stub''), g)), Verify = (\<lambda>_ _. Inr True)\<rparr>"

definition stub_hasher_reject_all :: password_hasher where
  "stub_hasher_reject_all = \<lparr>Hash = (\<lambda>_ g. (Inr (PasswordHash ''$argon2id$stub''), g)), Verify = (\<lambda>_ _. Inr False)\<rparr>"

definition stub_pinger :: "error option \<Rightarrow> ('r, 't, 'a) pinger" where
  "stub_pinger err w = (err, w)"

definition stub_audit_port :: "audit_event list audit_port" where
  "stub_audit_port event events = events @ [event]"

subsection \<open>Token services\<close>

text \<open>The state of the first three is not touched; the last records a revocation.\<close>

definition stub_tokens_reject_all :: "'t token_service" where
  "stub_tokens_reject_all = \<lparr>
     GeneratePair = (\<lambda>_ _ s. (Inl ErrTokenInvalid, s)),
     ValidateAccessToken = (\<lambda>_ g. (Inl ErrTokenInvalid, g)),
     FindUserIDByRefreshToken = (\<lambda>_ s. (Inr (0, False), s)),
     RedeemRefreshToken = (\<lambda>_ s. (Inr \<lparr>outcome = RedemptionInvalid, red_user_id = 0\<rparr>, s)),
     RotateRefreshToken = (\<lambda>_ _ _ s. (Inl ErrTokenInvalid, s)),
     RevokeRefreshToken = (\<lambda>_ s. (Inr (), s)),
     RevokeAllRefreshTokens = (\<lambda>_ s. (Inr (), s))\<rparr>"

record stub_claims =
  ValidToken :: string
  ValidRefreshToken :: string
  Claims :: access_token_claims

definition NewStubTokenServiceWithClaims :: "string \<Rightarrow> access_token_claims \<Rightarrow> stub_claims" where
  "NewStubTokenServiceWithClaims token claims =
     \<lparr>ValidToken = token, ValidRefreshToken = ''refresh-stub'', Claims = claims\<rparr>"

definition stub_tokens_with_claims :: "stub_claims \<Rightarrow> 't token_service" where
  "stub_tokens_with_claims c = \<lparr>
     GeneratePair = (\<lambda>_ _ s. (Inr \<lparr>AccessToken = ValidToken c, RefreshToken = ''refresh-stub''\<rparr>, s)),
     ValidateAccessToken = (\<lambda>token g. (if token \<noteq> ValidToken c then Inl ErrTokenInvalid else Inr (Claims c), g)),
     FindUserIDByRefreshToken = (\<lambda>token s.
       (Inr (if token \<noteq> ValidRefreshToken c then (0, False) else (claim_user_id (Claims c), True)), s)),
     RedeemRefreshToken = (\<lambda>token s.
       (Inr (if token \<noteq> ValidRefreshToken c then \<lparr>outcome = RedemptionInvalid, red_user_id = 0\<rparr>
             else \<lparr>outcome = RedemptionOK, red_user_id = claim_user_id (Claims c)\<rparr>), s)),
     RotateRefreshToken = (\<lambda>_ _ _ s. (Inr \<lparr>AccessToken = ValidToken c, RefreshToken = ''refresh-new''\<rparr>, s)),
     RevokeRefreshToken = (\<lambda>_ s. (Inr (), s)),
     RevokeAllRefreshTokens = (\<lambda>_ s. (Inr (), s))\<rparr>"

definition with_new_id :: "(uuid \<Rightarrow> 'x) \<Rightarrow> gen \<times> 't \<Rightarrow> 'x \<times> gen \<times> 't" where
  "with_new_id f s = (case uuid_new (fst s) of (i, g) \<Rightarrow> (f i, g, snd s))"

definition stub_tokens :: "'t token_service" where
  "stub_tokens = \<lparr>
     GeneratePair = (\<lambda>_ _ s. (Inr \<lparr>AccessToken = ''access-stub'', RefreshToken = ''refresh-stub''\<rparr>, s)),
     ValidateAccessToken = (\<lambda>_ g. case uuid_new g of (i, g) \<Rightarrow> (Inr \<lparr>claim_user_id = i, claim_role = RoleUser\<rparr>, g)),
     FindUserIDByRefreshToken = (\<lambda>_. with_new_id (\<lambda>i. Inr (i, True))),
     RedeemRefreshToken = (\<lambda>_. with_new_id (\<lambda>i. Inr \<lparr>outcome = RedemptionOK, red_user_id = i\<rparr>)),
     RotateRefreshToken = (\<lambda>_ _ _ s. (Inr \<lparr>AccessToken = ''access-new'', RefreshToken = ''refresh-new''\<rparr>, s)),
     RevokeRefreshToken = (\<lambda>_ s. (Inr (), s)),
     RevokeAllRefreshTokens = (\<lambda>_ s. (Inr (), s))\<rparr>"

record stub_reused =
  stub_UserID :: uuid
  RevokedAll :: bool

definition stub_tokens_reused :: "stub_reused token_service" where
  "stub_tokens_reused = \<lparr>
     GeneratePair = (\<lambda>_ _ s. (Inl ErrInternal, s)),
     ValidateAccessToken = (\<lambda>_ g. (Inl ErrTokenInvalid, g)),
     FindUserIDByRefreshToken = (\<lambda>_ s. (Inr (0, False), s)),
     RedeemRefreshToken = (\<lambda>_ s. (Inr \<lparr>outcome = RedemptionReused, red_user_id = stub_UserID (snd s)\<rparr>, s)),
     RotateRefreshToken = (\<lambda>_ _ _ s. (Inl ErrTokenInvalid, s)),
     RevokeRefreshToken = (\<lambda>_ s. (Inr (), s)),
     RevokeAllRefreshTokens = (\<lambda>_ s. (Inr (), fst s, (snd s)\<lparr>RevokedAll := True\<rparr>))\<rparr>"

subsection \<open>Which contracts the doubles keep\<close>

interpretation stub_hash: hasher stub_hasher
  by unfold_locales (auto simp: stub_hasher_def)

interpretation stub_reject: single_use_tokens stub_tokens_reject_all "\<lambda>_. True" "\<lambda>_ _. False" "\<lambda>_ _. True"
  by unfold_locales (auto simp: stub_tokens_reject_all_def gen_later_def split: prod.splits)

text \<open>
  \<open>StubTokenService\<close> and \<open>StubTokenServiceWithClaims\<close> redeem one token again and again: no test that
  uses them can see a missing check for reuse.
\<close>

lemma stub_tokens_not_single_use:
  assumes "single_use_tokens stub_tokens tinv spent env" "tinv s"
    "distinct_draws (fst (snd (RedeemRefreshToken stub_tokens x (snd (RedeemRefreshToken stub_tokens x s)))))"
  shows False
proof -
  let ?s1 = "snd (RedeemRefreshToken stub_tokens x s)"
  let ?s2 = "snd (RedeemRefreshToken stub_tokens x ?s1)"
  have r: "RedeemRefreshToken stub_tokens x t =
      (Inr \<lparr>outcome = RedemptionOK, red_user_id = fst (uuid_new (fst t))\<rparr>, snd (RedeemRefreshToken stub_tokens x t))" for t
    by (simp add: stub_tokens_def with_new_id_def split: prod.splits)
  note l1 = single_use_tokens.redeem_law [OF assms(1,2) r]
  note l2 = single_use_tokens.redeem_law [OF assms(1) conjunct1 [OF l1] r]
  have "distinct_draws (fst ?s1)" using distinct_draws_earlier l2 assms(3) by blast
  then show False using l1 l2 assms(3) by simp
qed

subsection \<open>The stub repository and the in-memory adapter\<close>

text \<open>The stub's world with its store in place of the stub: a world of the in-memory adapter.\<close>

definition as_memory :: "(stub_user_repo, 't, 'a) world \<Rightarrow> (memory_store, 't, 'a) world" where
  "as_memory w = \<lparr>objects = objects w, repo = stub_store (repo w), tokens = tokens w, audit = audit w, sources = sources w\<rparr>"

text \<open>
  What the test set says the truth about a registration: what a lookup of the email finds, and that
  the owner's place can be claimed exactly when there is no owner.
\<close>

definition truthful :: "email \<Rightarrow> (stub_user_repo, 't, 'a) world \<Rightarrow> bool" where
  "truthful em w \<longleftrightarrow> fst (stub_find_by_email em (objects w, repo w)) = fst (mem_find_by_email em (objects w, stub_store (repo w))) \<and>
     saveFirstOwnerErr (repo w) = None \<and>
     saveFirstOwnerClaimed (repo w) =
       (\<not> list_ex (\<lambda>(_, a). usr_role (objects w ! a) = RoleOwner) (stub_store (repo w))) \<and>
     (\<forall>(i, a) \<in> set (stub_store (repo w)). a < length (objects w))"

definition stub_covers :: "(nat \<Rightarrow> nat) \<Rightarrow> request \<Rightarrow> (stub_user_repo, 't, 'a) world \<Rightarrow> bool" where
  "stub_covers lo rq w = (case rq of
     Register inp \<Rightarrow> (case new_email lo (reg_email inp) of Inr em \<Rightarrow> truthful em w | Inl _ \<Rightarrow> True)
   | Login inp \<Rightarrow> (case new_email lo (login_email inp) of Inr em \<Rightarrow> truthful em w | Inl _ \<Rightarrow> True)
   | _ \<Rightarrow> True)"

lemma as_memory_simps [simp]:
  "objects (as_memory w) = objects w" "tokens (as_memory w) = tokens w" "audit (as_memory w) = audit w"
  "sources (as_memory w) = sources w" "repo (as_memory w) = stub_store (repo w)"
  "as_memory (w\<lparr>objects := h\<rparr>) = (as_memory w)\<lparr>objects := h\<rparr>" "as_memory (w\<lparr>repo := s\<rparr>) = (as_memory w)\<lparr>repo := stub_store s\<rparr>"
  "as_memory (w\<lparr>tokens := t\<rparr>) = (as_memory w)\<lparr>tokens := t\<rparr>" "as_memory (w\<lparr>audit := x\<rparr>) = (as_memory w)\<lparr>audit := x\<rparr>"
  "as_memory (w\<lparr>sources := g\<rparr>) = (as_memory w)\<lparr>sources := g\<rparr>"
  by (simp_all add: as_memory_def)

abbreviation mem_side :: "'x \<times> (stub_user_repo, 't, 'a) world \<Rightarrow> 'x \<times> (memory_store, 't, 'a) world" where
  "mem_side \<equiv> map_prod id as_memory"

named_theorems stub_sim \<open>the same step on the stub and in memory\<close>

lemma try_do_sim:
  assumes "q = mem_side p" "\<And>x w. p = (Inr x, w) \<Longrightarrow> k' x (as_memory w) = mem_side (k x w)"
  shows "try_do q k' = mem_side (try_do p k)"
  using assms by (cases p; cases "fst p") auto

lemma user_at_sim [stub_sim]: "user_at a (as_memory w) = user_at a w"
  by (simp add: user_at_def)

lemma set_user_sim [stub_sim]: "set_user a u (as_memory w) = as_memory (set_user a u w)"
  by (simp add: set_user_def)

lemma gen_sim [stub_sim]: "on_gen f (as_memory w) = mem_side (on_gen f w)"
  by (simp add: on_gen_def split: prod.splits)

lemma tokens_sim [stub_sim]: "on_tokens f (as_memory w) = mem_side (on_tokens f w)"
  by (simp add: on_tokens_def split: prod.splits)

lemma audit_sim [stub_sim]: "record_audit A ty ac ta d (as_memory w) = as_memory (record_audit A ty ac ta d w)"
  by (simp add: record_audit_def on_gen_def split: prod.splits)

lemma alloc_sim [stub_sim]: "alloc_user u (as_memory w) = mem_side (alloc_user u w)"
  by (simp add: alloc_user_def split: prod.splits)

lemma repo_sim [stub_sim]:
  "on_repo (FindByID (memory_repository U) i) (as_memory w) = mem_side (on_repo (FindByID (stub_repository U) i) w)"
  "on_repo (Save (memory_repository U) a) (as_memory w) = mem_side (on_repo (Save (stub_repository U) a) w)"
  "on_repo (FindPaginated (memory_repository U) off lim) (as_memory w) = mem_side (on_repo (FindPaginated (stub_repository U) off lim) w)"
  by (simp_all add: on_repo_def memory_repository_def stub_repository_def mem_find_by_id_def stub_find_by_id_def
      mem_save_def stub_save_def mem_find_paginated_def stub_find_paginated_def Let_def)

lemma find_by_email_sim:
  assumes "truthful em w"
  shows "on_repo (FindByEmail (memory_repository U) em) (as_memory w) = mem_side (on_repo (FindByEmail (stub_repository U) em) w)"
  using assms by (simp add: truthful_def on_repo_def memory_repository_def stub_repository_def mem_find_by_email_def stub_find_by_email_def)

lemma save_first_owner_sim:
  assumes "saveFirstOwnerErr (repo w) = None"
    "saveFirstOwnerClaimed (repo w) = (\<not> list_ex (\<lambda>(_, a). usr_role (objects w ! a) = RoleOwner) (stub_store (repo w)))"
  shows "on_repo (SaveFirstOwner (memory_repository U) a) (as_memory w) = mem_side (on_repo (SaveFirstOwner (stub_repository U) a) w)"
  using assms by (simp add: on_repo_def memory_repository_def stub_repository_def mem_save_first_owner_def stub_save_first_owner_def)

lemma user_by_email_sim:
  assumes "truthful em w"
  shows "user_by_email (memory_repository U) em (as_memory w) = mem_side (user_by_email (stub_repository U) em w)"
  unfolding user_by_email_def find_by_email_sim [OF assms]
  by (auto simp: as_memory_def split: prod.splits sum.splits)

lemma case_mem_side [stub_sim]: "(case mem_side p of (x, w) \<Rightarrow> f x w) = (case p of (x, w) \<Rightarrow> f x (as_memory w))"
  by (simp split: prod.splits)

lemma tag_sim [stub_sim]: "tag c (mem_side p) = mem_side (tag c p)"
  by (simp add: tag_def prod_eq_iff)

lemma get_user_sim: "get_user_execute (memory_repository U) c r i (as_memory w) = mem_side (get_user_execute (stub_repository U) c r i w)"
  by (auto simp: get_user_execute_def stub_sim intro!: try_do_sim)

lemma list_users_sim: "list_users_execute (memory_repository U) r inp (as_memory w) = mem_side (list_users_execute (stub_repository U) r inp w)"
  by (auto simp: list_users_execute_def Let_def stub_sim intro!: try_do_sim)

lemma update_profile_sim: "update_profile_execute (memory_repository U) i n (as_memory w) = mem_side (update_profile_execute (stub_repository U) i n w)"
  by (auto simp: update_profile_execute_def Let_def stub_sim intro!: try_do_sim)

lemma change_password_sim:
  "change_password_execute (memory_repository U) H A i inp (as_memory w) = mem_side (change_password_execute (stub_repository U) H A i inp w)"
  by (auto simp: change_password_execute_def Let_def stub_sim intro!: try_do_sim split: sum.splits prod.splits)

lemma change_role_sim:
  "change_role_execute (memory_repository U) A ac i r (as_memory w) = mem_side (change_role_execute (stub_repository U) A ac i r w)"
  by (auto simp: change_role_execute_def Let_def stub_sim intro!: try_do_sim)

lemma refresh_sim:
  "refresh_execute (memory_repository U) T A inp (as_memory w) = mem_side (refresh_execute (stub_repository U) T A inp w)"
  by (auto simp: refresh_execute_def Let_def stub_sim split: prod.splits sum.splits redemption_outcome.splits)

lemma login_sim:
  assumes "\<And>em. new_email lo (login_email inp) = Inr em \<Longrightarrow> truthful em w"
  shows "login_execute lo (memory_repository U) H T A inp (as_memory w) = mem_side (login_execute lo (stub_repository U) H T A inp w)"
proof (cases "new_email lo (login_email inp)")
  case (Inr em)
  note f = user_by_email_sim [OF assms [OF Inr], of U]
  show ?thesis
    by (auto simp: login_execute_def Inr f Let_def stub_sim intro!: try_do_sim split: prod.splits sum.splits option.splits)
qed (simp add: login_execute_def stub_sim)

definition claim_true :: "(stub_user_repo, 't, 'a) world \<Rightarrow> bool" where
  "claim_true w \<longleftrightarrow> saveFirstOwnerErr (repo w) = None \<and>
     saveFirstOwnerClaimed (repo w) =
       (\<not> list_ex (\<lambda>(_, a). usr_role (objects w ! a) = RoleOwner) (stub_store (repo w))) \<and>
     (\<forall>(i, a) \<in> set (stub_store (repo w)). a < length (objects w))"

lemma claim_true_gen: "on_gen f w = (x, w') \<Longrightarrow> claim_true w \<Longrightarrow> claim_true w'"
  by (auto simp: on_gen_eq claim_true_def)

lemma claim_true_alloc:
  assumes "alloc_user u w = (a, w')" "claim_true w"
  shows "claim_true w'"
proof -
  have "w' = w\<lparr>objects := objects w @ [u]\<rparr>" using assms(1) by (simp add: alloc_user_eq)
  moreover have "list_ex (\<lambda>(_, a). usr_role ((objects w @ [u]) ! a) = RoleOwner) (stub_store (repo w)) =
      list_ex (\<lambda>(_, a). usr_role (objects w ! a) = RoleOwner) (stub_store (repo w))"
    using assms(2) by (fastforce simp: claim_true_def list_ex_iff nth_append)
  ultimately show ?thesis using assms(2) by (fastforce simp: claim_true_def)
qed

lemma register_store_sim:
  fixes w :: "(stub_user_repo, 't, 'a) world"
  assumes "claim_true w"
  shows "register_store (memory_repository U) H inp em (as_memory w) = mem_side (register_store (stub_repository U) H inp em w)"
proof -
  have claim: "on_repo (SaveFirstOwner (memory_repository U) a) (as_memory w) = mem_side (on_repo (SaveFirstOwner (stub_repository U) a) w)"
    if "claim_true w" for a and w :: "(stub_user_repo, 't, 'a) world"
    by (rule save_first_owner_sim) (use that in \<open>simp_all add: claim_true_def\<close>)
  have owner: "on_repo (SaveFirstOwner (memory_repository U) a) (as_memory w3) = mem_side (on_repo (SaveFirstOwner (stub_repository U) a) w3)"
    if "on_gen f w = (x, w1)" "on_gen g w1 = (y, w2)" "alloc_user u w2 = (a, w3)" for f g x y u a and w1 w2 w3
    by (rule claim [OF claim_true_alloc [OF that(3) claim_true_gen [OF that(2) claim_true_gen [OF that(1) assms]]]])
  show ?thesis unfolding register_store_def
    by (auto simp: stub_sim intro!: try_do_sim split: prod.splits if_splits) (rule owner, assumption+)
qed

lemma register_sim:
  assumes "\<And>em. new_email lo (reg_email inp) = Inr em \<Longrightarrow> truthful em w"
  shows "register_execute lo (memory_repository U) H T A inp (as_memory w) = mem_side (register_execute lo (stub_repository U) H T A inp w)"
proof -
  have check: "register_check lo (memory_repository U) inp (as_memory w) = mem_side (register_check lo (stub_repository U) inp w)"
    using user_by_email_sim [OF assms]
    by (auto simp: register_check_def stub_sim split: sum.splits prod.splits option.splits)
  have same: "w' = w \<and> truthful em w" if "register_check lo (stub_repository U) inp w = (Inr em, w')" for em w'
    using that assms by (auto simp: register_check_def user_by_email_def on_repo_def stub_repository_def stub_find_by_email_def
        split: sum.splits prod.splits if_splits option.splits)
  show ?thesis unfolding register_execute_def
  proof (rule try_do_sim [OF check], rule try_do_sim, goal_cases)
    case (1 em w')
    then have "claim_true w'" using same by (simp add: truthful_def claim_true_def)
    then show ?case by (rule register_store_sim)
  next
    case (2 em w' a w'')
    show ?case by (auto simp: register_finish_def Let_def stub_sim intro!: try_do_sim)
  qed
qed

text \<open>
  \<^bold>\<open>C29\<close> The stub repository is the in-memory adapter as far as tests can tell. Every use case that looks
  up neither an email nor the owner's place answers the same and leaves the same accounts, tokens and
  audit entries on the stub and in memory; so do registration and login when what the test set is true
  of the stored accounts.
\<close>

theorem stub_repository_agrees:
  fixes w :: "(stub_user_repo, 't, 'a) world"
  assumes "stub_covers lo rq w"
  shows "serve lo (memory_repository U) H T A rq (as_memory w) =
    map_prod id as_memory (serve lo (stub_repository U) H T A rq w)"
proof (cases rq)
  case (Register inp)
  have "truthful em w" if "new_email lo (reg_email inp) = Inr em" for em
    using assms that by (simp add: Register stub_covers_def)
  from register_sim [OF this] show ?thesis by (simp add: Register tag_sim)
next
  case (Login inp)
  have "truthful em w" if "new_email lo (login_email inp) = Inr em" for em
    using assms that by (simp add: Login stub_covers_def)
  from login_sim [OF this] show ?thesis by (simp add: Login tag_sim)
qed (simp_all add: tag_sim get_user_sim list_users_sim update_profile_sim change_password_sim change_role_sim refresh_sim)

text \<open>The world of a test: a stub that is told that the email is unknown, and the stub services.\<close>

definition demo_stub :: "(stub_user_repo, unit, audit_event list) world" where
  "demo_stub = \<lparr>objects = [], repo = SetSaveFirstOwnerResult True None (SetFindByEmailResult None (Some ErrUserNotFound) NewStubUserRepo),
     tokens = (), audit = [], sources = demo_gen\<rparr>"

lemma stub_repository_agrees_witness:
  "\<exists>out w'. serve (\<lambda>r. r) (memory_repository rfc_uuid) stub_hasher stub_tokens stub_audit_port (Register demo_input) (as_memory demo_stub) =
     (Auth (Inr out), w') \<and> sum_role (auth_user out) = RoleOwner \<and> length (repo w') = 1 \<and> length (audit w') = 1"
proof -
  have "truthful em demo_stub" for em
    by (simp add: truthful_def demo_stub_def SetSaveFirstOwnerResult_def SetFindByEmailResult_def NewStubUserRepo_def
        stub_find_by_email_def mem_find_by_email_def)
  then have c: "stub_covers (\<lambda>r. r) (Register demo_input) demo_stub" by (simp add: stub_covers_def split: sum.splits)
  have nm: "validate_name '' Bob '' = Inr ()" by (simp add: validate_name_def Let_def go_string_eval)
  have "\<exists>out w'. serve (\<lambda>r. r) (stub_repository rfc_uuid) stub_hasher stub_tokens stub_audit_port (Register demo_input) demo_stub =
     (Auth (Inr out), w') \<and> sum_role (auth_user out) = RoleOwner \<and> length (stub_store (repo w')) = 1 \<and> length (audit w') = 1"
    by (simp add: tag_def register_execute_def register_check_def user_by_email_def demo_input_def demo_email validate_password_def
        min_password_length_def max_password_length_def on_repo_def stub_repository_def stub_find_by_email_def demo_stub_def
        SetSaveFirstOwnerResult_def SetFindByEmailResult_def NewStubUserRepo_def register_store_def on_gen_def stub_hasher_def
        new_user_def nm time_now_def new_user_id_def uuid_new_def alloc_user_def alloc_def stub_save_first_owner_def
        register_finish_def on_tokens_def stub_tokens_def user_at_def Let_def record_audit_def new_audit_event_def
        stub_audit_port_def auth_output_of_def user_summary_of_def demo_gen_def)
  then show ?thesis unfolding stub_repository_agrees [OF c] by auto
qed

end
